(* ===== verification/Prelude.thy ===== *)
theory Prelude
  imports Complex_Main "HOL-Library.Word"
begin

text \<open>
  What every component of the model shares.

  The library is C++ that aborts on a failed \<open>assert\<close> and has undefined behaviour on signed
  overflow and on a conversion of a \<open>double\<close> that does not fit its \<open>int\<close> target. Each
  of these is a \<open>fault\<close>; a modelled function returns a \<open>result\<close>, the fault or the
  value, and \<open>bind_r\<close> sequences two such computations. A theorem that says a function
  returns \<open>Ok\<close> therefore says that none of these happens.

  The data model is LP64, the one of the Linux builds of \<^verbatim>\<open>cpp_source/Makefile\<close>: a C
  \<open>int\<close> is an HOL \<open>int\<close> kept in range by \<open>c_int\<close>, a \<open>long\<close>
  (\<open>time_t\<close>, \<open>suseconds_t\<close>) one kept in range by \<open>c_long\<close>, and a
  \<open>size_t\<close> is a \<open>64 word\<close>, whose arithmetic wraps around.
\<close>

named_theorems res_simps \<open>rules that evaluate or invert a sequence of results\<close>

subsection \<open>Faults and results\<close>

datatype fault =
    Assertion_failed
  | Signed_overflow
  | Float_to_int
  | Bad_enum
  | Bad_iterator
  | Self_deadlock
  | Null_pointer
  | Not_owner
  | Dangling_pointer
  | Out_of_bounds

type_synonym 'a result = "fault + 'a"

abbreviation Fault :: "fault \<Rightarrow> 'a result" where
  "Fault \<equiv> Inl"

abbreviation Ok :: "'a \<Rightarrow> 'a result" where
  "Ok \<equiv> Inr"

definition bind_r :: "'a result \<Rightarrow> ('a \<Rightarrow> 'b result) \<Rightarrow> 'b result" where
  "bind_r m f = (case m of Inl e \<Rightarrow> Inl e | Inr x \<Rightarrow> f x)"

definition c_assert :: "bool \<Rightarrow> unit result" where
  "c_assert b = (if b then Ok () else Fault Assertion_failed)"

lemma bind_r_Ok [simp, res_simps]: "bind_r (Ok x) f = f x"
  by (simp add: bind_r_def)

lemma bind_r_Fault [simp, res_simps]: "bind_r (Fault e) f = Fault e"
  by (simp add: bind_r_def)

lemma bind_r_eq_Ok [res_simps]: "bind_r m f = Ok y \<longleftrightarrow> (\<exists>x. m = Ok x \<and> f x = Ok y)"
  by (cases m) auto

lemma bind_r_OkE:
  assumes "bind_r m f = Ok y"
  obtains x where "m = Ok x" "f x = Ok y"
  using assms by (auto simp: bind_r_eq_Ok)

lemma bind_r_assoc: "bind_r (bind_r m f) g = bind_r m (\<lambda>x. bind_r (f x) g)"
  by (cases m) auto

lemma bind_r_cong [fundef_cong]:
  "m = n \<Longrightarrow> (\<And>x. n = Ok x \<Longrightarrow> f x = g x) \<Longrightarrow> bind_r m f = bind_r n g"
  by (cases n) auto

lemma c_assert_True [simp, res_simps]: "c_assert True = Ok ()"
  by (simp add: c_assert_def)

lemma c_assert_False [simp, res_simps]: "c_assert False = Fault Assertion_failed"
  by (simp add: c_assert_def)

lemma c_assert_eq_Ok [simp, res_simps]: "c_assert b = Ok u \<longleftrightarrow> b"
  by (simp add: c_assert_def)

subsection \<open>C integers\<close>

type_synonym size_t = "64 word"

definition in_int :: "int \<Rightarrow> bool" where
  "in_int x \<longleftrightarrow> - (2 ^ 31) \<le> x \<and> x < 2 ^ 31"

definition c_int :: "int \<Rightarrow> int result" where
  "c_int x = (if in_int x then Ok x else Fault Signed_overflow)"

definition in_long :: "int \<Rightarrow> bool" where
  "in_long x \<longleftrightarrow> - (2 ^ 63) \<le> x \<and> x < 2 ^ 63"

definition c_long :: "int \<Rightarrow> int result" where
  "c_long x = (if in_long x then Ok x else Fault Signed_overflow)"

text \<open>Division of integers, which truncates.\<close>

definition c_div :: "int \<Rightarrow> int \<Rightarrow> int" where
  "c_div a b = sgn a * sgn b * (\<bar>a\<bar> div \<bar>b\<bar>)"

text \<open>
  Conversions between \<open>int\<close> and \<open>size_t\<close>: to the unsigned type the value is taken
  modulo \<open>2 ^ 64\<close> (that is \<open>of_int\<close>), back to \<open>int\<close> the low 32 bits are kept and
  read as two's complement.
\<close>

definition size_of_int :: "int \<Rightarrow> size_t" where
  "size_of_int x = of_int x"

definition int_of_size :: "size_t \<Rightarrow> int" where
  "int_of_size w = signed_take_bit 31 (uint w)"

lemma c_int_eq_Ok [simp, res_simps]: "c_int x = Ok y \<longleftrightarrow> in_int x \<and> y = x"
  by (auto simp: c_int_def)

lemma c_int_Ok [simp]: "in_int x \<Longrightarrow> c_int x = Ok x"
  by (simp add: c_int_def)

lemma c_long_eq_Ok [simp, res_simps]: "c_long x = Ok y \<longleftrightarrow> in_long x \<and> y = x"
  by (auto simp: c_long_def)

lemma c_long_Ok [simp]: "in_long x \<Longrightarrow> c_long x = Ok x"
  by (simp add: c_long_def)

lemmas int_range = in_int_def in_long_def

lemma size_int_roundtrip: "in_int x \<Longrightarrow> int_of_size (size_of_int x) = x"
  unfolding int_of_size_def size_of_int_def in_int_def
  by (simp add: uint_word_of_int_eq signed_take_bit_take_bit signed_take_bit_int_eq_self)

end
