(* ===== verification/Doubles.thy ===== *)
theory Doubles
  imports Prelude
begin

text \<open>
  The C type \<open>double\<close>, as the IEEE 754 binary64 format with rounding to nearest, ties to
  even, which is what the compilers of both builds use.

  A value is a finite rational, an infinity or NaN. Every operation computes the exact rational
  result and rounds it once (\<open>round64\<close>); \<open>binary64_min_exp\<close> is the exponent of the
  least subnormal number. Zero has no sign here: the library divides only by sums and differences
  that are \<open>+0\<close> when they are zero and never reads a sign bit, so no result depends on it.
\<close>

subsection \<open>Rounding a rational to 53 significant bits\<close>

definition round_half_even :: "rat \<Rightarrow> int" where
  "round_half_even x =
     (let f = \<lfloor>x\<rfloor>; d = x - of_int f in
      if d < 1 / 2 then f else if d > 1 / 2 then f + 1 else if even f then f else f + 1)"

text \<open>
  \<open>int_log2 n\<close> is the position of the leading bit of \<open>n \<ge> 1\<close>, \<open>flog2 x\<close> the
  exponent of the power of two at or below a rational \<open>x > 0\<close>.
\<close>

function int_log2 :: "int \<Rightarrow> int" where
  "int_log2 n = (if n \<le> 1 then 0 else 1 + int_log2 (n div 2))"
  by pat_completeness auto
termination
  by (relation "measure nat") auto

declare int_log2.simps [simp del]

definition flog2 :: "rat \<Rightarrow> int" where
  "flog2 x = (if x \<ge> 1 then int_log2 \<lfloor>x\<rfloor> else - (int_log2 (\<lceil>1 / x\<rceil> - 1) + 1))"

definition binary64_min_exp :: int where
  "binary64_min_exp = - 1074"

definition ulp_exp :: "rat \<Rightarrow> int" where
  "ulp_exp x = max binary64_min_exp (flog2 \<bar>x\<bar> - 52)"

definition round64 :: "rat \<Rightarrow> rat" where
  "round64 x = (if x = 0 then 0
                else of_int (round_half_even (x / 2 powi ulp_exp x)) * 2 powi ulp_exp x)"

subsection \<open>Correctness of the rounding\<close>

lemma round_half_even_error: "\<bar>of_int (round_half_even x) - x\<bar> \<le> 1 / 2"
proof -
  have "of_int \<lfloor>x\<rfloor> \<le> x" "x < of_int \<lfloor>x\<rfloor> + 1" by linarith+
  then show ?thesis
    unfolding round_half_even_def Let_def by (auto simp: abs_le_iff)
qed

lemma round_half_even_mono: "x \<le> y \<Longrightarrow> round_half_even x \<le> round_half_even y"
proof -
  assume "x \<le> y"
  then have le: "\<lfloor>x\<rfloor> \<le> \<lfloor>y\<rfloor>" by (rule floor_mono)
  have up: "\<And>z. round_half_even z \<le> \<lfloor>z\<rfloor> + 1" and lo: "\<And>z. \<lfloor>z\<rfloor> \<le> round_half_even z"
    by (auto simp: round_half_even_def Let_def)
  show ?thesis
  proof (cases "\<lfloor>x\<rfloor> = \<lfloor>y\<rfloor>")
    case True
    with \<open>x \<le> y\<close> show ?thesis by (auto simp: round_half_even_def Let_def)
  next
    case False
    with le up [of x] lo [of y] show ?thesis by linarith
  qed
qed

lemma round_half_even_of_int [simp]: "round_half_even (of_int n) = n"
  by (simp add: round_half_even_def)

lemma int_log2_nonneg [simp]: "0 \<le> int_log2 n"
proof (induction n rule: int_log2.induct)
  case (1 n)
  then show ?case by (subst int_log2.simps) auto
qed

lemma int_log2_bounds: "1 \<le> n \<Longrightarrow> 2 ^ nat (int_log2 n) \<le> n \<and> n < 2 ^ (nat (int_log2 n) + 1)"
proof (induction n rule: int_log2.induct)
  case (1 n)
  show ?case
  proof (cases "n \<le> 1")
    case True
    with "1.prems" show ?thesis by (subst (1 2) int_log2.simps) auto
  next
    case False
    with "1.IH" have "2 ^ nat (int_log2 (n div 2)) \<le> n div 2 \<and> n div 2 < 2 ^ (nat (int_log2 (n div 2)) + 1)"
      by auto
    moreover have "nat (int_log2 n) = Suc (nat (int_log2 (n div 2)))"
      using False by (subst int_log2.simps) (simp add: nat_add_distrib)
    moreover have "2 * (n div 2) \<le> n" "n \<le> 2 * (n div 2) + 1" by arith+
    ultimately show ?thesis by (simp only: power_Suc add_Suc_right Nat.add_0_right One_nat_def) linarith
  qed
qed

lemma of_int_power_mono_le: "2 ^ k \<le> n \<Longrightarrow> (2 ^ k :: rat) \<le> of_int n"
  by (metis of_int_le_iff of_int_numeral of_int_power)

lemma of_int_le_power_mono: "n \<le> 2 ^ k \<Longrightarrow> of_int n \<le> (2 ^ k :: rat)"
  by (metis of_int_le_iff of_int_numeral of_int_power)

lemma powi_nat: "0 \<le> k \<Longrightarrow> (2 :: rat) powi k = 2 ^ nat k"
  by (simp add: power_int_def)

lemma flog2_bounds:
  assumes "0 < x"
  shows "2 powi flog2 x \<le> x \<and> x < 2 powi (flog2 x + 1)"
proof (cases "1 \<le> x")
  case True
  let ?k = "int_log2 \<lfloor>x\<rfloor>"
  from True have "1 \<le> \<lfloor>x\<rfloor>" by simp
  then have b: "2 ^ nat ?k \<le> \<lfloor>x\<rfloor>" "\<lfloor>x\<rfloor> + 1 \<le> 2 ^ (nat ?k + 1)"
    using int_log2_bounds [of "\<lfloor>x\<rfloor>"] by simp_all
  have "(2 ^ nat ?k :: rat) \<le> of_int \<lfloor>x\<rfloor>"
    by (rule of_int_power_mono_le [OF b(1)])
  moreover have "of_int (\<lfloor>x\<rfloor> + 1) \<le> (2 ^ (nat ?k + 1) :: rat)"
    by (rule of_int_le_power_mono [OF b(2)])
  ultimately have "2 ^ nat ?k \<le> x" "x < 2 ^ (nat ?k + 1)" by linarith+
  moreover have "2 powi flog2 x = (2 ^ nat ?k :: rat)"
    "2 powi (flog2 x + 1) = (2 ^ (nat ?k + 1) :: rat)"
    using True by (simp_all add: flog2_def powi_nat nat_add_distrib)
  ultimately show ?thesis by simp
next
  case False
  let ?y = "1 / x"
  let ?k = "int_log2 (\<lceil>?y\<rceil> - 1)"
  from False assms have "1 < ?y" by simp
  then have "1 \<le> \<lceil>?y\<rceil> - 1" by linarith
  then have b: "2 ^ nat ?k \<le> \<lceil>?y\<rceil> - 1" "\<lceil>?y\<rceil> \<le> 2 ^ (nat ?k + 1)"
    using int_log2_bounds [of "\<lceil>?y\<rceil> - 1"] by simp_all
  have "(2 ^ nat ?k :: rat) \<le> of_int (\<lceil>?y\<rceil> - 1)"
    by (rule of_int_power_mono_le [OF b(1)])
  moreover have "of_int \<lceil>?y\<rceil> \<le> (2 ^ (nat ?k + 1) :: rat)"
    by (rule of_int_le_power_mono [OF b(2)])
  ultimately have y: "2 ^ nat ?k < ?y" "?y \<le> 2 ^ (nat ?k + 1)" by linarith+
  have p: "(2 :: rat) powi (- (?k + 1)) = inverse (2 ^ (nat ?k + 1))"
    "(2 :: rat) powi (- ?k) = inverse (2 ^ nat ?k)"
    by (simp_all only: power_int_minus powi_nat int_log2_nonneg add_nonneg_nonneg
        zero_le_one nat_add_distrib nat_one_as_int [symmetric])
  have "x < inverse (2 ^ nat ?k)" "inverse (2 ^ (nat ?k + 1)) \<le> x"
    using y assms by (simp_all add: field_simps)
  with False p show ?thesis by (simp add: flog2_def)
qed

lemma powi_add: "(2 :: rat) powi (a + b) = 2 powi a * 2 powi b"
  by (simp add: power_int_add)

lemma powi_pos [simp]: "0 < (2 :: rat) powi a"
  by simp

lemma powi_mono: "a \<le> b \<Longrightarrow> (2 :: rat) powi a \<le> 2 powi b"
  by (simp add: power_int_increasing)

lemma powi_less_cancel: "(2 :: rat) powi a < 2 powi b \<Longrightarrow> a < b"
  using powi_mono [of b a] by linarith

lemma powi_le_cancel: "(2 :: rat) powi a \<le> 2 powi b \<Longrightarrow> a \<le> b"
  using powi_less_cancel [of a "b + 1"] powi_pos [of b] by (simp add: powi_add del: powi_pos)

lemma flog2_mono: assumes "0 < x" "x \<le> y" shows "flog2 x \<le> flog2 y"
proof -
  have "2 powi flog2 x \<le> x" "y < 2 powi (flog2 y + 1)"
    using flog2_bounds [of x] flog2_bounds [of y] assms by auto
  with assms have "2 powi flog2 x < (2 :: rat) powi (flog2 y + 1)" by linarith
  then have "flog2 x < flog2 y + 1" by (rule powi_less_cancel)
  then show ?thesis by simp
qed

lemma round_half_even_uminus: "round_half_even (- x) = - round_half_even x"
proof (cases "x = of_int \<lfloor>x\<rfloor>")
  case True
  then show ?thesis by (metis of_int_minus round_half_even_of_int)
next
  case False
  then have "\<lfloor>- x\<rfloor> = - \<lfloor>x\<rfloor> - 1"
    by linarith
  then show ?thesis
    by (auto simp: round_half_even_def Let_def)
qed

lemma ulp_exp_uminus [simp]: "ulp_exp (- x) = ulp_exp x"
  by (simp add: ulp_exp_def)

lemma round64_uminus: "round64 (- x) = - round64 x"
  by (simp add: round64_def round_half_even_uminus)

lemma round64_nonneg: "0 \<le> x \<Longrightarrow> 0 \<le> round64 x"
  using round_half_even_mono [of 0 "x / 2 powi ulp_exp x"] round_half_even_of_int [of 0]
  by (auto simp: round64_def)

lemma rhe_le_of_int: "x \<le> of_int n \<Longrightarrow> round_half_even x \<le> n"
  by (metis round_half_even_mono round_half_even_of_int)

lemma rhe_ge_of_int: "of_int n \<le> x \<Longrightarrow> n \<le> round_half_even x"
  by (metis round_half_even_mono round_half_even_of_int)

lemma powi_of_int: "0 \<le> k \<Longrightarrow> (2 :: rat) powi k = of_int (2 ^ nat k)"
  by (simp add: powi_nat)

lemma round64_ge_pow:
  assumes "0 < x" "binary64_min_exp \<le> k - 52" "2 powi k \<le> x"
  shows "2 powi k \<le> round64 x"
proof (cases "ulp_exp x \<le> k")
  case True
  let ?u = "ulp_exp x"
  have "2 powi k = (2 :: rat) powi (k - ?u) * 2 powi ?u" by (simp flip: powi_add)
  with assms(3) have "2 powi (k - ?u) \<le> x / 2 powi ?u" by (simp add: field_simps)
  with True have "of_int (2 ^ nat (k - ?u)) \<le> x / 2 powi ?u" by (simp add: powi_of_int)
  then have "2 ^ nat (k - ?u) \<le> round_half_even (x / 2 powi ?u)" by (rule rhe_ge_of_int)
  then have "(2 :: rat) powi (k - ?u) \<le> of_int (round_half_even (x / 2 powi ?u))"
    using True by (metis diff_ge_0_iff_ge of_int_le_iff powi_of_int)
  then have "(2 :: rat) powi (k - ?u) * 2 powi ?u \<le> of_int (round_half_even (x / 2 powi ?u)) * 2 powi ?u"
    by (intro mult_right_mono) auto
  with assms(1) show ?thesis by (simp add: round64_def flip: powi_add)
next
  case False
  let ?u = "ulp_exp x"
  from False assms(2) have u: "?u = flog2 x - 52" using assms(1) by (auto simp: ulp_exp_def)
  have "2 powi (?u + 52) \<le> x" using flog2_bounds [OF assms(1)] u by simp
  then have "2 powi 52 \<le> x / 2 powi ?u" by (simp add: powi_add field_simps)
  then have "2 ^ 52 \<le> round_half_even (x / 2 powi ?u)" by (intro rhe_ge_of_int) simp
  then have "2 powi 52 \<le> (of_int (round_half_even (x / 2 powi ?u)) :: rat)"
    by (simp add: of_int_power_mono_le flip: powi_nat)
  then have "(2 :: rat) powi 52 * 2 powi ?u \<le> of_int (round_half_even (x / 2 powi ?u)) * 2 powi ?u"
    by (intro mult_right_mono) auto
  moreover have "(2 :: rat) powi k \<le> 2 powi 52 * 2 powi ?u"
    using False unfolding powi_add [symmetric] by (intro powi_mono) simp
  ultimately have "(2 :: rat) powi k \<le> of_int (round_half_even (x / 2 powi ?u)) * 2 powi ?u" by linarith
  then show ?thesis using assms(1) by (simp add: round64_def)
qed

lemma round64_le_pow:
  assumes "0 < x" "binary64_min_exp \<le> k" "x \<le> 2 powi k"
  shows "round64 x \<le> 2 powi k"
proof -
  let ?u = "ulp_exp x"
  have "2 powi flog2 x \<le> (2 :: rat) powi k" using flog2_bounds [OF assms(1)] assms(3) by linarith
  then have "flog2 x \<le> k" by (rule powi_le_cancel)
  with assms(1,2) have u: "?u \<le> k" by (auto simp: ulp_exp_def)
  have "2 powi k = (2 :: rat) powi (k - ?u) * 2 powi ?u" by (simp flip: powi_add)
  with assms(3) have "x / 2 powi ?u \<le> 2 powi (k - ?u)" by (simp add: field_simps)
  with u have "x / 2 powi ?u \<le> of_int (2 ^ nat (k - ?u))" by (simp add: powi_of_int)
  then have "round_half_even (x / 2 powi ?u) \<le> 2 ^ nat (k - ?u)" by (rule rhe_le_of_int)
  then have "of_int (round_half_even (x / 2 powi ?u)) \<le> (2 :: rat) powi (k - ?u)"
    using u by (metis diff_ge_0_iff_ge of_int_le_iff powi_of_int)
  then have "of_int (round_half_even (x / 2 powi ?u)) * 2 powi ?u \<le> (2 :: rat) powi (k - ?u) * 2 powi ?u"
    by (intro mult_right_mono) auto
  with assms(1) show ?thesis by (simp add: round64_def flip: powi_add)
qed

lemma round64_mono_pos:
  assumes "0 < x" "x \<le> y"
  shows "round64 x \<le> round64 y"
proof (cases "ulp_exp x = ulp_exp y")
  case True
  have "x / 2 powi ulp_exp x \<le> y / 2 powi ulp_exp x"
    using assms by (intro divide_right_mono) auto
  from round_half_even_mono [OF this] show ?thesis
    using assms True by (auto simp: round64_def intro!: mult_right_mono)
next
  case False
  let ?k = "ulp_exp y + 52"
  have fl: "flog2 x \<le> flog2 y" using assms by (rule flog2_mono)
  with False assms have k: "?k = flog2 y" "flog2 x + 1 \<le> ?k" "binary64_min_exp \<le> ?k - 52"
    by (auto simp: ulp_exp_def)
  have "x < 2 powi (flog2 x + 1)" using flog2_bounds [OF assms(1)] by simp
  also have "\<dots> \<le> 2 powi ?k" using k(2) by (rule powi_mono)
  finally have "round64 x \<le> 2 powi ?k"
    using assms(1) k(3) by (intro round64_le_pow) auto
  also have "\<dots> \<le> round64 y"
    using assms k(1,3) flog2_bounds [of y] by (intro round64_ge_pow) auto
  finally show ?thesis .
qed

lemma round64_0 [simp]: "round64 0 = 0"
  by (simp add: round64_def)

lemma round64_mono: assumes "x \<le> y" shows "round64 x \<le> round64 y"
proof -
  consider "0 < x" | "x \<le> 0" "0 \<le> y" | "y < 0" by linarith
  then show ?thesis
  proof cases
    case 1
    then show ?thesis using assms by (rule round64_mono_pos)
  next
    case 2
    then have "0 \<le> round64 (- x)" "0 \<le> round64 y" by (auto intro: round64_nonneg)
    then show ?thesis by (simp add: round64_uminus)
  next
    case 3
    then have "round64 (- y) \<le> round64 (- x)" using assms by (intro round64_mono_pos) auto
    then show ?thesis by (simp add: round64_uminus)
  qed
qed

text \<open>Every \<open>m * 2 ^ e\<close> with 53 significant bits is a fixed point of the rounding.\<close>

lemma round64_exact_pos:
  assumes "0 < m" "m < 2 ^ 53" "binary64_min_exp \<le> e"
  shows "round64 (of_int m * 2 powi e) = of_int m * 2 powi e"
proof -
  let ?x = "of_int m * 2 powi e :: rat"
  let ?u = "ulp_exp ?x"
  have pos: "0 < ?x" using assms(1) by simp
  have "(of_int m :: rat) < 2 powi 53" using assms(2) by (simp add: powi_nat)
  then have "?x < 2 powi (53 + e)" by (simp add: powi_add)
  moreover have "2 powi flog2 ?x \<le> ?x" using flog2_bounds [OF pos] by simp
  ultimately have "2 powi flog2 ?x < (2 :: rat) powi (53 + e)" by linarith
  then have "flog2 ?x < 53 + e" by (rule powi_less_cancel)
  with assms(3) pos have u: "?u \<le> e" by (auto simp: ulp_exp_def)
  have "?x / 2 powi ?u = of_int m * 2 powi (e - ?u)" by (simp add: power_int_diff)
  also have "\<dots> = of_int (m * 2 ^ nat (e - ?u))" using u powi_of_int [of "e - ?u"] by simp
  finally have "?x / 2 powi ?u = of_int (m * 2 ^ nat (e - ?u))" .
  then have "round64 ?x = ?x / 2 powi ?u * 2 powi ?u"
    using pos by (simp only: round64_def round_half_even_of_int) simp
  then show ?thesis by simp
qed

lemma round64_exact:
  assumes "\<bar>m\<bar> < 2 ^ 53" "binary64_min_exp \<le> e"
  shows "round64 (of_int m * 2 powi e) = of_int m * 2 powi e"
proof -
  consider "m = 0" | "0 < m" | "0 < - m" by linarith
  then show ?thesis
  proof cases
    case 3
    then have "round64 (- (of_int (- m) * 2 powi e)) = - (of_int (- m) * 2 powi e)"
      using assms by (simp only: round64_uminus round64_exact_pos)
    then show ?thesis by simp
  qed (use assms round64_exact_pos in auto)
qed

lemma round64_of_int: "\<bar>n\<bar> < 2 ^ 53 \<Longrightarrow> round64 (of_int n) = of_int n"
  using round64_exact [of n 0] by (simp add: binary64_min_exp_def)

lemma round64_relative_error:
  assumes "2 powi (- 1022) \<le> x"
  shows "\<bar>round64 x - x\<bar> \<le> x / 2 ^ 53"
proof -
  let ?u = "ulp_exp x"
  have pos: "0 < x" using assms powi_pos [of "- 1022"] by linarith
  have "2 powi (- 1022) < (2 :: rat) powi (flog2 x + 1)" using assms flog2_bounds [OF pos] by linarith
  then have "- 1022 < flog2 x + 1" by (rule powi_less_cancel)
  then have u: "?u = flog2 x - 52" using pos by (simp add: ulp_exp_def binary64_min_exp_def)
  have x: "round64 x - x = (of_int (round_half_even (x / 2 powi ?u)) - x / 2 powi ?u) * 2 powi ?u"
    using pos by (simp add: round64_def left_diff_distrib)
  have "\<bar>round64 x - x\<bar> \<le> 1 / 2 * 2 powi ?u"
    unfolding x abs_mult
    by (intro mult_mono round_half_even_error) auto
  also have "(1 :: rat) / 2 * 2 powi ?u = 2 powi (flog2 x) / 2 ^ 53"
    by (simp add: u power_int_diff powi_nat)
  also have "\<dots> \<le> x / 2 ^ 53"
    using flog2_bounds [OF pos] by (intro divide_right_mono) auto
  finally show ?thesis .
qed

subsection \<open>The type \<open>double\<close> and its operations\<close>

datatype double = Fin rat | PInf | NInf | NaN

definition binary64_max_exp :: int where
  "binary64_max_exp = 1023"

definition to_double :: "rat \<Rightarrow> double" where
  "to_double x =
     (let y = round64 x in
      if y \<noteq> 0 \<and> flog2 \<bar>y\<bar> > binary64_max_exp then (if 0 < y then PInf else NInf)
      else Fin y)"

definition d_of_int :: "int \<Rightarrow> double" where
  "d_of_int n = to_double (of_int n)"

definition d_of_size :: "size_t \<Rightarrow> double" where
  "d_of_size w = to_double (of_int (uint w))"

instantiation double :: "{ord, plus, minus, uminus, times, inverse}"
begin

fun less_eq_double :: "double \<Rightarrow> double \<Rightarrow> bool" where
  "(Fin a \<le> Fin b) = (a \<le> b)"
| "(NaN \<le> _) = False"
| "(_ \<le> NaN) = False"
| "(_ \<le> PInf) = True"
| "(NInf \<le> _) = True"
| "((_ :: double) \<le> _) = False"

definition less_double :: "double \<Rightarrow> double \<Rightarrow> bool" where
  "x < y \<longleftrightarrow> x \<le> y \<and> \<not> y \<le> (x :: double)"

fun uminus_double :: "double \<Rightarrow> double" where
  "- Fin a = Fin (- a)"
| "- PInf = NInf"
| "- NInf = PInf"
| "- NaN = NaN"

fun plus_double :: "double \<Rightarrow> double \<Rightarrow> double" where
  "Fin a + Fin b = to_double (a + b)"
| "NaN + _ = NaN"
| "_ + NaN = NaN"
| "PInf + NInf = NaN"
| "NInf + PInf = NaN"
| "PInf + _ = PInf"
| "_ + PInf = PInf"
| "NInf + _ = NInf"
| "_ + NInf = NInf"

definition minus_double :: "double \<Rightarrow> double \<Rightarrow> double" where
  "x - y = x + - (y :: double)"

fun times_double :: "double \<Rightarrow> double \<Rightarrow> double" where
  "Fin a * Fin b = to_double (a * b)"
| "NaN * _ = NaN"
| "_ * NaN = NaN"
| "Fin a * PInf = (if a = 0 then NaN else if 0 < a then PInf else NInf)"
| "Fin a * NInf = (if a = 0 then NaN else if 0 < a then NInf else PInf)"
| "PInf * Fin a = (if a = 0 then NaN else if 0 < a then PInf else NInf)"
| "NInf * Fin a = (if a = 0 then NaN else if 0 < a then NInf else PInf)"
| "PInf * PInf = PInf"
| "NInf * NInf = PInf"
| "PInf * NInf = NInf"
| "NInf * PInf = NInf"

fun divide_double :: "double \<Rightarrow> double \<Rightarrow> double" where
  "divide_double (Fin a) (Fin b) =
     (if b \<noteq> 0 then to_double (a / b)
      else if a = 0 then NaN else if 0 < a then PInf else NInf)"
| "divide_double NaN _ = NaN"
| "divide_double _ NaN = NaN"
| "divide_double (Fin a) _ = Fin 0"
| "divide_double PInf (Fin b) = (if 0 \<le> b then PInf else NInf)"
| "divide_double NInf (Fin b) = (if 0 \<le> b then NInf else PInf)"
| "divide_double _ _ = NaN"

definition inverse_double :: "double \<Rightarrow> double" where
  "inverse_double x = divide (Fin 1) x"

instance ..

end

text \<open>
  \<open>std::min\<close> and \<open>std::max\<close> as the standard library defines them, \<open>ceil\<close>, and the
  conversion to \<open>int\<close>, which truncates and is undefined when the result does not fit.
\<close>

definition d_min :: "double \<Rightarrow> double \<Rightarrow> double" where
  "d_min a b = (if b < a then b else a)"

definition d_max :: "double \<Rightarrow> double \<Rightarrow> double" where
  "d_max a b = (if a < b then b else a)"

fun d_ceil :: "double \<Rightarrow> double" where
  "d_ceil (Fin a) = Fin (of_int \<lceil>a\<rceil>)"
| "d_ceil x = x"

definition d_trunc :: "rat \<Rightarrow> int" where
  "d_trunc x = (if 0 \<le> x then \<lfloor>x\<rfloor> else \<lceil>x\<rceil>)"

fun d_to_int :: "double \<Rightarrow> int result" where
  "d_to_int (Fin a) = (if in_int (d_trunc a) then Ok (d_trunc a) else Fault Float_to_int)"
| "d_to_int _ = Fault Float_to_int"


subsection \<open>Evaluation\<close>

text \<open>
  \<open>double_eval\<close> lets the simplifier compute with double literals: the rules replace floors,
  ceilings and logarithms of numerals by integer arithmetic.
\<close>

lemma int_log2_numeral:
  "int_log2 (numeral n) = (if (numeral n :: int) \<le> 1 then 0 else 1 + int_log2 (numeral n div 2))"
  by (rule int_log2.simps)

lemma int_log2_1: "int_log2 1 = 0"
  by (subst int_log2.simps) simp

lemma floor_rat_divide: "\<lfloor>of_int a / of_int b :: rat\<rfloor> = a div b"
  by (rule floor_divide_of_int_eq)

lemma ceiling_rat_divide: "\<lceil>of_int a / of_int b :: rat\<rceil> = - ((- a) div b)"
  using floor_rat_divide [of "- a" b] by (simp add: ceiling_def)

lemmas floor_rat_numeral =
  floor_rat_divide [of "numeral a" "numeral b" for a b, simplified]
  floor_rat_divide [of 1 "numeral b" for b, simplified]
  floor_rat_divide [of "- numeral a" "numeral b" for a b, simplified]
  floor_rat_divide [of "- 1" "numeral b" for b, simplified]

lemmas ceiling_rat_numeral =
  ceiling_rat_divide [of "numeral a" "numeral b" for a b, simplified]
  ceiling_rat_divide [of 1 "numeral b" for b, simplified]
  ceiling_rat_divide [of "- numeral a" "numeral b" for a b, simplified]
  ceiling_rat_divide [of "- 1" "numeral b" for b, simplified]

lemmas double_eval =
  round64_def ulp_exp_def binary64_min_exp_def binary64_max_exp_def round_half_even_def Let_def
  flog2_def int_log2_numeral int_log2_1 floor_rat_numeral ceiling_rat_numeral
  to_double_def d_of_int_def d_of_size_def d_trunc_def in_int_def less_double_def
  d_min_def d_max_def minus_double_def

subsection \<open>Laws of a correctly rounding format\<close>

text \<open>
  The only facts about the rounding that the order lemmas on doubles use: it is monotone, fixes
  the integers below \<open>2 ^ 53\<close>, and a rounded value is at least a fixed point below it.
\<close>

locale rounding =
  fixes rnd :: "rat \<Rightarrow> rat"
  assumes rnd_mono: "x \<le> y \<Longrightarrow> rnd x \<le> rnd y"
    and rnd_of_int: "\<bar>n\<bar> < 2 ^ 53 \<Longrightarrow> rnd (of_int n) = of_int n"
begin

lemma rnd_ge_int: "\<bar>n\<bar> < 2 ^ 53 \<Longrightarrow> of_int n \<le> x \<Longrightarrow> of_int n \<le> rnd x"
  using rnd_mono [of "of_int n" x] by (simp add: rnd_of_int)

lemma rnd_le_int: "\<bar>n\<bar> < 2 ^ 53 \<Longrightarrow> x \<le> of_int n \<Longrightarrow> rnd x \<le> of_int n"
  using rnd_mono [of x "of_int n"] by (simp add: rnd_of_int)

lemma rnd_between:
  assumes "\<bar>m\<bar> < 2 ^ 53" "\<bar>n\<bar> < 2 ^ 53" "of_int m \<le> x" "x \<le> of_int n"
  shows "of_int m \<le> rnd x \<and> rnd x \<le> of_int n"
  using rnd_ge_int [OF assms(1,3)] rnd_le_int [OF assms(2,4)] by simp

end

interpretation ieee: rounding round64
  by unfold_locales (auto intro: round64_mono round64_of_int)

subsection \<open>Order and arithmetic\<close>

lemma d_le_trans [trans]: "x \<le> y \<Longrightarrow> y \<le> z \<Longrightarrow> x \<le> (z :: double)"
  by (cases x; cases y; cases z) auto

lemma d_le_refl: "x \<noteq> NaN \<Longrightarrow> x \<le> (x :: double)"
  by (cases x) auto

lemma d_le_PInf [simp]: "x \<le> PInf \<longleftrightarrow> x \<noteq> NaN"
  by (cases x) auto

lemma d_NInf_le [simp]: "NInf \<le> x \<longleftrightarrow> x \<noteq> NaN"
  by (cases x) auto

lemma d_NaN_le [simp]: "\<not> NaN \<le> x" "\<not> x \<le> NaN"
  by (cases x; simp)+

lemma d_not_le: "x \<noteq> NaN \<Longrightarrow> y \<noteq> NaN \<Longrightarrow> \<not> x \<le> y \<longleftrightarrow> y < (x :: double)"
  by (cases x; cases y) (auto simp: less_double_def)

lemma to_double_not_NaN [simp]: "to_double x \<noteq> NaN"
  by (simp add: to_double_def Let_def)

lemma flog2_small: assumes "0 < y" "y < 2 powi k" shows "flog2 y < k"
proof -
  have "2 powi flog2 y < (2 :: rat) powi k" using flog2_bounds [OF assms(1)] assms(2) by linarith
  then show ?thesis by (rule powi_less_cancel)
qed

lemma to_double_of_int [simp]:
  assumes "\<bar>n\<bar> < 2 ^ 53" shows "to_double (of_int n) = Fin (of_int n)"
proof -
  have "flog2 \<bar>of_int n\<bar> < 53" if "n \<noteq> 0"
  proof (rule flog2_small)
    show "(0 :: rat) < \<bar>of_int n\<bar>" using that by simp
    have "(of_int \<bar>n\<bar> :: rat) < of_int (2 ^ 53)" using assms by (simp only: of_int_less_iff)
    then show "\<bar>of_int n :: rat\<bar> < 2 powi 53" by (simp add: powi_nat)
  qed
  then show ?thesis
    using assms by (auto simp: to_double_def Let_def round64_of_int binary64_max_exp_def)
qed

lemma to_double_0 [simp]: "to_double 0 = Fin 0"
  using to_double_of_int [of 0] by simp

lemma to_double_1 [simp]: "to_double 1 = Fin 1"
  using to_double_of_int [of 1] by simp

lemma to_double_numeral:
  "(numeral n :: int) < 2 ^ 53 \<Longrightarrow> to_double (numeral n) = Fin (numeral n)"
  using to_double_of_int [of "numeral n"] by simp

lemma to_double_mono: assumes "x \<le> y" shows "to_double x \<le> to_double y"
proof -
  have le: "round64 x \<le> round64 y" using assms by (rule round64_mono)
  have up: "flog2 \<bar>round64 x\<bar> \<le> flog2 \<bar>round64 y\<bar>" if "0 < round64 x"
    using that le by (intro flog2_mono) auto
  have dn: "flog2 \<bar>round64 y\<bar> \<le> flog2 \<bar>round64 x\<bar>" if "round64 y < 0"
    using that le by (intro flog2_mono) auto
  show ?thesis
    using le up dn
    by (cases "round64 y < 0"; cases "0 < round64 x") (auto simp: to_double_def Let_def not_less)
qed

lemma to_double_ge_int: "\<bar>n\<bar> < 2 ^ 53 \<Longrightarrow> of_int n \<le> x \<Longrightarrow> Fin (of_int n) \<le> to_double x"
  using to_double_mono [of "of_int n" x] by simp

lemma to_double_le_int: "\<bar>n\<bar> < 2 ^ 53 \<Longrightarrow> x \<le> of_int n \<Longrightarrow> to_double x \<le> Fin (of_int n)"
  using to_double_mono [of x "of_int n"] by simp

lemma to_double_nonneg [simp]: "0 \<le> x \<Longrightarrow> Fin 0 \<le> to_double x"
  using to_double_ge_int [of 0 x] by simp

lemma d_of_size_nonneg [simp]: "Fin 0 \<le> d_of_size w"
  unfolding d_of_size_def by (rule to_double_nonneg) (simp del: of_int_uint)

lemma d_plus_mono:
  assumes "Fin 0 \<le> a" "a \<le> b" "Fin 0 \<le> c" "c \<le> d"
  shows "a + c \<le> b + d"
  using assms
  by (cases a; cases b; cases c; cases d) (auto intro: to_double_mono)


lemma d_plus_nonneg [simp]: "Fin 0 \<le> a \<Longrightarrow> Fin 0 \<le> b \<Longrightarrow> Fin 0 \<le> a + (b :: double)"
  by (cases a; cases b) auto

lemma d_mult_mono:
  assumes "0 < k" "Fin 0 \<le> a" "a \<le> b"
  shows "Fin k * a \<le> Fin k * b"
  using assms by (cases a; cases b) (auto intro!: to_double_mono)

lemma d_mult_nonneg [simp]: "0 < k \<Longrightarrow> Fin 0 \<le> a \<Longrightarrow> Fin 0 \<le> Fin k * a"
  by (cases a) auto

lemma d_mult_commute: "x * y = y * (x :: double)"
  by (cases x; cases y) (auto simp: mult.commute)

lemma d_plus_commute: "x + y = y + (x :: double)"
  by (cases x; cases y) (auto simp: add.commute)

lemma d_divide_mono:
  assumes "0 < k" "a \<le> b"
  shows "divide a (Fin k) \<le> divide b (Fin k)"
  using assms by (cases a; cases b) (auto intro!: to_double_mono divide_right_mono)

lemma d_divide_nonneg [simp]: "0 < k \<Longrightarrow> Fin 0 \<le> a \<Longrightarrow> Fin 0 \<le> divide a (Fin k)"
  by (cases a) auto

lemma d_divide_antimono:
  assumes "0 < m" "m \<le> n" "Fin 0 \<le> a"
  shows "divide a (Fin n) \<le> divide a (Fin m)"
  using assms by (cases a) (auto intro!: to_double_mono divide_left_mono)

lemma d_min_mono: "a \<le> b \<Longrightarrow> c \<le> d \<Longrightarrow> d_min a c \<le> d_min b d"
  by (cases a; cases b; cases c; cases d) (auto simp: d_min_def less_double_def)

lemma d_ceil_mono: "a \<le> b \<Longrightarrow> d_ceil a \<le> d_ceil b"
  by (cases a; cases b) (auto intro: ceiling_mono)

lemma d_trunc_mono: "x \<le> y \<Longrightarrow> d_trunc x \<le> d_trunc y"
proof -
  assume "x \<le> y"
  moreover have "\<lceil>x\<rceil> \<le> 0" "0 \<le> \<lfloor>y\<rfloor>" if "\<not> 0 \<le> x" "0 \<le> y"
    using that by (simp_all add: ceiling_le_iff)
  ultimately show ?thesis
    by (auto simp: d_trunc_def intro: floor_mono ceiling_mono order_trans [of _ 0])
qed

lemma d_trunc_of_int [simp]: "d_trunc (of_int n) = n"
  by (simp add: d_trunc_def)

lemma d_to_int_eq_Ok [res_simps]:
  "d_to_int x = Ok n \<longleftrightarrow> (\<exists>a. x = Fin a \<and> in_int (d_trunc a) \<and> n = d_trunc a)"
  by (cases x) auto

lemma d_to_int_in_int: "d_to_int x = Ok n \<Longrightarrow> in_int n"
  by (auto simp: d_to_int_eq_Ok)

lemma d_to_int_mono: "d_to_int x = Ok m \<Longrightarrow> d_to_int y = Ok n \<Longrightarrow> x \<le> y \<Longrightarrow> m \<le> n"
  by (auto simp: d_to_int_eq_Ok intro: d_trunc_mono)

lemma d_to_int_ge: "d_to_int x = Ok m \<Longrightarrow> Fin (of_int n) \<le> x \<Longrightarrow> n \<le> m"
  using d_trunc_mono [of "of_int n"] by (auto simp: d_to_int_eq_Ok)

lemma d_to_int_le: "d_to_int x = Ok m \<Longrightarrow> x \<le> Fin (of_int n) \<Longrightarrow> m \<le> n"
  using d_trunc_mono [of _ "of_int n"] by (auto simp: d_to_int_eq_Ok)

lemma d_to_int_between:
  assumes "Fin (of_int m) \<le> x" "x \<le> Fin (of_int n)" "in_int m" "in_int n"
  shows "\<exists>k. d_to_int x = Ok k \<and> m \<le> k \<and> k \<le> n"
proof -
  obtain a where a: "x = Fin a" "of_int m \<le> a" "a \<le> of_int n"
    using assms(1,2) by (cases x) auto
  then have "m \<le> d_trunc a" "d_trunc a \<le> n"
    using d_trunc_mono [of "of_int m" a] d_trunc_mono [of a "of_int n"] by simp_all
  with a assms(3,4) show ?thesis by (auto simp: int_range)
qed

subsection \<open>Representable numbers\<close>

lemma round64_idem: "round64 (round64 x) = round64 x"
proof -
  have pos: "round64 (round64 x) = round64 x" if x: "0 < x" for x
  proof -
    let ?u = "ulp_exp x" and ?m = "round_half_even (x / 2 powi ulp_exp x)"
    have m0: "0 \<le> ?m" using x by (intro rhe_ge_of_int) simp
    have e: "binary64_min_exp \<le> ?u" by (simp add: ulp_exp_def)
    have "flog2 x + 1 \<le> ?u + 53" using x by (simp add: ulp_exp_def)
    then have "x < 2 powi (?u + 53)"
      using flog2_bounds [OF x] powi_mono [of "flog2 x + 1" "?u + 53"] by linarith
    then have "x / 2 powi ?u \<le> of_int (2 ^ 53)"
      by (simp add: powi_add powi_nat field_simps)
    then have m: "?m \<le> 2 ^ 53" by (rule rhe_le_of_int)
    have r: "round64 x = of_int ?m * 2 powi ?u" using x by (simp add: round64_def)
    show ?thesis
    proof (cases "?m = 2 ^ 53")
      case True
      have "of_int ?m * 2 powi ?u = (of_int (2 ^ 52) * 2 powi (?u + 1) :: rat)"
        by (simp only: True powi_add) simp
      then show ?thesis unfolding r using e round64_exact [of "2 ^ 52" "?u + 1"] by simp
    next
      case False
      with m0 m have "\<bar>?m\<bar> < 2 ^ 53" by simp
      then show ?thesis unfolding r using e by (intro round64_exact)
    qed
  qed
  consider "0 < x" | "x = 0" | "0 < - x" by linarith
  then show ?thesis
    by cases (use pos [of x] pos [of "- x"] in \<open>auto simp: round64_uminus\<close>)
qed

text \<open>A representable number: a fixed point of the rounding.\<close>

definition representable :: "rat \<Rightarrow> bool" where
  "representable a \<longleftrightarrow> to_double a = Fin a"

lemma to_double_representable: "to_double x = Fin a \<Longrightarrow> representable a"
  by (auto simp: to_double_def representable_def Let_def round64_idem split: if_splits)

lemma representable_of_int: "\<bar>n\<bar> < 2 ^ 53 \<Longrightarrow> representable (of_int n)"
  by (simp add: representable_def)

lemma d_plus_ge: "representable a \<Longrightarrow> Fin 0 \<le> c \<Longrightarrow> Fin a \<le> Fin a + c"
  using to_double_mono [of a] by (cases c) (auto simp: representable_def)

lemma d_plus_le:
  assumes "representable b" "a + c \<le> b"
  shows "Fin a + Fin c \<le> Fin b"
  using assms to_double_mono [of "a + c" b] by (simp add: representable_def)

lemma round64_up: assumes "2 powi (- 1022) \<le> x" shows "round64 x \<le> x + x / 2 ^ 53"
  using round64_relative_error [OF assms] by linarith

lemma round64_down: assumes "2 powi (- 1022) \<le> x" shows "x - x / 2 ^ 53 \<le> round64 x"
  using round64_relative_error [OF assms] by linarith

text \<open>A finite value below a power of two within range rounds to a finite value.\<close>

lemma to_double_Fin:
  assumes "0 \<le> x" "x \<le> 2 ^ 1023"
  shows "to_double x = Fin (round64 x)"
proof (cases "round64 x = 0")
  case False
  have "0 \<le> round64 x" using assms(1) by (rule round64_nonneg)
  with False have pos: "0 < round64 x" by simp
  have "0 < x" using False assms(1) by (cases "x = 0") auto
  then have "round64 x \<le> 2 powi 1023"
    using assms(2) by (intro round64_le_pow) (simp_all add: binary64_min_exp_def powi_nat)
  then have "2 powi flog2 (round64 x) \<le> (2 :: rat) powi 1023" using flog2_bounds [OF pos] by linarith
  then have "flog2 (round64 x) \<le> 1023" by (rule powi_le_cancel)
  with pos show ?thesis by (simp add: to_double_def Let_def binary64_max_exp_def)
qed (simp add: to_double_def)
text \<open>Conversion to \<open>long\<close> (\<open>time_t\<close>, \<open>suseconds_t\<close>).\<close>

fun d_to_long :: "double \<Rightarrow> int result" where
  "d_to_long (Fin a) = (if in_long (d_trunc a) then Ok (d_trunc a) else Fault Float_to_int)"
| "d_to_long _ = Fault Float_to_int"

lemma d_divide_le_1:
  assumes "Fin 0 \<le> x" "x \<le> Fin b" "0 < b"
  shows "\<exists>q. divide x (Fin b) = Fin q \<and> 0 \<le> q \<and> q \<le> 1"
proof -
  obtain a where a: "x = Fin a" "0 \<le> a" "a \<le> b" using assms by (cases x) auto
  then have "to_double (a / b) \<le> to_double 1" using assms(3) by (intro to_double_mono) simp
  moreover have "Fin 0 \<le> to_double (a / b)" using a assms(3) by simp
  ultimately show ?thesis using a assms(3) by (cases "to_double (a / b)") auto
qed

lemma to_double_range:
  assumes "of_int m \<le> x" "x \<le> of_int n" "\<bar>m\<bar> < 2 ^ 53" "\<bar>n\<bar> < 2 ^ 53"
  shows "\<exists>y. to_double x = Fin y \<and> of_int m \<le> y \<and> y \<le> of_int n"
  using to_double_ge_int [OF assms(3,1)] to_double_le_int [OF assms(4,2)]
  by (cases "to_double x") auto

lemma round64_error_at:
  assumes "0 \<le> x" "x \<le> 2 ^ n"
  shows "\<bar>round64 x - x\<bar> \<le> 2 ^ n / 2 ^ 53"
proof (cases "2 powi (- 1022) \<le> x")
  case True
  have "x / 2 ^ 53 \<le> 2 ^ n / 2 ^ 53" using assms(2) by (rule divide_right_mono) simp
  then show ?thesis using round64_relative_error [OF True] by linarith
next
  case False
  have r: "round64 (2 powi (- 1022)) = 2 powi (- 1022)"
    using round64_exact [of 1 "- 1022"] by (simp add: binary64_min_exp_def)
  have "(2 :: rat) powi (- 1022) \<le> 1 / 2 ^ 53" by simp
  also have "\<dots> \<le> 2 ^ n / 2 ^ 53" by (intro divide_right_mono) simp_all
  finally have "(2 :: rat) powi (- 1022) \<le> 2 ^ n / 2 ^ 53" .
  moreover have "round64 x \<le> 2 powi (- 1022)"
    using round64_mono [of x "2 powi (- 1022)"] False r by simp
  moreover have "0 \<le> round64 x" using assms(1) by (rule round64_nonneg)
  ultimately show ?thesis using assms(1) False unfolding abs_le_iff by linarith
qed

lemma round64_abs_error:
  assumes "0 \<le> x" "x \<le> 2 ^ 22"
  shows "\<bar>round64 x - x\<bar> \<le> 1 / 2 ^ 30"
  using round64_error_at [OF assms] by simp

lemma d_to_int_rounded:
  assumes "of_int m \<le> x" "x \<le> of_int n" "in_int m" "in_int n"
  shows "\<exists>k. d_to_int (to_double x) = Ok k \<and> m \<le> k \<and> k \<le> n"
proof -
  have b: "\<bar>m\<bar> < 2 ^ 53" "\<bar>n\<bar> < 2 ^ 53" using assms(3,4) by (auto simp: in_int_def)
  obtain y where "to_double x = Fin y" "of_int m \<le> y" "y \<le> of_int n"
    using to_double_range [OF assms(1,2) b] by blast
  then show ?thesis using d_to_int_between [of m "Fin y" n] assms(3,4) by (simp del: d_to_int.simps)
qed

end
