(* ===== verification/Timeops.thy ===== *)
theory Timeops
  imports Doubles
begin

text \<open>
  \<^verbatim>\<open>timeops.h\<close>, \<^verbatim>\<open>timeops.cpp\<close>: arithmetic on \<open>struct timeval\<close> and
  \<open>struct timespec\<close>. The abstraction of a \<open>timeval\<close> is its number of microseconds
  \<open>tv_us\<close>; \<open>valid_tv\<close> is a normalised, non-negative one whose seconds leave room for the
  sums and differences of the library in a \<open>long\<close>.
\<close>

subsection \<open>The structures and their macros\<close>

record timeval =
  tv_sec :: int
  tv_usec :: int

record timespec =
  ts_sec :: int
  ts_nsec :: int

definition MAX_SUBSECS :: int where
  "MAX_SUBSECS = 1000000"

definition MAX_SUBSECS_timespec :: int where
  "MAX_SUBSECS_timespec = 1000000000"

definition timerclear :: timeval where
  "timerclear = \<lparr>tv_sec = 0, tv_usec = 0\<rparr>"

text \<open>\<open>TIMEDIFF(tvb, tve, tvr)\<close> aborts unless \<open>tve\<close> is at or after \<open>tvb\<close>.\<close>

definition TIMEDIFF :: "timeval \<Rightarrow> timeval \<Rightarrow> timeval result" where
  "TIMEDIFF tvb tve =
     bind_r (c_assert (tv_sec tve > tv_sec tvb
                       \<or> (tv_sec tve = tv_sec tvb \<and> tv_usec tve \<ge> tv_usec tvb))) (\<lambda>_.
     if tv_usec tve < tv_usec tvb then
       bind_r (c_long (MAX_SUBSECS + tv_usec tve)) (\<lambda>a.
       bind_r (c_long (a - tv_usec tvb)) (\<lambda>us.
       bind_r (c_long (tv_sec tve - tv_sec tvb)) (\<lambda>b.
       bind_r (c_long (b - 1)) (\<lambda>s.
       Ok \<lparr>tv_sec = s, tv_usec = us\<rparr>))))
     else
       bind_r (c_long (tv_usec tve - tv_usec tvb)) (\<lambda>us.
       bind_r (c_long (tv_sec tve - tv_sec tvb)) (\<lambda>s.
       Ok \<lparr>tv_sec = s, tv_usec = us\<rparr>)))"

definition timerisset :: "timeval \<Rightarrow> bool" where
  "timerisset tvp \<longleftrightarrow> tv_sec tvp \<noteq> 0 \<or> tv_usec tvp \<noteq> 0"

definition timercmp :: "timeval \<Rightarrow> timeval \<Rightarrow> (int \<Rightarrow> int \<Rightarrow> bool) \<Rightarrow> bool" where
  "timercmp tvp uvp cmp =
     (if tv_sec tvp = tv_sec uvp then cmp (tv_usec tvp) (tv_usec uvp)
      else cmp (tv_sec tvp) (tv_sec uvp))"

definition timeradd :: "timeval \<Rightarrow> timeval \<Rightarrow> timeval result" where
  "timeradd tvp uvp =
     bind_r (c_long (tv_sec tvp + tv_sec uvp)) (\<lambda>s.
     bind_r (c_long (tv_usec tvp + tv_usec uvp)) (\<lambda>us.
     if us \<ge> MAX_SUBSECS then
       bind_r (c_long (s + 1)) (\<lambda>s'. Ok \<lparr>tv_sec = s', tv_usec = us - MAX_SUBSECS\<rparr>)
     else Ok \<lparr>tv_sec = s, tv_usec = us\<rparr>))"

definition timersub :: "timeval \<Rightarrow> timeval \<Rightarrow> timeval result" where
  "timersub tvp uvp =
     bind_r (c_long (tv_sec tvp - tv_sec uvp)) (\<lambda>s.
     bind_r (c_long (tv_usec tvp - tv_usec uvp)) (\<lambda>us.
     if us < 0 then
       bind_r (c_long (s - 1)) (\<lambda>s'. Ok \<lparr>tv_sec = s', tv_usec = us + MAX_SUBSECS\<rparr>)
     else Ok \<lparr>tv_sec = s, tv_usec = us\<rparr>))"

definition timerdiv :: "timeval \<Rightarrow> double \<Rightarrow> timeval result" where
  "timerdiv tv n =
     (let avg_f = divide (d_of_int (tv_sec tv)
                          + divide (d_of_int (tv_usec tv)) (d_of_int MAX_SUBSECS)) n in
      bind_r (d_to_long avg_f) (\<lambda>s.
      bind_r (d_to_long ((avg_f - d_of_int s) * d_of_int MAX_SUBSECS)) (\<lambda>us.
      Ok \<lparr>tv_sec = s, tv_usec = us\<rparr>)))"

subsection \<open>Conversions\<close>

definition TIME_timespec :: "timeval \<Rightarrow> timespec result" where
  "TIME_timespec tv =
     bind_r (c_long (tv_usec tv * 1000)) (\<lambda>ns. Ok \<lparr>ts_sec = tv_sec tv, ts_nsec = ns\<rparr>)"

text \<open>\<open>abs_time\<close>: \<open>tv\<close> is the \<open>gettimeofday\<close> reading that \<open>TIME(now)\<close> takes.\<close>

definition abs_time :: "timeval \<Rightarrow> timespec \<Rightarrow> timespec result" where
  "abs_time tv rel_time =
     bind_r (TIME_timespec tv) (\<lambda>now.
     bind_r (c_long (ts_sec now + ts_sec rel_time)) (\<lambda>s.
     bind_r (c_long (ts_nsec now + ts_nsec rel_time)) (\<lambda>ns.
     if ns \<ge> 1000000000 then
       bind_r (c_long (s + 1)) (\<lambda>s'. Ok \<lparr>ts_sec = s', ts_nsec = ns - 1000000000\<rparr>)
     else Ok \<lparr>ts_sec = s, ts_nsec = ns\<rparr>)))"

definition convert_to_useconds :: "timeval \<Rightarrow> int result" where
  "convert_to_useconds tv =
     bind_r (c_long (tv_sec tv * 1000000)) (\<lambda>useconds.
     if useconds < tv_sec tv then Ok 0
     else c_long (useconds + tv_usec tv))"

definition convert_to_timeval :: "64 word \<Rightarrow> timeval result" where
  "convert_to_timeval useconds =
     (let s = sint (useconds div 1000000) in
      bind_r (c_long (s * 1000000)) (\<lambda>p.
      Ok \<lparr>tv_sec = s, tv_usec = sint (useconds - of_int p)\<rparr>))"

definition convert_to_seconds :: "timeval \<Rightarrow> double" where
  "convert_to_seconds tv = d_of_int (tv_sec tv) + divide (d_of_int (tv_usec tv)) (Fin 1000000)"

subsection \<open>The abstraction to microseconds\<close>

definition tv_us :: "timeval \<Rightarrow> int" where
  "tv_us t = tv_sec t * 1000000 + tv_usec t"

definition valid_tv :: "timeval \<Rightarrow> bool" where
  "valid_tv t \<longleftrightarrow> 0 \<le> tv_usec t \<and> tv_usec t < 1000000 \<and> 0 \<le> tv_sec t \<and> tv_sec t < 2 ^ 40"

lemmas tv_defs = tv_us_def valid_tv_def MAX_SUBSECS_def timerclear_def

lemma valid_tv_clear [simp]: "valid_tv timerclear"
  by (simp add: tv_defs)

lemma tv_us_clear [simp]: "tv_us timerclear = 0"
  by (simp add: tv_defs)

lemma tv_us_nonneg: "valid_tv t \<Longrightarrow> 0 \<le> tv_us t"
  by (simp add: tv_defs)

lemma tv_us_le_iff:
  assumes "valid_tv a" "valid_tv b"
  shows "tv_us a \<le> tv_us b \<longleftrightarrow>
    tv_sec a < tv_sec b \<or> (tv_sec a = tv_sec b \<and> tv_usec a \<le> tv_usec b)"
  using assms by (auto simp: tv_defs)

lemma tv_sec_div: "valid_tv t \<Longrightarrow> tv_sec t = tv_us t div 1000000"
  by (simp add: tv_defs)

lemma tv_usec_mod: "valid_tv t \<Longrightarrow> tv_usec t = tv_us t mod 1000000"
  by (simp add: tv_defs)

lemma tv_us_inject:
  assumes "valid_tv a" "valid_tv b" "tv_us a = tv_us b"
  shows "a = b"
proof (rule timeval.equality)
  show "tv_sec a = tv_sec b" using assms by (simp add: tv_sec_div)
  show "tv_usec a = tv_usec b" using assms by (simp add: tv_usec_mod)
qed simp

lemma TIMEDIFF_Ok:
  assumes "valid_tv b" "valid_tv e" "tv_us b \<le> tv_us e"
  shows "\<exists>d. TIMEDIFF b e = Ok d \<and> valid_tv d \<and> tv_us d = tv_us e - tv_us b"
  using assms
  by (auto simp: TIMEDIFF_def res_simps tv_defs int_range)

lemma TIMEDIFF_back:
  assumes "valid_tv b" "valid_tv e" "tv_us e < tv_us b"
  shows "TIMEDIFF b e = Fault Assertion_failed"
proof -
  have "(tv_sec e > tv_sec b \<or> (tv_sec e = tv_sec b \<and> tv_usec e \<ge> tv_usec b)) = False"
    using assms tv_us_le_iff [of b e] by auto
  then show ?thesis by (simp only: TIMEDIFF_def c_assert_False bind_r_Fault)
qed

lemma TIMEDIFF_OkD:
  assumes "TIMEDIFF b e = Ok d" "valid_tv b" "valid_tv e"
  shows "valid_tv d" "tv_us d = tv_us e - tv_us b" "tv_us b \<le> tv_us e"
proof -
  have le: "tv_us b \<le> tv_us e"
    using assms TIMEDIFF_back [of b e] by (cases "tv_us e < tv_us b") auto
  with TIMEDIFF_Ok [of b e] assms show "valid_tv d" "tv_us d = tv_us e - tv_us b" by auto
  show "tv_us b \<le> tv_us e" by (fact le)
qed

lemma timeradd_Ok:
  assumes "0 \<le> tv_usec a" "tv_usec a < 1000000" "0 \<le> tv_sec a" "tv_sec a < 2 ^ 62"
    and "valid_tv b"
  shows "\<exists>c. timeradd a b = Ok c \<and> tv_us c = tv_us a + tv_us b \<and>
    0 \<le> tv_usec c \<and> tv_usec c < 1000000 \<and> 0 \<le> tv_sec c"
  using assms
  by (auto simp: timeradd_def res_simps tv_defs int_range)

lemma timersub_Ok:
  assumes "valid_tv a" "valid_tv b"
  shows "\<exists>c. timersub a b = Ok c \<and> tv_us c = tv_us a - tv_us b \<and> 0 \<le> tv_usec c \<and> tv_usec c < 1000000"
  using assms
  by (auto simp: timersub_def res_simps tv_defs int_range)


lemma timercmp_tv_us:
  assumes "valid_tv a" "valid_tv b"
  shows "timercmp a b (<) \<longleftrightarrow> tv_us a < tv_us b" and "timercmp a b (\<le>) \<longleftrightarrow> tv_us a \<le> tv_us b"
    and "timercmp a b (=) \<longleftrightarrow> a = b"
proof -
  show "timercmp a b (<) \<longleftrightarrow> tv_us a < tv_us b"
    using tv_us_le_iff [OF assms(2,1)] by (auto simp: timercmp_def)
  show "timercmp a b (\<le>) \<longleftrightarrow> tv_us a \<le> tv_us b"
    using tv_us_le_iff [OF assms] by (auto simp: timercmp_def)
  show "timercmp a b (=) \<longleftrightarrow> a = b"
    by (auto simp: timercmp_def intro: timeval.equality)
qed

lemma convert_to_useconds_tv_us: "valid_tv t \<Longrightarrow> convert_to_useconds t = Ok (tv_us t)"
  by (simp add: convert_to_useconds_def tv_defs int_range)

lemma sint_of_nonneg: "0 \<le> k \<Longrightarrow> k < 2 ^ 63 \<Longrightarrow> sint (of_int k :: 64 word) = k"
  by (simp add: sint_uint uint_word_of_int_eq take_bit_int_eq_self signed_take_bit_int_eq_self)

lemma convert_to_timeval_tv_us:
  assumes "valid_tv t"
  shows "convert_to_timeval (of_int (tv_us t)) = Ok t"
proof -
  let ?w = "of_int (tv_us t) :: 64 word"
  have b: "0 \<le> tv_us t" "tv_us t < 2 ^ 62" using assms by (auto simp: tv_defs)
  then have "uint ?w = tv_us t"
    by (simp add: uint_word_of_int_eq take_bit_int_eq_self)
  then have "uint (?w div 1000000) = tv_us t div 1000000" by (simp add: uint_div)
  then have "?w div 1000000 = of_int (tv_us t div 1000000)" by (metis word_of_int_uint)
  moreover have "0 \<le> tv_us t div 1000000" "tv_us t div 1000000 < 2 ^ 63" using b by simp_all
  ultimately have s: "sint (?w div 1000000) = tv_sec t"
    using assms by (simp add: sint_of_nonneg tv_sec_div)
  have "sint (?w - of_int (tv_sec t * 1000000)) = sint (of_int (tv_usec t) :: 64 word)"
    by (simp add: tv_us_def)
  also have "\<dots> = tv_usec t" using assms by (intro sint_of_nonneg) (auto simp: tv_defs)
  finally show ?thesis
    using assms s by (simp add: convert_to_timeval_def Let_def tv_defs int_range)
qed

text \<open>
  The overflow test of \<open>convert_to_useconds\<close> never fires on a non-negative time: a product
  that exceeds \<open>long\<close> is undefined before the test is reached.
\<close>

lemma convert_to_useconds_overflow:
  "0 \<le> tv_sec t \<Longrightarrow> 2 ^ 63 \<le> tv_sec t * 1000000 \<Longrightarrow>
   convert_to_useconds t = Fault Signed_overflow"
  by (simp add: convert_to_useconds_def c_long_def in_long_def)

lemma TIME_timespec_Ok:
  "valid_tv t \<Longrightarrow> TIME_timespec t = Ok \<lparr>ts_sec = tv_sec t, ts_nsec = tv_usec t * 1000\<rparr>"
  by (simp add: TIME_timespec_def tv_defs int_range)

lemma abs_time_Ok:
  assumes "valid_tv t" "0 \<le> ts_sec r" "ts_sec r < 2 ^ 40" "0 \<le> ts_nsec r" "ts_nsec r < 1000000000"
  shows "\<exists>a. abs_time t r = Ok a \<and> 0 \<le> ts_nsec a \<and> ts_nsec a < 1000000000 \<and>
    ts_sec a * 1000000000 + ts_nsec a
      = tv_us t * 1000 + ts_sec r * 1000000000 + ts_nsec r"
  using assms
  by (auto simp: abs_time_def TIME_timespec_Ok res_simps tv_defs int_range)

text \<open>A normalised time, of any number of seconds.\<close>

definition norm_tv :: "timeval \<Rightarrow> bool" where
  "norm_tv t \<longleftrightarrow> 0 \<le> tv_usec t \<and> tv_usec t < 1000000 \<and> 0 \<le> tv_sec t"

lemma norm_tv_nonneg: "norm_tv v \<Longrightarrow> 0 \<le> tv_us v"
  by (simp add: norm_tv_def tv_us_def)

lemma timeradd_norm:
  assumes "norm_tv a" "tv_us a < 2 ^ 62" "norm_tv b" "tv_us b < 2 ^ 62"
  shows "\<exists>c. timeradd a b = Ok c \<and> norm_tv c \<and> tv_us c = tv_us a + tv_us b"
  using assms by (auto simp: timeradd_def res_simps norm_tv_def tv_us_def int_range MAX_SUBSECS_def)

lemma valid_tv_norm: "valid_tv t \<Longrightarrow> norm_tv t"
  by (simp add: valid_tv_def norm_tv_def)

subsection \<open>Properties\<close>

text \<open>
  Between two valid times \<open>TIMEDIFF\<close> returns exactly when the second is
  not before the first, and its result is their difference to the microsecond, normalised; else the
  assertion stops the program.
\<close>

theorem TIMEDIFF_exact:
  assumes "valid_tv b" "valid_tv e"
  shows "if tv_us b \<le> tv_us e
    then \<exists>d. TIMEDIFF b e = Ok d \<and> valid_tv d \<and> tv_us d = tv_us e - tv_us b
    else TIMEDIFF b e = Fault Assertion_failed"
  using TIMEDIFF_Ok [OF assms] TIMEDIFF_back [OF assms] by simp

lemma TIMEDIFF_exact_witness:
  "\<exists>d. TIMEDIFF \<lparr>tv_sec = 3, tv_usec = 900000\<rparr> \<lparr>tv_sec = 5, tv_usec = 100000\<rparr> = Ok d
    \<and> tv_us d = 1200000"
  using TIMEDIFF_exact [of "\<lparr>tv_sec = 3, tv_usec = 900000\<rparr>" "\<lparr>tv_sec = 5, tv_usec = 100000\<rparr>"]
  by (auto simp: valid_tv_def tv_us_def)

text \<open>
  A time survives the conversion to microseconds and back, and adding a
  difference back, or subtracting it again, restores the other end of the interval.
\<close>

theorem time_roundtrips:
  assumes "valid_tv b" "valid_tv e" "tv_us b \<le> tv_us e"
  shows "bind_r (convert_to_useconds e) (\<lambda>us. convert_to_timeval (of_int us)) = Ok e
    \<and> bind_r (TIMEDIFF b e) (timeradd b) = Ok e \<and> bind_r (TIMEDIFF b e) (timersub e) = Ok b"
proof -
  obtain d where d: "TIMEDIFF b e = Ok d" "valid_tv d" "tv_us d = tv_us e - tv_us b"
    using TIMEDIFF_Ok [OF assms] by blast
  obtain c where c: "timeradd b d = Ok c" "tv_us c = tv_us e" "0 \<le> tv_usec c" "tv_usec c < 1000000"
    "0 \<le> tv_sec c"
    using timeradd_Ok [of b d] assms(1) d by (auto simp: valid_tv_def)
  obtain a where a: "timersub e d = Ok a" "tv_us a = tv_us b" "0 \<le> tv_usec a" "tv_usec a < 1000000"
    using timersub_Ok [OF assms(2) d(2)] d(3) by auto
  have "c = e" using c assms(2) by (intro tv_us_inject) (auto simp: valid_tv_def tv_us_def)
  moreover have "a = b" using a assms(1) by (intro tv_us_inject) (auto simp: valid_tv_def tv_us_def)
  ultimately show ?thesis
    using a c d convert_to_useconds_tv_us [OF assms(2)] convert_to_timeval_tv_us [OF assms(2)] by simp
qed

lemma time_roundtrips_witness:
  "bind_r (TIMEDIFF \<lparr>tv_sec = 3, tv_usec = 900000\<rparr> \<lparr>tv_sec = 5, tv_usec = 100000\<rparr>)
     (timeradd \<lparr>tv_sec = 3, tv_usec = 900000\<rparr>) = Ok \<lparr>tv_sec = 5, tv_usec = 100000\<rparr>"
  using time_roundtrips [of "\<lparr>tv_sec = 3, tv_usec = 900000\<rparr>" "\<lparr>tv_sec = 5, tv_usec = 100000\<rparr>"]
  by (simp add: valid_tv_def tv_us_def)

text \<open>
  The deadline \<open>abs_time\<close> hands to \<open>pthread_cond_timedwait\<close> is the
  reading of the clock plus the interval, to the nanosecond, and normalised.
\<close>

theorem abs_time_exact:
  assumes "valid_tv now" "0 \<le> ts_sec interval" "ts_sec interval < 2 ^ 40"
    and "0 \<le> ts_nsec interval" "ts_nsec interval < 1000000000"
  shows "\<exists>a. abs_time now interval = Ok a \<and> 0 \<le> ts_nsec a \<and> ts_nsec a < 1000000000
    \<and> ts_sec a * 1000000000 + ts_nsec a
        = tv_us now * 1000 + ts_sec interval * 1000000000 + ts_nsec interval"
  by (rule abs_time_Ok [OF assms])

lemma abs_time_exact_witness:
  "\<exists>a. abs_time \<lparr>tv_sec = 7, tv_usec = 950000\<rparr> \<lparr>ts_sec = 0, ts_nsec = 100000000\<rparr> = Ok a
    \<and> ts_sec a * 1000000000 + ts_nsec a = 8050000000"
  using abs_time_exact [of "\<lparr>tv_sec = 7, tv_usec = 950000\<rparr>" "\<lparr>ts_sec = 0, ts_nsec = 100000000\<rparr>"]
  by (auto simp: valid_tv_def tv_us_def)

end
