(* ===== verification/Std_Map.thy ===== *)
theory Std_Map
  imports Prelude
begin

text \<open>
  \<open>std::map\<close> with the operations the sources use, as an association list in strictly
  increasing key order: \<open>operator[]\<close> for writing, \<open>find\<close>, \<open>count\<close>,
  \<open>erase\<close>, \<open>upper_bound\<close>, \<open>lower_bound\<close> and the predecessor of an iterator. An
  iterator is the entry it points to, \<open>None\<close> is \<open>end()\<close>.

  The locale \<open>ordered_map\<close> states what a client relies on; \<open>om\<close> is its interpretation on
  these lists.
\<close>

type_synonym ('k, 'v) std_map = "('k \<times> 'v) list"

subsection \<open>Operations\<close>

fun map_put :: "'k::linorder \<Rightarrow> 'v \<Rightarrow> ('k, 'v) std_map \<Rightarrow> ('k, 'v) std_map" where
  "map_put k v [] = [(k, v)]"
| "map_put k v ((a, b) # m) =
     (if k < a then (k, v) # (a, b) # m
      else if k = a then (k, v) # m
      else (a, b) # map_put k v m)"

fun map_erase :: "'k \<Rightarrow> ('k, 'v) std_map \<Rightarrow> ('k, 'v) std_map" where
  "map_erase k [] = []"
| "map_erase k ((a, b) # m) = (if k = a then m else (a, b) # map_erase k m)"

definition map_find :: "('k, 'v) std_map \<Rightarrow> 'k \<Rightarrow> 'v option" where
  "map_find m k = map_of m k"

definition map_upper_bound :: "('k::linorder, 'v) std_map \<Rightarrow> 'k \<Rightarrow> ('k \<times> 'v) option" where
  "map_upper_bound m k = find (\<lambda>e. k < fst e) m"

definition map_lower_bound :: "('k::linorder, 'v) std_map \<Rightarrow> 'k \<Rightarrow> ('k \<times> 'v) option" where
  "map_lower_bound m k = find (\<lambda>e. k \<le> fst e) m"

definition map_begin :: "('k, 'v) std_map \<Rightarrow> ('k \<times> 'v) option" where
  "map_begin m = (case m of [] \<Rightarrow> None | e # _ \<Rightarrow> Some e)"

text \<open>
  \<open>insert\<close> keeps the value of a key that is present and tells whether it inserted; the
  \<open>erase\<close> that takes a key returns the number of entries it removed.
\<close>

definition map_insert :: "'k::linorder \<Rightarrow> 'v \<Rightarrow> ('k, 'v) std_map \<Rightarrow> bool \<times> ('k, 'v) std_map" where
  "map_insert k v m = (if map_find m k = None then (True, map_put k v m) else (False, m))"

definition map_erase_key :: "'k \<Rightarrow> ('k, 'v) std_map \<Rightarrow> nat \<times> ('k, 'v) std_map" where
  "map_erase_key k m = (if map_find m k = None then (0, m) else (1, map_erase k m))"

text \<open>\<open>map_prev m k\<close> is the entry before the one with key \<open>k\<close>, \<open>--it\<close> in the code.\<close>

definition map_prev :: "('k::linorder, 'v) std_map \<Rightarrow> 'k \<Rightarrow> ('k \<times> 'v) option" where
  "map_prev m k = find (\<lambda>e. fst e < k) (rev m)"

definition map_ok :: "('k::linorder, 'v) std_map \<Rightarrow> bool" where
  "map_ok m \<longleftrightarrow> sorted (map fst m) \<and> distinct (map fst m)"

subsection \<open>The contract\<close>

locale ordered_map =
  fixes ok :: "'m \<Rightarrow> bool"
    and nil :: "'m"
    and look :: "'m \<Rightarrow> 'k::linorder \<Rightarrow> 'v option"
    and put :: "'k \<Rightarrow> 'v \<Rightarrow> 'm \<Rightarrow> 'm"
    and del :: "'k \<Rightarrow> 'm \<Rightarrow> 'm"
    and upper :: "'m \<Rightarrow> 'k \<Rightarrow> ('k \<times> 'v) option"
    and lower :: "'m \<Rightarrow> 'k \<Rightarrow> ('k \<times> 'v) option"
    and prev :: "'m \<Rightarrow> 'k \<Rightarrow> ('k \<times> 'v) option"
  assumes ok_nil: "ok nil" and look_nil: "look nil = Map.empty"
    and ok_put: "ok m \<Longrightarrow> ok (put k v m)"
    and look_put: "ok m \<Longrightarrow> look (put k v m) = (look m)(k \<mapsto> v)"
    and ok_del: "ok m \<Longrightarrow> ok (del k m)"
    and look_del: "ok m \<Longrightarrow> look (del k m) = (look m)(k := None)"
    and upper_None: "ok m \<Longrightarrow> upper m k = None \<longleftrightarrow> (\<forall>j \<in> dom (look m). j \<le> k)"
    and upper_Some: "ok m \<Longrightarrow> upper m k = Some (j, v) \<Longrightarrow>
      look m j = Some v \<and> k < j \<and> (\<forall>i \<in> dom (look m). k < i \<longrightarrow> j \<le> i)"
    and lower_None: "ok m \<Longrightarrow> lower m k = None \<longleftrightarrow> (\<forall>j \<in> dom (look m). j < k)"
    and prev_None: "ok m \<Longrightarrow> prev m k = None \<longleftrightarrow> (\<forall>j \<in> dom (look m). k \<le> j)"
    and prev_Some: "ok m \<Longrightarrow> prev m k = Some (j, v) \<Longrightarrow>
      look m j = Some v \<and> j < k \<and> (\<forall>i \<in> dom (look m). i < k \<longrightarrow> i \<le> j)"
begin

text \<open>A key that is absent and above every key has no lower bound either.\<close>

lemma lower_None_of_upper:
  assumes "ok m" "look m k = None" "upper m k = None"
  shows "lower m k = None"
  using assms by (auto simp: upper_None lower_None order.order_iff_strict)

text \<open>An absent key between two keys has neighbours on both sides, with no key in between.\<close>

lemma neighbours:
  assumes "ok m" "look m k = None" "upper m k = Some (j, v)" "prev m j = Some (i, w)"
  shows "i < k \<and> k < j \<and> look m i = Some w \<and> look m j = Some v"
proof -
  have j: "look m j = Some v" "k < j" "\<forall>l \<in> dom (look m). k < l \<longrightarrow> j \<le> l"
    using upper_Some [OF assms(1,3)] by auto
  have i: "look m i = Some w" "i < j" using prev_Some [OF assms(1,4)] by auto
  then have "i \<noteq> k" using assms(2) by auto
  moreover have "\<not> k < i" using i j(3) by auto
  ultimately show ?thesis using i j by auto
qed

lemma look_put_same: "ok m \<Longrightarrow> look (put k v m) k = Some v"
  by (simp add: look_put)

lemma dom_put: "ok m \<Longrightarrow> dom (look (put k v m)) = insert k (dom (look m))"
  by (simp add: look_put)

end

subsection \<open>The lists satisfy it\<close>

lemma map_ok_Nil [simp]: "map_ok []"
  by (simp add: map_ok_def)

lemma map_ok_Cons: "map_ok ((a, b) # m) \<longleftrightarrow> (\<forall>j \<in> fst ` set m. a < j) \<and> map_ok m"
  by (auto simp: map_ok_def order.strict_iff_order)

lemma map_put_keys: "fst ` set (map_put k v m) = insert k (fst ` set m)"
  by (induction k v m rule: map_put.induct) auto

lemma map_ok_put: "map_ok m \<Longrightarrow> map_ok (map_put k v m)"
proof (induction k v m rule: map_put.induct)
  case (2 k v a b m)
  consider "k < a" | "k = a" | "a < k" by (rule linorder_cases)
  then show ?case
  proof cases
    case 3
    then have "\<forall>j \<in> fst ` set (map_put k v m). a < j" "map_ok (map_put k v m)"
      unfolding map_put_keys using 2 by (auto simp: map_ok_Cons)
    with 3 show ?thesis by (auto simp: map_ok_Cons)
  qed (use "2.prems" in \<open>auto simp: map_ok_Cons\<close>)
qed (simp add: map_ok_Cons)

lemma map_of_put: "map_ok m \<Longrightarrow> map_of (map_put k v m) = (map_of m)(k \<mapsto> v)"
  by (induction k v m rule: map_put.induct) (auto simp: map_ok_def fun_eq_iff)

lemma map_erase_keys: "fst ` set (map_erase k m) \<subseteq> fst ` set m"
  by (induction k m rule: map_erase.induct) auto

lemma map_ok_erase: "map_ok m \<Longrightarrow> map_ok (map_erase k m)"
proof (induction k m rule: map_erase.induct)
  case (2 k a b m)
  then have "\<forall>j \<in> fst ` set (map_erase k m). a < j"
    using map_erase_keys [of k m] unfolding map_ok_Cons by blast
  with 2 show ?case by (auto simp: map_ok_Cons)
qed simp

lemma map_of_erase: "map_ok m \<Longrightarrow> map_of (map_erase k m) = (map_of m)(k := None)"
proof (induction k m rule: map_erase.induct)
  case (2 k a b m)
  moreover have "map_of m k = None" if "k = a"
    using that "2.prems" by (auto simp: map_ok_def map_of_eq_None_iff)
  ultimately show ?case by (auto simp: map_ok_def fun_eq_iff)
qed simp

lemma sorted_find_first:
  assumes "sorted (map fst m)" "find P m = Some e" "d \<in> set m" "P d"
  shows "fst e \<le> fst d"
  using assms by (induction m) (auto split: if_splits)

lemma sorted_find_last:
  assumes "sorted (map fst m)" "find P (rev m) = Some e" "d \<in> set m" "P d"
  shows "fst d \<le> fst e"
  using assms
proof (induction m rule: rev_induct)
  case (snoc x xs)
  then show ?case
    by (auto simp: sorted_append split: if_splits)
qed simp

lemma find_SomeD: "find P xs = Some x \<Longrightarrow> x \<in> set xs \<and> P x"
  by (auto simp: find_Some_iff)

lemma map_find_iff: "map_ok m \<Longrightarrow> map_find m k = Some v \<longleftrightarrow> (k, v) \<in> set m"
  by (simp add: map_find_def map_ok_def)

lemma dom_map_find: "dom (map_find m) = fst ` set m"
  by (simp add: map_find_def [abs_def] dom_map_of_conv_image_fst)

interpretation om: ordered_map map_ok "[]" map_find map_put map_erase
  map_upper_bound map_lower_bound map_prev
proof (unfold_locales, goal_cases)
  case (7 m k)
  then show ?case by (auto simp: map_upper_bound_def find_None_iff dom_map_find not_less)
next
  case (8 m k j v)
  then have "(j, v) \<in> set m \<and> k < j" "\<forall>d \<in> set m. k < fst d \<longrightarrow> j \<le> fst d"
    using find_SomeD [of "\<lambda>e. k < fst e" m "(j, v)"] sorted_find_first [of m "\<lambda>e. k < fst e" "(j, v)"]
    by (auto simp: map_upper_bound_def map_ok_def)
  with 8(1) show ?case by (auto simp: map_find_iff dom_map_find)
next
  case (9 m k)
  then show ?case by (auto simp: map_lower_bound_def find_None_iff dom_map_find not_le)
next
  case (10 m k)
  then show ?case by (auto simp: map_prev_def find_None_iff dom_map_find not_less)
next
  case (11 m k j v)
  then have "(j, v) \<in> set m \<and> j < k" "\<forall>d \<in> set m. fst d < k \<longrightarrow> fst d \<le> j"
    using find_SomeD [of "\<lambda>e. fst e < k" "rev m" "(j, v)"] sorted_find_last [of m "\<lambda>e. fst e < k" "(j, v)"]
    by (auto simp: map_prev_def map_ok_def)
  with 11(1) show ?case by (auto simp: map_find_iff dom_map_find)
qed (auto simp: map_ok_put map_of_put map_ok_erase map_of_erase map_find_def [abs_def] map_ok_def [of "[]"])

end
