(* ===== verification/Interface.thy ===== *)
theory Interface
  imports Timeops Std_Map
begin

text \<open>
  The types of \<^verbatim>\<open>libpowertutor.h\<close> and \<open>enum Direction\<close> of
  \<^verbatim>\<open>libpowertutor.cpp\<close>. A C array indexed by an enumeration is a function on it; the
  loops over such an array go through the enumeration in its order.
\<close>

subsection \<open>Enumerations\<close>

datatype NetworkType = TYPE_MOBILE | TYPE_WIFI

datatype EnergyComponent = CPU | NETWORKING | ALL_ENERGY_COMPONENTS

datatype MobileState =
    MOBILE_POWER_STATE_IDLE
  | MOBILE_POWER_STATE_FACH
  | MOBILE_POWER_STATE_DCH

datatype Direction = DOWN | UP

definition mobile_states :: "MobileState list" where
  "mobile_states = [MOBILE_POWER_STATE_IDLE, MOBILE_POWER_STATE_FACH, MOBILE_POWER_STATE_DCH]"

fun int_of_state :: "MobileState \<Rightarrow> int" where
  "int_of_state MOBILE_POWER_STATE_IDLE = 0"
| "int_of_state MOBILE_POWER_STATE_FACH = 1"
| "int_of_state MOBILE_POWER_STATE_DCH = 2"

text \<open>The cast \<open>(MobileState) n\<close>: a value outside the enumeration is a fault.\<close>

definition MobileState_of_int :: "int \<Rightarrow> MobileState result" where
  "MobileState_of_int n =
     (if n = 0 then Ok MOBILE_POWER_STATE_IDLE
      else if n = 1 then Ok MOBILE_POWER_STATE_FACH
      else if n = 2 then Ok MOBILE_POWER_STATE_DCH
      else Fault Bad_enum)"

lemma MobileState_of_int_of_state [simp]: "MobileState_of_int (int_of_state s) = Ok s"
  by (cases s) (simp_all add: MobileState_of_int_def)

lemma MobileState_of_int_eq_Ok: "MobileState_of_int n = Ok s \<longleftrightarrow> n = int_of_state s"
  by (cases s) (auto simp: MobileState_of_int_def split: if_splits)

lemma int_of_state_inject [simp]: "int_of_state s = int_of_state t \<longleftrightarrow> s = t"
  by (cases s; cases t) auto

text \<open>The states in order of power: the radio is promoted upwards and times out downwards.\<close>

instantiation MobileState :: linorder
begin

definition less_eq_MobileState :: "MobileState \<Rightarrow> MobileState \<Rightarrow> bool" where
  "s \<le> t \<longleftrightarrow> int_of_state s \<le> int_of_state t"

definition less_MobileState :: "MobileState \<Rightarrow> MobileState \<Rightarrow> bool" where
  "s < t \<longleftrightarrow> int_of_state s < int_of_state t"

instance
  by standard (auto simp: less_eq_MobileState_def less_MobileState_def)

end

lemma state_le_DCH [simp]: "s \<le> MOBILE_POWER_STATE_DCH"
  by (cases s) (auto simp: less_eq_MobileState_def)

lemma IDLE_le_state [simp]: "MOBILE_POWER_STATE_IDLE \<le> s"
  by (cases s) (auto simp: less_eq_MobileState_def)

lemma state_le_IDLE_iff [simp]: "s \<le> MOBILE_POWER_STATE_IDLE \<longleftrightarrow> s = MOBILE_POWER_STATE_IDLE"
  by (cases s) (auto simp: less_eq_MobileState_def)

lemma all_states: "(\<forall>s. P s) \<longleftrightarrow>
    P MOBILE_POWER_STATE_IDLE \<and> P MOBILE_POWER_STATE_FACH \<and> P MOBILE_POWER_STATE_DCH"
  by (metis MobileState.exhaust)

lemma all_directions: "(\<forall>d. P d) \<longleftrightarrow> P DOWN \<and> P UP"
  by (metis Direction.exhaust)

lemma ex_directions: "(\<exists>d. P d) \<longleftrightarrow> P DOWN \<or> P UP"
  by (metis Direction.exhaust)

lemma set_mobile_states [simp]: "set mobile_states = UNIV"
proof -
  have "s \<in> set mobile_states" for s by (cases s) (simp_all add: mobile_states_def)
  then show ?thesis by auto
qed

text \<open>Counters of both directions that an \<open>int\<close> holds and that are not negative.\<close>

definition counts_ok :: "(Direction \<Rightarrow> int) \<Rightarrow> bool" where
  "counts_ok b \<longleftrightarrow> (\<forall>d. 0 \<le> b d \<and> b d < 2 ^ 31)"

lemma counts_okD: "counts_ok b \<Longrightarrow> 0 \<le> b d \<and> b d < 2 ^ 31"
  by (simp add: counts_ok_def)

lemma counts_ok_zero [simp]: "counts_ok (\<lambda>_. 0)"
  by (simp add: counts_ok_def)

subsection \<open>The state sent to a remote\<close>

record remote_power_state =
  mobile_state_rps :: int
  mobile_queue_len :: "Direction \<Rightarrow> int"
  wifi_packet_rate_rps :: int

subsection \<open>The builds\<close>

text \<open>
  The preprocessor symbols that select code: the server library
  (\<^verbatim>\<open>libpowertutor.so\<close>), the simulation library (\<^verbatim>\<open>libpowertutor_sim.so\<close>, which
  defines \<open>SIMULATION_BUILD\<close> and with it \<open>ANDROID\<close>) and the handset library.
\<close>

datatype build = Server_build | Simulation_build | Handset_build

fun ANDROID :: "build \<Rightarrow> bool" where
  "ANDROID Server_build = False"
| "ANDROID Simulation_build = True"
| "ANDROID Handset_build = True"

definition power_model_is_remote :: "build \<Rightarrow> bool" where
  "power_model_is_remote b = (if ANDROID b then False else True)"

end
