(* ===== verification/Power_Model.thy ===== *)
theory Power_Model
  imports Interface
begin

text \<open>
  \<^verbatim>\<open>power_model.h\<close>, \<^verbatim>\<open>power_model.cpp\<close>: the parameters of a phone's power
  model, the two phones, the static array of models, and the CPU coefficient by linear
  interpolation.

  The virtual member \<open>wifi_iface\<close> dispatches on the dynamic type \<open>vtable\<close>. The locale
  \<open>power_model\<close> is the contract of a subclass of \<open>PowerModel\<close>; it is interpreted on both
  phones.
\<close>

subsection \<open>The structure\<close>

datatype PowerModelType = HTC_DREAM | NEXUS_ONE

record PowerModel =
  vtable :: PowerModelType
  WIFI_HIGH_POWER_BASE :: int
  WIFI_LOW_POWER :: int
  MOBILE_IDLE_POWER :: int
  MOBILE_FACH_POWER :: int
  MOBILE_DCH_POWER :: int
  min_cpu_freq :: int
  MOBILE_DCH_THRESHOLD_DOWN :: int
  MOBILE_DCH_THRESHOLD_UP :: int
  MOBILE_FACH_INACTIVITY_TIMER :: double
  MOBILE_DCH_INACTIVITY_TIMER :: double
  WIFI_PACKET_RATE_THRESHOLD :: int
  power_coeffs :: "MobileState \<Rightarrow> int"
  cpu_freq_power_coeffs :: "(int, double) std_map"
  max_cpu_freq_coeff :: double

definition power_coeff :: "PowerModel \<Rightarrow> MobileState \<Rightarrow> int" where
  "power_coeff pm state = power_coeffs pm state"

definition pm_estimate_pegged_cpu_energy :: "PowerModel \<Rightarrow> double \<Rightarrow> double" where
  "pm_estimate_pegged_cpu_energy pm seconds = (max_cpu_freq_coeff pm * Fin 100) * seconds"

definition get_dch_threshold :: "PowerModel \<Rightarrow> bool \<Rightarrow> int" where
  "get_dch_threshold pm downlink =
     (if downlink then MOBILE_DCH_THRESHOLD_DOWN pm else MOBILE_DCH_THRESHOLD_UP pm)"

definition set_power_state_coeffs :: "int \<Rightarrow> int \<Rightarrow> int \<Rightarrow> PowerModel \<Rightarrow> PowerModel" where
  "set_power_state_coeffs idle_mw fach_mw dch_mw pm =
     pm\<lparr>MOBILE_IDLE_POWER := idle_mw, MOBILE_FACH_POWER := fach_mw, MOBILE_DCH_POWER := dch_mw,
        power_coeffs := (power_coeffs pm)(MOBILE_POWER_STATE_IDLE := idle_mw,
                                          MOBILE_POWER_STATE_FACH := fach_mw,
                                          MOBILE_POWER_STATE_DCH := dch_mw)\<rparr>"

subsection \<open>The two phones\<close>

text \<open>\<open>dec n k\<close> is the double literal with the decimal value \<open>n / 10 ^ k\<close>.\<close>

definition dec :: "int \<Rightarrow> nat \<Rightarrow> double" where
  "dec n k = to_double (of_int n / 10 ^ k)"

definition HTCDream_wifi_iface :: string where
  "HTCDream_wifi_iface = ''tiwlan0''"

definition NexusOne_wifi_iface :: string where
  "NexusOne_wifi_iface = ''eth0''"

definition wifi_iface :: "PowerModel \<Rightarrow> string" where
  "wifi_iface pm = (case vtable pm of HTC_DREAM \<Rightarrow> HTCDream_wifi_iface
                                    | NEXUS_ONE \<Rightarrow> NexusOne_wifi_iface)"

definition HTCDream_init :: "PowerModel \<Rightarrow> PowerModel" where
  "HTCDream_init pm =
     (let pm = pm\<lparr>WIFI_HIGH_POWER_BASE := 710, WIFI_LOW_POWER := 20\<rparr>;
          pm = set_power_state_coeffs 10 401 570 pm;
          pm = pm\<lparr>MOBILE_DCH_THRESHOLD_DOWN := 119, MOBILE_DCH_THRESHOLD_UP := 151,
                  MOBILE_FACH_INACTIVITY_TIMER := Fin 6, MOBILE_DCH_INACTIVITY_TIMER := Fin 4,
                  WIFI_PACKET_RATE_THRESHOLD := 15\<rparr>;
          m = [];
          m = map_put 245 (dec 34169 4) m;
          m = map_put 383 (dec 43388 4) m
      in pm\<lparr>cpu_freq_power_coeffs := m, min_cpu_freq := 245, max_cpu_freq_coeff := dec 43388 4\<rparr>)"

definition NexusOne_init :: "PowerModel \<Rightarrow> PowerModel" where
  "NexusOne_init pm =
     (let pm = pm\<lparr>WIFI_HIGH_POWER_BASE := 405, WIFI_LOW_POWER := 34\<rparr>;
          pm = set_power_state_coeffs 10 406 902 pm;
          pm = pm\<lparr>MOBILE_DCH_THRESHOLD_DOWN := 119, MOBILE_DCH_THRESHOLD_UP := 151,
                  MOBILE_FACH_INACTIVITY_TIMER := Fin 6, MOBILE_DCH_INACTIVITY_TIMER := Fin 4,
                  WIFI_PACKET_RATE_THRESHOLD := 15\<rparr>;
          m = [];
          m = map_put 245 (dec 11273 4) m;
          m = map_put 384 (dec 15907 4) m;
          m = map_put 460 (dec 18736 4) m;
          m = map_put 499 (dec 21745 4) m;
          m = map_put 576 (dec 26031 4) m;
          m = map_put 614 (dec 29612 4) m;
          m = map_put 653 (dec 31373 4) m;
          m = map_put 691 (dec 34513 4) m;
          m = map_put 768 (dec 39073 4) m;
          m = map_put 806 (dec 41959 4) m;
          m = map_put 845 (dec 46492 4) m;
          m = map_put 998 (dec 54818 4) m
      in pm\<lparr>cpu_freq_power_coeffs := m, min_cpu_freq := 245, max_cpu_freq_coeff := dec 54818 4\<rparr>)"

subsection \<open>The static array of models\<close>

text \<open>
  \<open>powerModels\<close> is a function to \<open>option\<close>, with \<open>None\<close> for a null pointer. A
  \<open>new\<close> object has no defined field but its dynamic type; \<open>fresh\<close> is the memory it gets.
\<close>

type_synonym model_array = "PowerModelType \<Rightarrow> PowerModel option"

definition static_initer :: model_array where
  "static_initer = (\<lambda>_. None)"

definition pm_init :: "PowerModel \<Rightarrow> PowerModel" where
  "pm_init pm = (case vtable pm of HTC_DREAM \<Rightarrow> HTCDream_init pm
                                 | NEXUS_ONE \<Rightarrow> NexusOne_init pm)"

definition initArray :: "(PowerModelType \<Rightarrow> PowerModel) \<Rightarrow> model_array \<Rightarrow> model_array" where
  "initArray fresh powerModels =
     (if powerModels HTC_DREAM = None then
        let powerModels = powerModels(HTC_DREAM \<mapsto> (fresh HTC_DREAM)\<lparr>vtable := HTC_DREAM\<rparr>);
            powerModels = powerModels(NEXUS_ONE \<mapsto> (fresh NEXUS_ONE)\<lparr>vtable := NEXUS_ONE\<rparr>)
        in (\<lambda>i. map_option pm_init (powerModels i))
      else powerModels)"

definition PowerModelType_of_int :: "int \<Rightarrow> PowerModelType" where
  "PowerModelType_of_int n = (if n = 0 then HTC_DREAM else NEXUS_ONE)"

definition PowerModel_get ::
  "(PowerModelType \<Rightarrow> PowerModel) \<Rightarrow> int \<Rightarrow> model_array \<Rightarrow> (PowerModel option \<times> model_array) result"
where
  "PowerModel_get fresh type powerModels =
     (let powerModels = initArray fresh powerModels in
      bind_r (c_assert (0 \<le> type \<and> type < 2)) (\<lambda>_.
      Ok (powerModels (PowerModelType_of_int type), powerModels)))"

definition static_finalizer :: "model_array \<Rightarrow> model_array" where
  "static_finalizer powerModels = (\<lambda>_. None)"

subsection \<open>The CPU coefficient\<close>

definition cpu_power_coeff :: "PowerModel \<Rightarrow> int \<Rightarrow> double result" where
  "cpu_power_coeff pm freq =
     (let m = cpu_freq_power_coeffs pm in
      bind_r (c_assert (m \<noteq> [])) (\<lambda>_.
      case map_find m freq of
        Some coeff \<Rightarrow> Ok coeff
      | None \<Rightarrow>
          (case map_upper_bound m freq of
             None \<Rightarrow>
               (case map_lower_bound m freq of
                  None \<Rightarrow> Fault Assertion_failed
                | Some (_, coeff) \<Rightarrow> Ok coeff)
           | Some (upper_freq, upper_coeff) \<Rightarrow>
               if map_option fst (map_begin m) = Some upper_freq then Ok upper_coeff
               else
                 (case map_prev m upper_freq of
                    None \<Rightarrow> Fault Bad_iterator
                  | Some (lower_freq, lower_coeff) \<Rightarrow>
                      let slope = divide (upper_coeff - lower_coeff)
                                         (d_of_int upper_freq - d_of_int lower_freq)
                      in Ok (lower_coeff + ((d_of_int freq - d_of_int lower_freq) * slope))))))"

subsection \<open>Interpolation\<close>

definition eps :: rat where
  "eps = 1 / 2 ^ 53"

lemma round64_eps:
  assumes "1 / 2 ^ 200 \<le> x"
  shows "round64 x \<le> x * (1 + eps)" and "x * (1 - eps) \<le> round64 x" and "x / 2 \<le> round64 x"
proof -
  have "(2 :: rat) powi (- 1022) \<le> 1 / 2 ^ 200" by simp
  with assms have x: "2 powi (- 1022) \<le> x" by linarith
  from round64_up [OF x] show "round64 x \<le> x * (1 + eps)"
    by (simp add: eps_def distrib_left)
  from round64_down [OF x] show "x * (1 - eps) \<le> round64 x"
    by (simp add: eps_def right_diff_distrib)
  have "(0 :: rat) < 1 / 2 ^ 200" by simp
  with assms have "0 < x" by linarith
  then have "x / 2 ^ 53 \<le> x / 2" by simp
  with round64_down [OF x] show "x / 2 \<le> round64 x" by linarith
qed

text \<open>Three roundings, each relative to its argument.\<close>

lemma interpolation_rounded:
  fixes k n :: int and d :: rat
  assumes "0 < k" "k < n" "n \<le> 2 ^ 32" "1 / 2 ^ 100 \<le> d"
  defines "p \<equiv> round64 (of_int k * round64 (round64 d / of_int n))"
  shows "p \<le> of_int k / of_int n * ((1 + eps) * (1 + eps) * (1 + eps)) * d"
    and "of_int k / of_int n * ((1 - eps) * (1 - eps) * (1 - eps)) * d \<le> p"
proof -
  define D where "D = round64 d"
  define q where "q = D / of_int n"
  define S where "S = round64 q"
  define t :: rat where "t = of_int k / of_int n"
  have n: "0 < (of_int n :: rat)" "(of_int n :: rat) \<le> 2 ^ 32"
    using assms(1-3) of_int_le_power_mono [of n 32] by simp_all
  have e: "0 < eps" "eps \<le> 1 / 2" by (simp_all add: eps_def)
  have D: "D \<le> d * (1 + eps)" "d * (1 - eps) \<le> D" "1 / 2 ^ 101 \<le> D"
    using round64_eps [of d] assms(4) by (simp_all add: D_def)
  have "1 / 2 ^ 101 / 2 ^ 32 \<le> q"
    unfolding q_def using D(3) n by (intro frac_le) auto
  then have q: "1 / 2 ^ 133 \<le> q" by simp
  have S: "S \<le> q * (1 + eps)" "q * (1 - eps) \<le> S" "1 / 2 ^ 134 \<le> S"
    using round64_eps [of q] q by (simp_all add: S_def)
  have k: "1 \<le> (of_int k :: rat)"
    using assms(1) by (metis of_int_1_le_iff int_one_le_iff_zero_less)
  have "1 / 2 ^ 134 \<le> of_int k * S"
    using mult_mono [OF k S(3)] S(3) k by simp
  then have P: "p \<le> of_int k * S * (1 + eps)" "of_int k * S * (1 - eps) \<le> p"
    using round64_eps [of "of_int k * S"] by (simp_all add: p_def S_def q_def D_def)
  have t0: "0 \<le> t" using k n(1) by (simp add: t_def)
  have kq: "of_int k * q = t * D" by (simp add: t_def q_def)
  note P(1)
  also have "of_int k * S * (1 + eps) \<le> of_int k * (q * (1 + eps)) * (1 + eps)"
    using S(1) k e by (intro mult_right_mono mult_left_mono) auto
  also have "\<dots> = t * D * (1 + eps) * (1 + eps)"
    unfolding kq [symmetric] by (simp add: mult_ac)
  also have "\<dots> \<le> t * (d * (1 + eps)) * (1 + eps) * (1 + eps)"
    using D(1) t0 e by (intro mult_right_mono mult_left_mono) auto
  also have "\<dots> = t * ((1 + eps) * (1 + eps) * (1 + eps)) * d" by (simp add: mult_ac)
  finally show "p \<le> of_int k / of_int n * ((1 + eps) * (1 + eps) * (1 + eps)) * d" by (simp add: t_def)
  have "t * ((1 - eps) * (1 - eps) * (1 - eps)) * d = t * (d * (1 - eps)) * (1 - eps) * (1 - eps)"
    by (simp add: mult_ac)
  also have "\<dots> \<le> t * D * (1 - eps) * (1 - eps)"
    using D(2) t0 e by (intro mult_right_mono mult_left_mono) auto
  also have "\<dots> = of_int k * (q * (1 - eps)) * (1 - eps)"
    unfolding kq [symmetric] by (simp add: mult_ac)
  also have "\<dots> \<le> of_int k * S * (1 - eps)"
    using S(2) k e by (intro mult_right_mono mult_left_mono) auto
  also note P(2)
  finally show "of_int k / of_int n * ((1 - eps) * (1 - eps) * (1 - eps)) * d \<le> p" by (simp add: t_def)
qed

lemma interpolation_upper:
  fixes k n :: int and d :: rat
  assumes "0 < k" "k < n" "n \<le> 2 ^ 32" "1 / 2 ^ 100 \<le> d"
  shows "round64 (of_int k * round64 (round64 d / of_int n)) \<le> d"
proof -
  let ?t = "of_int k / of_int n :: rat"
  have n: "0 < (of_int n :: rat)" "(of_int n :: rat) \<le> 2 ^ 32"
    using assms of_int_le_power_mono [of n 32] by simp_all
  have "(of_int k :: rat) \<le> of_int n - 1"
    using assms(2) by (metis of_int_1 of_int_diff of_int_le_iff zle_diff1_eq)
  then have "?t \<le> 1 - 1 / of_int n" using n(1) by (simp add: field_simps)
  moreover have "1 / 2 ^ 32 \<le> (1 :: rat) / of_int n" using n by (intro frac_le) auto
  ultimately have "?t \<le> 1 - 1 / 2 ^ 32" by linarith
  then have "?t * ((1 + eps) * (1 + eps) * (1 + eps)) \<le> (1 - 1 / 2 ^ 32) * ((1 + eps) * (1 + eps) * (1 + eps))"
    by (intro mult_right_mono) (auto simp: eps_def)
  also have "\<dots> \<le> 1" by (simp add: eps_def)
  finally have "?t * ((1 + eps) * (1 + eps) * (1 + eps)) * d \<le> 1 * d"
    using assms(4) by (intro mult_right_mono) (auto intro: order_trans [rotated])
  with interpolation_rounded(1) [OF assms] show ?thesis by simp
qed

text \<open>So the rounded interpolation is close to the exact one.\<close>

lemma interpolation_close:
  fixes k n :: int and d :: rat
  assumes "0 < k" "k < n" "n \<le> 2 ^ 32" "1 / 2 ^ 100 \<le> d" "d \<le> 16"
  shows "\<bar>round64 (of_int k * round64 (round64 d / of_int n)) - of_int k / of_int n * d\<bar> \<le> 1 / 2 ^ 46"
proof -
  let ?t = "of_int k / of_int n :: rat"
  have "0 \<le> ?t" "?t \<le> 1" using assms(1,2) by (simp_all add: divide_le_eq)
  have "(0 :: rat) \<le> 1 / 2 ^ 100" by simp
  then have d: "0 \<le> d" using assms(4) by (rule order_trans)
  then have td: "0 \<le> ?t * d" using \<open>0 \<le> ?t\<close> by (rule mult_nonneg_nonneg [rotated])
  have "?t * d \<le> 1 * 16" using \<open>?t \<le> 1\<close> assms(5) d by (intro mult_mono) simp_all
  then have td16: "?t * d \<le> 16" by simp
  define x p where "x = ?t * d" and "p = round64 (of_int k * round64 (round64 d / of_int n))"
  have up: "(1 + eps) * (1 + eps) * (1 + eps) \<le> 1 + 1 / 2 ^ 50" "1 - 1 / 2 ^ 50 \<le> (1 - eps) * (1 - eps) * (1 - eps)"
    by (simp_all add: eps_def)
  have p: "p \<le> x * ((1 + eps) * (1 + eps) * (1 + eps))" "x * ((1 - eps) * (1 - eps) * (1 - eps)) \<le> p"
    using interpolation_rounded [OF assms(1-4)] by (simp_all add: x_def p_def mult_ac)
  have x: "0 \<le> x" "x \<le> 16" using td td16 by (simp_all add: x_def)
  have "p \<le> x * (1 + 1 / 2 ^ 50)" using p(1) mult_left_mono [OF up(1) x(1)] by (rule order_trans)
  moreover have "x * (1 - 1 / 2 ^ 50) \<le> p" using mult_left_mono [OF up(2) x(1)] p(2) by (rule order_trans)
  ultimately have "\<bar>p - x\<bar> \<le> x / 2 ^ 50" unfolding abs_le_iff distrib_left right_diff_distrib by auto
  also have "\<dots> \<le> 16 / 2 ^ 50" using x(2) by (intro divide_right_mono) simp_all
  finally show ?thesis by (simp add: x_def p_def)
qed

subsection \<open>The contract of a power model\<close>

locale power_model =
  fixes pm :: PowerModel
  assumes freqs_ok: "map_ok (cpu_freq_power_coeffs pm)"
    and freqs_nonempty: "cpu_freq_power_coeffs pm \<noteq> []"
    and freq_range: "(f, c) \<in> set (cpu_freq_power_coeffs pm) \<Longrightarrow> 0 < f \<and> f < 2 ^ 31"
    and coeff_Fin: "(f, c) \<in> set (cpu_freq_power_coeffs pm) \<Longrightarrow>
      \<exists>a. c = Fin a \<and> representable a \<and> 0 < a \<and> a \<le> 16"
    and coeff_increasing: "(f, Fin a) \<in> set (cpu_freq_power_coeffs pm) \<Longrightarrow>
      (g, Fin b) \<in> set (cpu_freq_power_coeffs pm) \<Longrightarrow> f < g \<Longrightarrow> a + 1 / 2 ^ 100 \<le> b"
    and first_freq: "fst (hd (cpu_freq_power_coeffs pm)) = min_cpu_freq pm"
    and last_coeff: "snd (last (cpu_freq_power_coeffs pm)) = max_cpu_freq_coeff pm"
    and state_powers: "0 < MOBILE_IDLE_POWER pm" "MOBILE_IDLE_POWER pm < MOBILE_FACH_POWER pm"
      "MOBILE_FACH_POWER pm < MOBILE_DCH_POWER pm" "MOBILE_DCH_POWER pm \<le> 1000"
    and state_coeffs: "power_coeffs pm MOBILE_POWER_STATE_IDLE = MOBILE_IDLE_POWER pm"
      "power_coeffs pm MOBILE_POWER_STATE_FACH = MOBILE_FACH_POWER pm"
      "power_coeffs pm MOBILE_POWER_STATE_DCH = MOBILE_DCH_POWER pm"
    and thresholds: "0 < MOBILE_DCH_THRESHOLD_DOWN pm" "MOBILE_DCH_THRESHOLD_DOWN pm \<le> 1000"
      "0 < MOBILE_DCH_THRESHOLD_UP pm" "MOBILE_DCH_THRESHOLD_UP pm \<le> 1000"
    and timers: "MOBILE_FACH_INACTIVITY_TIMER pm = Fin 6" "MOBILE_DCH_INACTIVITY_TIMER pm = Fin 4"
    and wifi_powers: "0 < WIFI_LOW_POWER pm" "WIFI_LOW_POWER pm < WIFI_HIGH_POWER_BASE pm"
      "WIFI_HIGH_POWER_BASE pm \<le> 1000" "0 < WIFI_PACKET_RATE_THRESHOLD pm"
begin

lemma coeff_found:
  "map_find (cpu_freq_power_coeffs pm) freq = Some c \<Longrightarrow> cpu_power_coeff pm freq = Ok c"
  by (simp add: cpu_power_coeff_def freqs_nonempty)

text \<open>Above the last frequency of the table the second assertion of the code always fails.\<close>

lemma coeff_above:
  assumes "\<forall>f \<in> fst ` set (cpu_freq_power_coeffs pm). f < freq"
  shows "cpu_power_coeff pm freq = Fault Assertion_failed"
proof -
  have none: "map_find (cpu_freq_power_coeffs pm) freq = None"
    using assms by (auto simp: map_find_def map_of_eq_None_iff)
  have up: "map_upper_bound (cpu_freq_power_coeffs pm) freq = None"
    using assms by (auto simp: om.upper_None [OF freqs_ok] dom_map_find)
  show ?thesis
    using om.lower_None_of_upper [OF freqs_ok none up] none up
    by (simp add: cpu_power_coeff_def freqs_nonempty)
qed

lemma first_le: "f \<in> fst ` set (cpu_freq_power_coeffs pm) \<Longrightarrow> min_cpu_freq pm \<le> f"
  using freqs_ok first_freq by (cases "cpu_freq_power_coeffs pm") (auto simp: map_ok_def)

lemma begin_eq: "map_option fst (map_begin (cpu_freq_power_coeffs pm)) = Some (min_cpu_freq pm)"
  using first_freq freqs_nonempty
  by (cases "cpu_freq_power_coeffs pm") (auto simp: map_begin_def)

lemma first_mem: "min_cpu_freq pm \<in> fst ` set (cpu_freq_power_coeffs pm)"
  using first_freq freqs_nonempty hd_in_set by (metis image_eqI)

text \<open>Below the first frequency the first coefficient is used.\<close>

lemma coeff_below:
  assumes "freq < min_cpu_freq pm"
  shows "\<exists>c. (min_cpu_freq pm, c) \<in> set (cpu_freq_power_coeffs pm) \<and> cpu_power_coeff pm freq = Ok c"
proof -
  have none: "map_find (cpu_freq_power_coeffs pm) freq = None"
    using assms first_le by (force simp: map_find_def map_of_eq_None_iff)
  have "map_upper_bound (cpu_freq_power_coeffs pm) freq \<noteq> None"
    using first_mem assms om.upper_None [OF freqs_ok, of freq] by (metis dom_map_find leD)
  then obtain f c where up: "map_upper_bound (cpu_freq_power_coeffs pm) freq = Some (f, c)" by auto
  from om.upper_Some [OF freqs_ok up] have f: "(f, c) \<in> set (cpu_freq_power_coeffs pm)"
    "f \<le> min_cpu_freq pm"
    using first_mem assms by (auto simp: map_find_iff freqs_ok dom_map_find)
  moreover have "min_cpu_freq pm \<le> f" using f(1) by (intro first_le) force
  ultimately show ?thesis
    using none up begin_eq by (intro exI [of _ c]) (simp add: cpu_power_coeff_def freqs_nonempty)
qed

text \<open>Between two frequencies the result is between their coefficients.\<close>

lemma coeff_between:
  assumes none: "map_find (cpu_freq_power_coeffs pm) freq = None"
    and up: "map_upper_bound (cpu_freq_power_coeffs pm) freq = Some (uf, uc)"
    and min: "min_cpu_freq pm < freq"
  shows "\<exists>lf a b c. map_prev (cpu_freq_power_coeffs pm) uf = Some (lf, Fin a) \<and> uc = Fin b
    \<and> lf < freq \<and> freq < uf \<and> (\<forall>f \<in> fst ` set (cpu_freq_power_coeffs pm). f \<le> lf \<or> uf \<le> f)
    \<and> cpu_power_coeff pm freq = Ok (Fin c) \<and> a \<le> c \<and> c \<le> b
    \<and> \<bar>c - (a + of_int (freq - lf) / of_int (uf - lf) * (b - a))\<bar> \<le> 1 / 2 ^ 40"
proof -
  let ?m = "cpu_freq_power_coeffs pm"
  have uf: "(uf, uc) \<in> set ?m" "freq < uf"
    using om.upper_Some [OF freqs_ok up] by (auto simp: map_find_iff freqs_ok)
  have "map_prev ?m uf \<noteq> None"
    using first_mem min uf(2) om.prev_None [OF freqs_ok, of uf]
    by (metis dom_map_find leD order.strict_trans)
  then obtain lf lc where prev: "map_prev ?m uf = Some (lf, lc)" by auto
  from om.neighbours [OF freqs_ok none up prev] have lf: "(lf, lc) \<in> set ?m" "lf < freq"
    by (auto simp: map_find_iff freqs_ok)
  obtain a b where ab: "lc = Fin a" "uc = Fin b" "representable a" "representable b"
      "0 < a" "b \<le> 2 ^ 20"
    using coeff_Fin [OF lf(1)] coeff_Fin [OF uf(1)] by fastforce
  then have d: "1 / 2 ^ 100 \<le> b - a" using coeff_increasing [of lf a uf b] lf uf by simp
  have range: "0 < lf" "uf < 2 ^ 31" using freq_range lf(1) uf(1) by auto
  define n k where "n = uf - lf" and "k = freq - lf"
  have nk: "0 < k" "k < n" "n \<le> 2 ^ 32" using lf(2) uf(2) range by (auto simp: n_def k_def)
  have sub: "d_of_int x - d_of_int lf = Fin (of_int (x - lf))" if "lf \<le> x" "x \<le> uf" for x
  proof -
    have "\<bar>x\<bar> < 2 ^ 53" "\<bar>lf\<bar> < 2 ^ 53" "\<bar>x - lf\<bar> < 2 ^ 53" using that range by auto
    then show ?thesis
      using to_double_of_int [of "x - lf"] by (simp add: d_of_int_def minus_double_def)
  qed
  define P where "P = round64 (of_int k * round64 (round64 (b - a) / of_int n))"
  have d0: "0 \<le> b - a" using d by (rule order_trans [rotated]) simp
  have "0 \<le> P"
    unfolding P_def using nk d0
    by (intro round64_nonneg mult_nonneg_nonneg divide_nonneg_nonneg) auto
  moreover have "P \<le> b - a" unfolding P_def by (rule interpolation_upper [OF nk d])
  ultimately have P: "0 \<le> P" "P \<le> b - a" by auto
  have n0: "(0 :: rat) < of_int n" using nk by simp
  have D: "Fin b - Fin a = Fin (round64 (b - a))"
    using d ab by (simp add: minus_double_def to_double_Fin)
  have Dn: "0 \<le> round64 (b - a)" "round64 (b - a) \<le> 2 ^ 20"
    using d ab round64_nonneg [of "b - a"] ieee.rnd_le_int [of "2 ^ 20" "b - a"] by auto
  have q: "0 \<le> round64 (b - a) / of_int n" "round64 (b - a) / of_int n \<le> 2 ^ 20"
    using Dn n0 nk by (auto simp: field_simps intro: order_trans [OF _ mult_left_mono])
  have S: "divide (Fin (round64 (b - a))) (Fin (of_int n)) = Fin (round64 (round64 (b - a) / of_int n))"
    using n0 q by (simp add: to_double_Fin)
  have Sn: "0 \<le> round64 (round64 (b - a) / of_int n)" "round64 (round64 (b - a) / of_int n) \<le> 2 ^ 20"
    using q round64_nonneg ieee.rnd_le_int [of "2 ^ 20" "round64 (b - a) / of_int n"] by auto
  have kS: "of_int k * round64 (round64 (b - a) / of_int n) \<le> 2 ^ 32 * 2 ^ 20"
    using Sn nk of_int_le_power_mono [of k 32] by (intro mult_mono) auto
  have "Fin (of_int k) * Fin (round64 (round64 (b - a) / of_int n)) = Fin P"
    using kS Sn nk by (simp add: P_def to_double_Fin)
  moreover have "map_option fst (map_begin ?m) \<noteq> Some uf" using begin_eq min uf(2) by auto
  ultimately have res: "cpu_power_coeff pm freq = Ok (Fin a + Fin P)"
    using none up prev ab uf lf D S sub [of uf] sub [of freq]
    by (simp add: cpu_power_coeff_def freqs_nonempty n_def k_def Let_def)
  have "Fin a \<le> Fin a + Fin P" using ab P by (intro d_plus_ge) auto
  moreover have "Fin a + Fin P \<le> Fin b" using ab P by (intro d_plus_le) auto
  ultimately obtain c where sum: "Fin a + Fin P = Fin c" "a \<le> c" "c \<le> b"
    by (cases "Fin a + Fin P") auto
  have b16: "b \<le> 16" using coeff_Fin [of uf uc] uf(1) ab(2) by auto
  have "0 \<le> a + P" "a + P \<le> 2 ^ 5" using ab(5) P b16 by simp_all
  then have c: "\<bar>c - (a + P)\<bar> \<le> 2 ^ 5 / 2 ^ 53"
    using sum(1) round64_error_at [of "a + P" 5] by (simp add: to_double_Fin)
  have "b - a \<le> 16" using b16 ab(5) by linarith
  from interpolation_close [OF nk d this] have
    "\<bar>P - of_int (freq - lf) / of_int (uf - lf) * (b - a)\<bar> \<le> 1 / 2 ^ 46" by (simp add: P_def n_def k_def)
  with c have "\<bar>c - (a + of_int (freq - lf) / of_int (uf - lf) * (b - a))\<bar> \<le> 2 ^ 5 / 2 ^ 53 + 1 / 2 ^ 46" by linarith
  also have "\<dots> \<le> 1 / 2 ^ 40" by simp
  finally have close: "\<bar>c - (a + of_int (freq - lf) / of_int (uf - lf) * (b - a))\<bar> \<le> 1 / 2 ^ 40" .
  have "\<forall>f \<in> fst ` set ?m. f \<le> lf \<or> uf \<le> f"
    using om.prev_Some [OF freqs_ok prev] by (auto simp: dom_map_find not_le)
  with res lf uf ab prev close sum show ?thesis by auto
qed

lemma coeff_total:
  assumes "freq \<le> f" "f \<in> fst ` set (cpu_freq_power_coeffs pm)"
  shows "\<exists>c. cpu_power_coeff pm freq = Ok (Fin c) \<and> 0 < c \<and> c \<le> 16"
proof -
  let ?m = "cpu_freq_power_coeffs pm"
  have mem: "\<exists>a. c = Fin a \<and> 0 < a \<and> a \<le> 16" if "(g, c) \<in> set ?m" for g c
    using coeff_Fin [OF that] by auto
  consider (found) c where "map_find ?m freq = Some c" | (below) "freq < min_cpu_freq pm"
    | (between) "map_find ?m freq = None" "min_cpu_freq pm < freq"
    using first_mem
    by (metis domIff dom_map_find linorder_neqE not_None_eq)
  then show ?thesis
  proof cases
    case found
    then have "(freq, c) \<in> set ?m" by (simp add: map_find_iff freqs_ok)
    with found coeff_found mem show ?thesis by fastforce
  next
    case below
    with coeff_below mem show ?thesis by fastforce
  next
    case between
    have "freq < f" using assms between(1) by (metis domIff dom_map_find order.order_iff_strict)
    then have "map_upper_bound ?m freq \<noteq> None"
      using om.upper_None [OF freqs_ok, of freq] assms(2) by (metis dom_map_find leD)
    then obtain uf uc where up: "map_upper_bound ?m freq = Some (uf, uc)" by auto
    have "(uf, uc) \<in> set ?m" using om.upper_Some [OF freqs_ok up] by (simp add: map_find_iff freqs_ok)
    moreover obtain lf a b c where c: "map_prev ?m uf = Some (lf, Fin a)" "uc = Fin b"
      "cpu_power_coeff pm freq = Ok (Fin c)" "a \<le> c" "c \<le> b"
      using coeff_between [OF between(1) up between(2)] by blast
    moreover have "(lf, Fin a) \<in> set ?m" using om.prev_Some [OF freqs_ok c(1)] by (simp add: map_find_iff freqs_ok)
    ultimately show ?thesis using mem [of uf uc] mem [of lf "Fin a"] by auto
  qed
qed

lemma power_coeff_mono: "s \<le> t \<Longrightarrow> power_coeff pm s \<le> power_coeff pm t"
  using state_powers
  by (cases s; cases t) (auto simp: power_coeff_def state_coeffs less_eq_MobileState_def)

lemma power_coeff_range: "0 < power_coeff pm s \<and> power_coeff pm s \<le> 1000"
  using state_powers by (cases s) (auto simp: power_coeff_def state_coeffs)

lemma get_dch_threshold_range: "0 < get_dch_threshold pm d \<and> get_dch_threshold pm d \<le> 1000"
  using thresholds by (simp add: get_dch_threshold_def)

end

subsection \<open>Both phones satisfy it\<close>

definition phone :: "PowerModelType \<Rightarrow> PowerModel \<Rightarrow> PowerModel" where
  "phone type memory = pm_init (memory\<lparr>vtable := type\<rparr>)"

lemmas phone_defs = phone_def pm_init_def HTCDream_init_def NexusOne_init_def
  set_power_state_coeffs_def Let_def

text \<open>
  The tables are given by rows \<open>(frequency, coefficient * 10 ^ 4)\<close>, increasing in both columns;
  rounding the literals keeps them representable and in order.
\<close>

definition rows :: "(int \<times> int) list \<Rightarrow> (int, double) std_map" where
  "rows ps = map (\<lambda>(f, n). (f, dec n 4)) ps"

definition rows_ok :: "(int \<times> int) list \<Rightarrow> bool" where
  "rows_ok ps \<longleftrightarrow> ps \<noteq> [] \<and> (\<forall>(f, n) \<in> set ps. 0 < f \<and> f < 2 ^ 31 \<and> 10000 \<le> n \<and> n \<le> 100000)
     \<and> sorted_wrt (\<lambda>p q. fst p < fst q \<and> snd p < snd q) ps"

definition HTC_rows :: "(int \<times> int) list" where
  "HTC_rows = [(245, 34169), (383, 43388)]"

definition Nexus_rows :: "(int \<times> int) list" where
  "Nexus_rows = [(245, 11273), (384, 15907), (460, 18736), (499, 21745), (576, 26031),
    (614, 29612), (653, 31373), (691, 34513), (768, 39073), (806, 41959), (845, 46492),
    (998, 54818)]"

lemma HTC_table: "cpu_freq_power_coeffs (phone HTC_DREAM m) = rows HTC_rows"
  by (simp add: phone_defs rows_def HTC_rows_def)

lemma Nexus_table: "cpu_freq_power_coeffs (phone NEXUS_ONE m) = rows Nexus_rows"
  by (simp add: phone_defs rows_def Nexus_rows_def)

lemma rows_ok_phones: "rows_ok HTC_rows" "rows_ok Nexus_rows"
  by (simp_all add: rows_ok_def HTC_rows_def Nexus_rows_def)

lemma dec_Fin:
  assumes "10000 \<le> n" "n \<le> 100000"
  shows "\<exists>a. dec n 4 = Fin a \<and> representable a \<and> 1 \<le> a \<and> a \<le> 10
    \<and> a \<le> of_int n / 10 ^ 4 + 10 / 2 ^ 53 \<and> of_int n / 10 ^ 4 - 10 / 2 ^ 53 \<le> a"
proof -
  let ?x = "of_int n / 10 ^ 4 :: rat"
  have "(10000 :: rat) \<le> of_int n" "of_int n \<le> (100000 :: rat)"
    using assms by (metis of_int_le_iff of_int_numeral)+
  then have x: "1 \<le> ?x" "?x \<le> 10" by simp_all
  have D: "dec n 4 = Fin (round64 ?x)" using x unfolding dec_def by (intro to_double_Fin) auto
  have "(2 :: rat) powi (- 1022) \<le> 1" by simp
  then have "2 powi (- 1022) \<le> ?x" using x by linarith
  from round64_up [OF this] round64_down [OF this]
  have "round64 ?x \<le> ?x + 10 / 2 ^ 53" "?x - 10 / 2 ^ 53 \<le> round64 ?x"
    using x by simp_all
  moreover have "1 \<le> round64 ?x" "round64 ?x \<le> 10"
    using ieee.rnd_between [of 1 10 ?x] x by simp_all
  moreover have "representable (round64 ?x)"
    using D unfolding dec_def by (rule to_double_representable)
  ultimately show ?thesis using D by auto
qed

lemma rows_mem: "(f, c) \<in> set (rows ps) \<longleftrightarrow> (\<exists>n. (f, n) \<in> set ps \<and> c = dec n 4)"
  by (auto simp: rows_def)

lemma map_fst_rows [simp]: "map fst (rows ps) = map fst ps"
  by (simp add: rows_def split_def)

lemma rows_map_ok: assumes "rows_ok ps" shows "map_ok (rows ps)"
proof -
  have "sorted_wrt (<) (map fst ps)"
    using assms unfolding rows_ok_def sorted_wrt_map by (auto elim: sorted_wrt_mono_rel [rotated])
  then show ?thesis by (simp add: map_ok_def strict_sorted_iff)
qed

lemma rows_range: "rows_ok ps \<Longrightarrow> (f, c) \<in> set (rows ps) \<Longrightarrow> 0 < f \<and> f < 2 ^ 31"
  by (auto simp: rows_ok_def rows_mem)

lemma rows_Fin:
  assumes "rows_ok ps" "(f, c) \<in> set (rows ps)"
  shows "\<exists>a. c = Fin a \<and> representable a \<and> 0 < a \<and> a \<le> 16"
proof -
  obtain n where "c = dec n 4" "10000 \<le> n" "n \<le> 100000"
    using assms by (auto simp: rows_ok_def rows_mem)
  with dec_Fin [of n] show ?thesis by force
qed

lemma sorted_wrt_mem:
  assumes "sorted_wrt (\<lambda>p q. fst p < fst q \<and> snd p < snd q) ps"
    and "(f, m) \<in> set ps" "(g, n) \<in> set ps" "f < (g :: int)"
  shows "m < (n :: int)"
  using assms by (induction ps) (auto dest: less_imp_not_less)

lemma rows_increasing:
  assumes "rows_ok ps" "(f, Fin a) \<in> set (rows ps)" "(g, Fin b) \<in> set (rows ps)" "f < g"
  shows "a + 1 / 2 ^ 100 \<le> b"
proof -
  obtain m n where mn: "(f, m) \<in> set ps" "(g, n) \<in> set ps" "Fin a = dec m 4" "Fin b = dec n 4"
    using assms by (auto simp: rows_mem)
  then have lt: "m < n" using assms(1,4) sorted_wrt_mem unfolding rows_ok_def by blast
  have "10000 \<le> m" "m \<le> 100000" "10000 \<le> n" "n \<le> 100000"
    using mn assms(1) by (auto simp: rows_ok_def)
  with dec_Fin [of m] dec_Fin [of n] mn
  have ab: "a \<le> of_int m / 10 ^ 4 + 10 / 2 ^ 53" "of_int n / 10 ^ 4 - 10 / 2 ^ 53 \<le> b"
    by (metis double.inject)+
  have "(of_int m + 1 :: rat) \<le> of_int n"
    using lt by (metis of_int_1 of_int_add of_int_le_iff zless_imp_add1_zle)
  then have "(of_int m / 10 ^ 4 + 1 / 10 ^ 4 :: rat) \<le> of_int n / 10 ^ 4"
    by (simp add: field_simps)
  moreover have "(10 / 2 ^ 53 + 10 / 2 ^ 53 + 1 / 2 ^ 100 :: rat) \<le> 1 / 10 ^ 4" by simp
  ultimately show ?thesis using ab by linarith
qed

lemma rows_nonempty: "rows_ok ps \<Longrightarrow> rows ps \<noteq> []"
  by (simp add: rows_ok_def rows_def)

lemma HTC_rest:
  "fst (hd (rows HTC_rows)) = min_cpu_freq (phone HTC_DREAM m)"
  "snd (last (rows HTC_rows)) = max_cpu_freq_coeff (phone HTC_DREAM m)"
  by (simp_all add: phone_defs rows_def HTC_rows_def)

lemma Nexus_rest:
  "fst (hd (rows Nexus_rows)) = min_cpu_freq (phone NEXUS_ONE m)"
  "snd (last (rows Nexus_rows)) = max_cpu_freq_coeff (phone NEXUS_ONE m)"
  by (simp_all add: phone_defs rows_def Nexus_rows_def)

interpretation htc: power_model "phone HTC_DREAM memory" for memory
proof (unfold_locales, unfold HTC_table, goal_cases)
  case 1 show ?case by (rule rows_map_ok [OF rows_ok_phones(1)])
next
  case 2 show ?case by (rule rows_nonempty [OF rows_ok_phones(1)])
next
  case (3 f c) then show ?case by (rule rows_range [OF rows_ok_phones(1)])
next
  case (4 f c) then show ?case by (rule rows_Fin [OF rows_ok_phones(1)])
next
  case (5 f a g b) then show ?case by (rule rows_increasing [OF rows_ok_phones(1)])
next
  case 6 show ?case by (rule HTC_rest)
next
  case 7 show ?case by (rule HTC_rest)
qed (simp_all add: phone_defs)

interpretation nexus: power_model "phone NEXUS_ONE memory" for memory
proof (unfold_locales, unfold Nexus_table, goal_cases)
  case 1 show ?case by (rule rows_map_ok [OF rows_ok_phones(2)])
next
  case 2 show ?case by (rule rows_nonempty [OF rows_ok_phones(2)])
next
  case (3 f c) then show ?case by (rule rows_range [OF rows_ok_phones(2)])
next
  case (4 f c) then show ?case by (rule rows_Fin [OF rows_ok_phones(2)])
next
  case (5 f a g b) then show ?case by (rule rows_increasing [OF rows_ok_phones(2)])
next
  case 6 show ?case by (rule Nexus_rest)
next
  case 7 show ?case by (rule Nexus_rest)
qed (simp_all add: phone_defs)

subsection \<open>The model the library uses\<close>

text \<open>\<open>init\<close> sets every field, so the memory a model is allocated in does not matter.\<close>

lemma phone_memory: "phone type m = phone type m'"
  by (cases type; rule PowerModel.equality) (auto simp: phone_defs fun_eq_iff all_states)


lemma initArray_phone:
  assumes "powerModels = static_initer \<or> (\<forall>t. powerModels t = Some (phone t memory))"
  shows "initArray fresh powerModels t = Some (phone t memory)"
proof -
  have "phone t (fresh t) = phone t memory" by (rule phone_memory)
  then show ?thesis
    using assms by (cases t) (auto simp: initArray_def static_initer_def phone_def Let_def)
qed

text \<open>The model the library is built with, in zeroed memory: the instance the witnesses use.\<close>

definition zeroed :: PowerModel where
  "zeroed = \<lparr>vtable = NEXUS_ONE, WIFI_HIGH_POWER_BASE = 0, WIFI_LOW_POWER = 0, MOBILE_IDLE_POWER = 0,
     MOBILE_FACH_POWER = 0, MOBILE_DCH_POWER = 0, min_cpu_freq = 0, MOBILE_DCH_THRESHOLD_DOWN = 0,
     MOBILE_DCH_THRESHOLD_UP = 0, MOBILE_FACH_INACTIVITY_TIMER = Fin 0,
     MOBILE_DCH_INACTIVITY_TIMER = Fin 0, WIFI_PACKET_RATE_THRESHOLD = 0, power_coeffs = (\<lambda>_. 0),
     cpu_freq_power_coeffs = [], max_cpu_freq_coeff = Fin 0\<rparr>"

definition nexus_one :: PowerModel where
  "nexus_one = phone NEXUS_ONE zeroed"

lemma nexus_one_ok [simp]: "power_model nexus_one"
  unfolding nexus_one_def by (rule nexus.power_model_axioms)

lemma nexus_one_values [simp]:
  "WIFI_HIGH_POWER_BASE nexus_one = 405" "WIFI_LOW_POWER nexus_one = 34"
  "MOBILE_IDLE_POWER nexus_one = 10" "MOBILE_FACH_POWER nexus_one = 406"
  "MOBILE_DCH_POWER nexus_one = 902" "MOBILE_DCH_THRESHOLD_DOWN nexus_one = 119"
  "MOBILE_DCH_THRESHOLD_UP nexus_one = 151" "WIFI_PACKET_RATE_THRESHOLD nexus_one = 15"
  "min_cpu_freq nexus_one = 245" "max_cpu_freq_coeff nexus_one = dec 54818 4"
  "vtable nexus_one = NEXUS_ONE" "cpu_freq_power_coeffs nexus_one = rows Nexus_rows"
  "power_coeff nexus_one MOBILE_POWER_STATE_IDLE = 10"
  "power_coeff nexus_one MOBILE_POWER_STATE_FACH = 406"
  "power_coeff nexus_one MOBILE_POWER_STATE_DCH = 902"
  by (simp_all add: nexus_one_def Nexus_table) (simp_all add: phone_defs power_coeff_def)

subsection \<open>Properties\<close>

lemma phone_ok: "power_model (phone type memory)"
  by (cases type) (simp_all add: htc.power_model_axioms nexus.power_model_axioms)

text \<open>
  For both phones and every frequency up to the last one of the table,
  \<open>cpu_power_coeff\<close> returns a finite positive coefficient: no assertion fails, no iterator is
  moved before the beginning, and the interpolation does not divide by zero.
\<close>

theorem cpu_coeff_in_table:
  assumes "f \<in> fst ` set (cpu_freq_power_coeffs (phone type memory))" "freq \<le> f"
  shows "\<exists>c. cpu_power_coeff (phone type memory) freq = Ok (Fin c) \<and> 0 < c \<and> c \<le> 16"
  by (rule power_model.coeff_total [OF phone_ok assms(2,1)])

lemma cpu_coeff_in_table_witness: "\<exists>c. cpu_power_coeff (phone NEXUS_ONE zeroed) 500 = Ok (Fin c) \<and> 0 < c"
  using cpu_coeff_in_table [of 998 NEXUS_ONE zeroed 500] by (auto simp: Nexus_table rows_def Nexus_rows_def)

text \<open>
  C23: strictly between two neighbouring frequencies of the table, with none of the table in between,
  the coefficient is the linear interpolation between theirs, to \<open>1 / 2 ^ 40\<close>; the floating-point
  arithmetic never overshoots either of them.
\<close>

theorem cpu_coeff_interpolates:
  assumes "map_find (cpu_freq_power_coeffs (phone type memory)) freq = None"
    and "map_upper_bound (cpu_freq_power_coeffs (phone type memory)) freq = Some (upper, upper_coeff)"
    and "min_cpu_freq (phone type memory) < freq"
  shows "\<exists>lower a b c. map_prev (cpu_freq_power_coeffs (phone type memory)) upper = Some (lower, Fin a)
    \<and> upper_coeff = Fin b \<and> lower < freq \<and> freq < upper
    \<and> (\<forall>f \<in> fst ` set (cpu_freq_power_coeffs (phone type memory)). f \<le> lower \<or> upper \<le> f)
    \<and> cpu_power_coeff (phone type memory) freq = Ok (Fin c) \<and> a \<le> c \<and> c \<le> b
    \<and> \<bar>c - (a + of_int (freq - lower) / of_int (upper - lower) * (b - a))\<bar> \<le> 1 / 2 ^ 40"
  by (rule power_model.coeff_between [OF phone_ok assms])

lemma cpu_coeff_interpolates_witness:
  "\<exists>b c. dec 43388 4 = Fin b \<and> cpu_power_coeff (phone HTC_DREAM zeroed) 300 = Ok (Fin c) \<and> c \<le> b"
proof -
  have "map_find (cpu_freq_power_coeffs (phone HTC_DREAM zeroed)) 300 = None"
    "map_upper_bound (cpu_freq_power_coeffs (phone HTC_DREAM zeroed)) 300 = Some (383, dec 43388 4)"
    "min_cpu_freq (phone HTC_DREAM zeroed) < 300"
    by (simp_all add: HTC_table rows_def HTC_rows_def map_find_def map_upper_bound_def)
       (simp add: phone_defs)
  from cpu_coeff_interpolates [OF this] show ?thesis by auto
qed

text \<open>
  Above the last frequency of the table the assertion of
  \<open>cpu_power_coeff\<close> always fails: at the end of the map \<open>upper_bound\<close> and
  \<open>lower_bound\<close> are both \<open>end\<close>. The HTC Dream's table ends at 383 MHz.
\<close>

theorem cpu_coeff_above_table:
  assumes "\<forall>f \<in> fst ` set (cpu_freq_power_coeffs (phone type memory)). f < freq"
  shows "cpu_power_coeff (phone type memory) freq = Fault Assertion_failed"
  by (rule power_model.coeff_above [OF phone_ok assms])

lemma cpu_coeff_above_table_witness: "cpu_power_coeff (phone HTC_DREAM zeroed) 384 = Fault Assertion_failed"
  using cpu_coeff_above_table [of HTC_DREAM zeroed 384] by (simp add: HTC_table rows_def HTC_rows_def)

text \<open>
  The first \<open>PowerModel::get\<close> builds both models, later ones find them:
  a call with a type of the enumeration returns the initialised model of that phone, whatever memory
  it was allocated in, and leaves an array in which every later call returns the same; a type
  outside the enumeration fails the assertion.
\<close>

theorem power_model_get:
  assumes "powerModels = static_initer \<or> (\<forall>t. powerModels t = Some (phone t memory))"
  shows "if n = 0 \<or> n = 1
    then \<exists>powerModels'. PowerModel_get fresh n powerModels
        = Ok (Some (phone (PowerModelType_of_int n) memory), powerModels')
      \<and> (\<forall>t. powerModels' t = Some (phone t memory))
    else PowerModel_get fresh n powerModels = Fault Assertion_failed"
proof -
  have "(0 \<le> n \<and> n < 2) = (n = 0 \<or> n = 1)" by auto
  then show ?thesis
    using initArray_phone [OF assms, of fresh] by (auto simp: PowerModel_get_def c_assert_def Let_def)
qed

lemma power_model_get_witness:
  "\<exists>powerModels. PowerModel_get (\<lambda>_. zeroed) 1 static_initer = Ok (Some (phone NEXUS_ONE zeroed), powerModels)"
  using power_model_get [of static_initer zeroed 1 "\<lambda>_. zeroed"] by (auto simp: PowerModelType_of_int_def)

end
