(* ===== verification/Clock.thy ===== *)
theory Clock
  imports Power_Model
begin

text \<open>
  What the library reads from outside: the clock of \<open>mocktime_gettimeofday\<close> (a library of its
  own, hence a parameter) and three files of the kernel. Reading number \<open>k\<close> of the clock is
  \<open>clock e k\<close>; a modelled function takes the number of readings made so far and returns the
  new one. A file is read at the moment of the next clock reading.

  \<open>steady\<close> is what \<open>TIMEDIFF\<close> asserts of the clock: it never goes back, and its readings are
  normalised.
\<close>

record env =
  clock :: "nat \<Rightarrow> timeval"
  proc_net_dev :: "nat \<Rightarrow> string option"
  proc_stat :: "nat \<Rightarrow> string option"
  scaling_cur_freq :: "nat \<Rightarrow> string option"

definition steady :: "env \<Rightarrow> bool" where
  "steady e \<longleftrightarrow> (\<forall>i. valid_tv (clock e i)) \<and> (\<forall>i. tv_us (clock e i) \<le> tv_us (clock e (Suc i)))"

text \<open>\<open>time_since(then)\<close> of \<^verbatim>\<open>libpowertutor.cpp\<close>.\<close>

definition time_since :: "env \<Rightarrow> timeval \<Rightarrow> nat \<Rightarrow> (double \<times> nat) result" where
  "time_since e since k =
     bind_r (TIMEDIFF since (clock e k)) (\<lambda>dur.
     Ok (d_of_int (tv_sec dur) + divide (d_of_int (tv_usec dur)) (Fin 1000000), Suc k))"

lemma steady_valid [simp]: "steady e \<Longrightarrow> valid_tv (clock e i)"
  by (simp add: steady_def)

lemma steady_mono: "steady e \<Longrightarrow> i \<le> j \<Longrightarrow> tv_us (clock e i) \<le> tv_us (clock e j)"
  by (rule lift_Suc_mono_le [of "\<lambda>i. tv_us (clock e i)"]) (auto simp: steady_def)

lemma steady_le:
  "steady e \<Longrightarrow> t \<le> tv_us (clock e i) \<Longrightarrow> i \<le> j \<Longrightarrow> t \<le> tv_us (clock e j)"
  using steady_mono by (rule order_trans [rotated])

subsection \<open>Seconds in floating point\<close>

text \<open>
  A duration converted to \<open>double\<close> seconds compares with a whole number of seconds exactly as
  its microseconds do, whatever the two roundings do below the microsecond.
\<close>

lemma d_of_int_Fin: "\<bar>n\<bar> < 2 ^ 53 \<Longrightarrow> d_of_int n = Fin (of_int n)"
  by (simp add: d_of_int_def)

lemma rep_minus_ulp: "\<bar>n\<bar> < 2 ^ 30 \<Longrightarrow> representable (of_int n - 1 / 2 ^ 20)"
proof -
  assume n: "\<bar>n\<bar> < 2 ^ 30"
  let ?x = "of_int n - 1 / 2 ^ 20 :: rat"
  have eq: "(of_int (n * 2 ^ 20 - 1) :: rat) * 2 powi (- 20) = ?x" by (simp add: field_simps)
  have "\<bar>n * 2 ^ 20 - 1\<bar> < 2 ^ 53" using n by (simp add: abs_less_iff)
  from round64_exact [OF this, of "- 20"] have r: "round64 ?x = ?x"
    unfolding eq by (simp add: binary64_min_exp_def)
  have le: "to_double (of_int (n - 1)) \<le> to_double ?x" "to_double ?x \<le> to_double (of_int n)"
    by (rule to_double_mono; simp)+
  have "to_double (of_int (n - 1)) = Fin (of_int (n - 1))" "to_double (of_int n) = Fin (of_int n)"
    using n to_double_of_int [of "n - 1"] to_double_of_int [of n] by simp_all
  with le obtain a where "to_double ?x = Fin a" by (cases "to_double ?x") auto
  with r show ?thesis by (auto simp: representable_def to_double_def Let_def split: if_splits)
qed


lemma seconds_nonneg: "valid_tv d \<Longrightarrow> Fin 0 \<le> convert_to_seconds d"
  by (simp add: convert_to_seconds_def d_of_int_def valid_tv_def)

lemma seconds_upper:
  assumes "valid_tv d" "tv_us d < n * 1000000" "n < 2 ^ 30"
  shows "convert_to_seconds d \<le> Fin (of_int n - 1 / 2 ^ 20)"
proof -
  have d: "0 \<le> tv_sec d" "tv_sec d \<le> n - 1" "0 \<le> tv_usec d" "tv_usec d \<le> 999999"
    using assms by (auto simp: valid_tv_def tv_us_def)
  then have n: "0 < n" by linarith
  have sec: "d_of_int (tv_sec d) = Fin (of_int (tv_sec d))"
    and us: "d_of_int (tv_usec d) = Fin (of_int (tv_usec d))"
    using d assms(3) by (auto intro!: d_of_int_Fin)
  have "(of_int (tv_usec d) :: rat) \<le> 999999" using d(4) by (metis of_int_le_iff of_int_numeral)
  then have "(of_int (tv_usec d) :: rat) / 1000000 \<le> 1 - 1 / 2 ^ 20" by (simp add: field_simps)
  then have "to_double (of_int (tv_usec d) / 1000000) \<le> to_double (1 - 1 / 2 ^ 20)"
    by (rule to_double_mono)
  then have q: "divide (d_of_int (tv_usec d)) (Fin 1000000) \<le> Fin (1 - 1 / 2 ^ 20)"
    using rep_minus_ulp [of 1] us by (simp add: representable_def)
  have q0: "Fin 0 \<le> divide (d_of_int (tv_usec d)) (Fin 1000000)"
    using d by (simp add: d_of_int_def)
  have le: "(of_int (tv_sec d) :: rat) \<le> of_int (n - 1)" using d(2) by (simp only: of_int_le_iff)
  have "convert_to_seconds d \<le> Fin (of_int (n - 1)) + Fin (1 - 1 / 2 ^ 20)"
    unfolding convert_to_seconds_def sec using d q q0 le by (intro d_plus_mono) simp_all
  also have "\<dots> \<le> Fin (of_int n - 1 / 2 ^ 20)"
    using n assms(3) by (intro d_plus_le rep_minus_ulp) simp_all
  finally (d_le_trans) show ?thesis .
qed

lemma seconds_ge_iff:
  assumes "valid_tv d" "0 \<le> n" "n < 2 ^ 30"
  shows "Fin (of_int n) \<le> convert_to_seconds d \<longleftrightarrow> n * 1000000 \<le> tv_us d"
proof
  assume "n * 1000000 \<le> tv_us d"
  then have "n \<le> tv_sec d" using assms(1) by (auto simp: valid_tv_def tv_us_def)
  then have "Fin (of_int n) \<le> Fin (of_int (tv_sec d))" by simp
  also have "Fin (of_int (tv_sec d)) \<le> convert_to_seconds d"
    using assms(1) unfolding convert_to_seconds_def
    by (subst (1) d_of_int_Fin) (auto simp: valid_tv_def d_of_int_def intro!: d_plus_ge representable_of_int)
  finally (d_le_trans) show "Fin (of_int n) \<le> convert_to_seconds d" .
next
  assume le: "Fin (of_int n) \<le> convert_to_seconds d"
  show "n * 1000000 \<le> tv_us d"
  proof (rule ccontr)
    assume "\<not> n * 1000000 \<le> tv_us d"
    then have "convert_to_seconds d \<le> Fin (of_int n - 1 / 2 ^ 20)"
      using assms by (intro seconds_upper) auto
    from d_le_trans [OF le this] show False by simp
  qed
qed

lemma seconds_mono:
  assumes "norm_tv a" "norm_tv b" "tv_us a \<le> tv_us b" "tv_sec b < 2 ^ 52"
  shows "convert_to_seconds a \<le> convert_to_seconds b"
proof -
  have le: "tv_sec a \<le> tv_sec b" using assms(1-3) by (simp add: norm_tv_def tv_us_def)
  have A: "0 \<le> tv_sec a" "0 \<le> tv_usec a" "tv_usec a \<le> 1000000"
    and B: "0 \<le> tv_sec b" "0 \<le> tv_usec b" "tv_usec b \<le> 1000000"
    using assms(1,2) by (simp_all add: norm_tv_def)
  have sec: "d_of_int (tv_sec a) = Fin (of_int (tv_sec a))" "d_of_int (tv_sec b) = Fin (of_int (tv_sec b))"
    using assms(4) A B le by (auto intro!: d_of_int_Fin)
  have usec: "d_of_int (tv_usec a) = Fin (of_int (tv_usec a))"
    "d_of_int (tv_usec b) = Fin (of_int (tv_usec b))"
    using A B by (auto intro!: d_of_int_Fin)
  have q: "Fin 0 \<le> divide (d_of_int (tv_usec a)) (Fin 1000000)"
    "Fin 0 \<le> divide (d_of_int (tv_usec b)) (Fin 1000000)"
    using A B by (simp_all add: usec)
  show ?thesis
  proof (cases "tv_sec a = tv_sec b")
    case True
    then have "tv_usec a \<le> tv_usec b" using assms(3) by (simp add: tv_us_def)
    then have "divide (d_of_int (tv_usec a)) (Fin 1000000) \<le> divide (d_of_int (tv_usec b)) (Fin 1000000)"
      by (intro d_divide_mono) (simp_all add: usec)
    with q True A show ?thesis
      unfolding convert_to_seconds_def sec by (intro d_plus_mono) auto
  next
    case False
    have "(of_int (tv_usec a) :: rat) \<le> 1000000" using A by (metis of_int_le_iff of_int_numeral)
    then have "to_double (of_int (tv_usec a) / 1000000) \<le> to_double (of_int 1)"
      by (intro to_double_mono) simp
    then have "divide (d_of_int (tv_usec a)) (Fin 1000000) \<le> Fin 1" by (simp add: usec)
    then have "convert_to_seconds a \<le> Fin (of_int (tv_sec a)) + Fin 1"
      unfolding convert_to_seconds_def sec using A q by (intro d_plus_mono) auto
    also have "\<dots> \<le> Fin (of_int (tv_sec b))"
    proof (rule d_plus_le)
      show "representable (of_int (tv_sec b))" using assms(4) B by (intro representable_of_int) auto
      have "tv_sec a + 1 \<le> tv_sec b" using le False by simp
      then show "(of_int (tv_sec a) + 1 :: rat) \<le> of_int (tv_sec b)"
        by (metis of_int_1 of_int_add of_int_le_iff)
    qed
    also have "\<dots> \<le> convert_to_seconds b"
      unfolding convert_to_seconds_def sec using q B assms(4)
      by (intro d_plus_ge representable_of_int) auto
    finally show ?thesis .
  qed
qed

lemma seconds_Fin:
  assumes "valid_tv d"
  shows "\<exists>a. convert_to_seconds d = Fin a \<and> 0 \<le> a \<and> a \<le> 2 ^ 41"
proof -
  have "d_of_int (tv_sec d) \<le> Fin (2 ^ 40)" "Fin 0 \<le> d_of_int (tv_sec d)"
    using assms of_int_le_power_mono [of "tv_sec d" 40]
    by (auto simp: valid_tv_def d_of_int_Fin)
  moreover have "tv_usec d \<le> 1000000" using assms by (simp add: valid_tv_def)
  then have "(of_int (tv_usec d) :: rat) \<le> 1000000" by (metis of_int_le_iff of_int_numeral)
  then have "to_double (of_int (tv_usec d) / 1000000) \<le> to_double (of_int 1)"
    by (intro to_double_mono) simp
  then have "divide (d_of_int (tv_usec d)) (Fin 1000000) \<le> Fin 1"
    using assms by (simp add: valid_tv_def d_of_int_Fin)
  moreover have "Fin 0 \<le> divide (d_of_int (tv_usec d)) (Fin 1000000)"
    using assms by (simp add: valid_tv_def d_of_int_def)
  ultimately have "convert_to_seconds d \<le> Fin (2 ^ 40) + Fin 1"
    unfolding convert_to_seconds_def by (intro d_plus_mono)
  also have "\<dots> \<le> Fin (2 ^ 41)"
    using representable_of_int [of "2 ^ 41"] by (intro d_plus_le) simp_all
  finally (d_le_trans) show ?thesis
    using seconds_nonneg [OF assms] by (cases "convert_to_seconds d") auto
qed

lemma time_since_Ok:
  assumes "steady e" "valid_tv since" "tv_us since \<le> tv_us (clock e k)"
  shows "\<exists>dur. valid_tv dur \<and> tv_us dur = tv_us (clock e k) - tv_us since
    \<and> time_since e since k = Ok (convert_to_seconds dur, Suc k)"
  using TIMEDIFF_Ok [OF assms(2) steady_valid [OF assms(1)] assms(3)]
  by (auto simp: time_since_def convert_to_seconds_def)

text \<open>A steady clock for the witnesses: \<open>step\<close> seconds between readings, from 1000 s on.\<close>

definition ticking :: "int \<Rightarrow> env" where
  "ticking step =
     \<lparr>clock = (\<lambda>i. \<lparr>tv_sec = 1000 + step * int (min i 100), tv_usec = 0\<rparr>),
      proc_net_dev = (\<lambda>_. None), proc_stat = (\<lambda>_. None), scaling_cur_freq = (\<lambda>_. None)\<rparr>"

lemma steady_ticking [simp]: "0 \<le> step \<Longrightarrow> step \<le> 1000 \<Longrightarrow> steady (ticking step)"
proof -
  assume s: "0 \<le> step" "step \<le> 1000"
  then have m: "step * int (min i 100) \<le> step * int (min (Suc i) 100)" for i
    by (intro mult_left_mono) simp_all
  have lo: "0 \<le> step * int (min i 100)" for i using s by simp
  have hi: "step * int (min i 100) \<le> 1000 * 100" for i using s by (intro mult_mono) simp_all
  have "1000 + step * int (min i 100) < 2 ^ 40" "0 \<le> 1000 + step * int (min i 100)" for i
    using lo [of i] hi [of i] by simp_all
  with m show ?thesis by (simp add: steady_def ticking_def valid_tv_def tv_us_def)
qed

lemma clock_ticking [simp]: "clock (ticking step) i = \<lparr>tv_sec = 1000 + step * int (min i 100), tv_usec = 0\<rparr>"
  by (simp add: ticking_def)

end
