(* ===== verification/Radio.thy ===== *)
theory Radio
  imports Clock
begin

text \<open>
  The abstract specification of the cellular radio, which the handset's
  \<open>update_mobile_state\<close> and the server's \<open>update_remote_power_model\<close> both implement:
  a labelled step relation \<open>rrc\<close>. Traffic promotes the radio to DCH when a direction reaches
  its threshold and at least to FACH otherwise; a silence of four seconds takes it from DCH to
  FACH, one of six from FACH to IDLE.

  The locale \<open>radio_timeouts\<close> is the contract of a function that only watches the timeouts.
  Its lemma \<open>returns_to_idle\<close> is proved once for the handset and the server.
\<close>

subsection \<open>The step relation\<close>

datatype radio_event = Traffic int int | Silence int

definition dch_traffic :: "PowerModel \<Rightarrow> int \<Rightarrow> int \<Rightarrow> bool" where
  "dch_traffic pm down up \<longleftrightarrow>
     MOBILE_DCH_THRESHOLD_DOWN pm \<le> down \<or> MOBILE_DCH_THRESHOLD_UP pm \<le> up"

definition DCH_us :: int where
  "DCH_us = 4000000"

definition FACH_us :: int where
  "FACH_us = 6000000"

inductive rrc :: "PowerModel \<Rightarrow> radio_event \<Rightarrow> MobileState \<Rightarrow> MobileState \<Rightarrow> bool" for pm where
  large: "dch_traffic pm down up \<Longrightarrow> rrc pm (Traffic down up) s MOBILE_POWER_STATE_DCH"
| small: "\<not> dch_traffic pm down up \<Longrightarrow>
    rrc pm (Traffic down up) s (max s MOBILE_POWER_STATE_FACH)"
| dch_timeout: "DCH_us \<le> us \<Longrightarrow>
    rrc pm (Silence us) MOBILE_POWER_STATE_DCH MOBILE_POWER_STATE_FACH"
| fach_timeout: "FACH_us \<le> us \<Longrightarrow>
    rrc pm (Silence us) MOBILE_POWER_STATE_FACH MOBILE_POWER_STATE_IDLE"
| dch_stays: "us < DCH_us \<Longrightarrow>
    rrc pm (Silence us) MOBILE_POWER_STATE_DCH MOBILE_POWER_STATE_DCH"
| fach_stays: "us < FACH_us \<Longrightarrow>
    rrc pm (Silence us) MOBILE_POWER_STATE_FACH MOBILE_POWER_STATE_FACH"
| idle_stays: "rrc pm (Silence us) MOBILE_POWER_STATE_IDLE MOBILE_POWER_STATE_IDLE"

inductive_simps rrc_Traffic: "rrc pm (Traffic down up) s t"
inductive_simps rrc_Silence: "rrc pm (Silence us) s t"
inductive_cases rrc_DCH_IDLE: "rrc pm ev MOBILE_POWER_STATE_DCH MOBILE_POWER_STATE_IDLE"

text \<open>The relation is the graph of a function, which computes.\<close>

definition timed_out :: "int \<Rightarrow> MobileState \<Rightarrow> MobileState" where
  "timed_out us s =
     (if s = MOBILE_POWER_STATE_DCH \<and> DCH_us \<le> us then MOBILE_POWER_STATE_FACH
      else if s = MOBILE_POWER_STATE_FACH \<and> FACH_us \<le> us then MOBILE_POWER_STATE_IDLE
      else s)"

fun radio_next :: "PowerModel \<Rightarrow> radio_event \<Rightarrow> MobileState \<Rightarrow> MobileState" where
  "radio_next pm (Traffic down up) s =
     (if dch_traffic pm down up then MOBILE_POWER_STATE_DCH else max s MOBILE_POWER_STATE_FACH)"
| "radio_next pm (Silence us) s = timed_out us s"

lemma rrc_iff: "rrc pm ev s t \<longleftrightarrow> t = radio_next pm ev s"
  by (cases ev; cases s) (auto simp: rrc_Traffic rrc_Silence timed_out_def)

lemma max_FACH: "max s MOBILE_POWER_STATE_FACH =
    (if s = MOBILE_POWER_STATE_IDLE then MOBILE_POWER_STATE_FACH else s)"
  by (cases s) (simp_all add: max_def less_eq_MobileState_def)

lemma rrc_not_DCH_to_IDLE: "\<not> rrc pm ev MOBILE_POWER_STATE_DCH MOBILE_POWER_STATE_IDLE"
  by (auto elim!: rrc_DCH_IDLE simp: max_FACH)

lemma rrc_Traffic_up: "rrc pm (Traffic d u) s t \<Longrightarrow> s \<le> t"
  by (auto simp: rrc_iff)

lemma timed_out_le: "timed_out us s \<le> s"
  by (auto simp: timed_out_def less_eq_MobileState_def)

lemma timed_out_IDLE [simp]: "timed_out us MOBILE_POWER_STATE_IDLE = MOBILE_POWER_STATE_IDLE"
  by (simp add: timed_out_def)

lemma rrc_Silence_down: "rrc pm (Silence us) s t \<Longrightarrow> t \<le> s"
  by (simp add: rrc_iff timed_out_le)

subsection \<open>The timers of the code\<close>

definition silent_us :: "env \<Rightarrow> timeval \<Rightarrow> nat \<Rightarrow> int" where
  "silent_us e since k = tv_us (clock e k) - tv_us since"

lemma seconds_timer:
  assumes "valid_tv d"
  shows "Fin 4 \<le> convert_to_seconds d \<longleftrightarrow> DCH_us \<le> tv_us d"
    and "Fin 6 \<le> convert_to_seconds d \<longleftrightarrow> FACH_us \<le> tv_us d"
  using seconds_ge_iff [OF assms, of 4] seconds_ge_iff [OF assms, of 6]
  by (simp_all add: DCH_us_def FACH_us_def)

text \<open>A stored time: a valid reading, not after \<open>t\<close>.\<close>

definition stamp_ok :: "int \<Rightarrow> timeval \<Rightarrow> bool" where
  "stamp_ok t v \<longleftrightarrow> valid_tv v \<and> tv_us v \<le> t"

lemma stamp_ok_mono: "stamp_ok t v \<Longrightarrow> t \<le> t' \<Longrightarrow> stamp_ok t' v"
  by (simp add: stamp_ok_def)

lemma stamp_ok_clock: "steady e \<Longrightarrow> i \<le> j \<Longrightarrow> stamp_ok (tv_us (clock e j)) (clock e i)"
  by (simp add: stamp_ok_def steady_mono)

lemma stamp_ok_later:
  "steady e \<Longrightarrow> stamp_ok (tv_us (clock e i)) v \<Longrightarrow> i \<le> j \<Longrightarrow> stamp_ok (tv_us (clock e j)) v"
  by (auto intro: stamp_ok_mono steady_mono)

lemma time_since_stamp:
  assumes "steady e" "stamp_ok (tv_us (clock e k)) since"
  shows "\<exists>dur. valid_tv dur \<and> tv_us dur = silent_us e since k
    \<and> time_since e since k = Ok (convert_to_seconds dur, Suc k)"
  using time_since_Ok [OF assms(1), of since k] assms(2) by (auto simp: stamp_ok_def silent_us_def)

subsection \<open>Watching the timeouts\<close>

text \<open>\<open>quiet_run quiet e n k s\<close> calls \<open>quiet\<close> \<open>n\<close> times in a row.\<close>

fun quiet_run ::
  "(env \<Rightarrow> nat \<Rightarrow> 's \<Rightarrow> ('s \<times> nat) result) \<Rightarrow> env \<Rightarrow> nat \<Rightarrow> nat \<Rightarrow> 's \<Rightarrow> ('s \<times> nat) result" where
  "quiet_run quiet e 0 k s = Ok (s, k)"
| "quiet_run quiet e (Suc n) k s =
     bind_r (quiet e k s) (\<lambda>(s, k). quiet_run quiet e n k s)"

lemma quiet_run_add:
  "quiet_run quiet e (m + n) k s =
     bind_r (quiet_run quiet e m k s) (\<lambda>(s, k). quiet_run quiet e n k s)"
proof (induction m arbitrary: k s)
  case (Suc m)
  then show ?case by (simp add: bind_r_assoc split_def)
qed simp

text \<open>
  \<open>ok n t s\<close> is the provider's invariant at time \<open>t\<close>, good for \<open>n\<close> more calls; a call
  makes at most five readings of the clock.
\<close>

locale radio_timeouts =
  fixes quiet :: "env \<Rightarrow> nat \<Rightarrow> 's \<Rightarrow> ('s \<times> nat) result"
    and radio :: "'s \<Rightarrow> MobileState"
    and since :: "'s \<Rightarrow> timeval"
    and ok :: "nat \<Rightarrow> int \<Rightarrow> 's \<Rightarrow> bool"
  assumes since_le: "ok n t s \<Longrightarrow> tv_us (since s) \<le> t"
    and quiet_step: "steady e \<Longrightarrow> ok (Suc n) (tv_us (clock e k)) s \<Longrightarrow>
      \<exists>s' i j. quiet e k s = Ok (s', j) \<and> k \<le> i \<and> i < j \<and> j \<le> k + 5
        \<and> ok n (tv_us (clock e j)) s'
        \<and> radio s' = timed_out (silent_us e (since s) i) (radio s)
        \<and> (since s' = since s \<or> radio s = MOBILE_POWER_STATE_DCH \<and> radio s' \<noteq> radio s)"
begin

lemma run_Ok:
  assumes "steady e" "ok (m + n) (tv_us (clock e k)) s"
  shows "\<exists>s' j. quiet_run quiet e m k s = Ok (s', j) \<and> k + m \<le> j \<and> j \<le> k + 5 * m
    \<and> ok n (tv_us (clock e j)) s' \<and> radio s' \<le> radio s"
  using assms(2)
proof (induction m arbitrary: k s)
  case (Suc m)
  then obtain s1 j1 i where s1: "quiet e k s = Ok (s1, j1)" "k \<le> i" "i < j1" "j1 \<le> k + 5"
      "ok (m + n) (tv_us (clock e j1)) s1" "radio s1 = timed_out (silent_us e (since s) i) (radio s)"
    using quiet_step [OF assms(1), of "m + n" k s] by auto
  then have "radio s1 \<le> radio s" by (simp add: timed_out_le)
  with Suc.IH [OF s1(5)] s1 show ?case by (fastforce intro: order_trans)
qed auto

lemma leaves_DCH:
  assumes "steady e" "ok (Suc a + n) (tv_us (clock e k)) s"
    and "tv_us (since s) + DCH_us \<le> tv_us (clock e (k + a))"
  shows "\<exists>s' j. quiet_run quiet e (Suc a) k s = Ok (s', j) \<and> k + Suc a \<le> j \<and> j \<le> k + 5 * Suc a
    \<and> ok n (tv_us (clock e j)) s' \<and> radio s' \<noteq> MOBILE_POWER_STATE_DCH"
  using assms(2,3)
proof (induction a arbitrary: k s)
  case 0
  then obtain s1 j1 i where s1: "quiet e k s = Ok (s1, j1)" "k \<le> i" "i < j1" "j1 \<le> k + 5"
      "ok n (tv_us (clock e j1)) s1" "radio s1 = timed_out (silent_us e (since s) i) (radio s)"
    using quiet_step [OF assms(1), of n k s] by auto
  have "tv_us (clock e k) \<le> tv_us (clock e i)" using assms(1) s1(2) by (rule steady_mono)
  then have "DCH_us \<le> silent_us e (since s) i" using 0 by (simp add: silent_us_def)
  then have "radio s1 \<noteq> MOBILE_POWER_STATE_DCH" using s1(6) by (auto simp: timed_out_def)
  with s1 show ?case by (auto intro!: exI [of _ s1] exI [of _ j1])
next
  case (Suc a)
  then obtain s1 j1 i where s1: "quiet e k s = Ok (s1, j1)" "k \<le> i" "i < j1" "j1 \<le> k + 5"
      "ok (Suc a + n) (tv_us (clock e j1)) s1"
      "radio s1 = timed_out (silent_us e (since s) i) (radio s)"
      "since s1 = since s \<or> radio s = MOBILE_POWER_STATE_DCH \<and> radio s1 \<noteq> radio s"
    using quiet_step [OF assms(1), of "Suc a + n" k s] by auto
  show ?case
  proof (cases "radio s1 = MOBILE_POWER_STATE_DCH")
    case True
    with s1(6,7) have "since s1 = since s" by (auto simp: timed_out_def split: if_splits)
    moreover have "tv_us (clock e (k + Suc a)) \<le> tv_us (clock e (j1 + a))"
      using assms(1) s1(2,3) by (intro steady_mono) simp_all
    ultimately show ?thesis using Suc.IH [OF s1(5)] Suc.prems(2) s1(1-4) by fastforce
  next
    case False
    then have "\<And>x. x \<le> radio s1 \<Longrightarrow> x \<noteq> MOBILE_POWER_STATE_DCH"
      by (metis order_antisym state_le_DCH)
    with run_Ok [OF assms(1) s1(5)] s1(1-4) show ?thesis by fastforce
  qed
qed

lemma leaves_FACH:
  assumes "steady e" "ok (Suc b + n) (tv_us (clock e k)) s" "radio s \<noteq> MOBILE_POWER_STATE_DCH"
    and "tv_us (since s) + FACH_us \<le> tv_us (clock e (k + b))"
  shows "\<exists>s' j. quiet_run quiet e (Suc b) k s = Ok (s', j) \<and> k + Suc b \<le> j \<and> j \<le> k + 5 * Suc b
    \<and> ok n (tv_us (clock e j)) s' \<and> radio s' = MOBILE_POWER_STATE_IDLE"
  using assms(2-4)
proof (induction b arbitrary: k s)
  case 0
  then obtain s1 j1 i where s1: "quiet e k s = Ok (s1, j1)" "k \<le> i" "i < j1" "j1 \<le> k + 5"
      "ok n (tv_us (clock e j1)) s1" "radio s1 = timed_out (silent_us e (since s) i) (radio s)"
    using quiet_step [OF assms(1), of n k s] by auto
  have "tv_us (clock e k) \<le> tv_us (clock e i)" using assms(1) s1(2) by (rule steady_mono)
  then have "FACH_us \<le> silent_us e (since s) i" using 0 by (simp add: silent_us_def)
  then have "radio s1 = MOBILE_POWER_STATE_IDLE"
    using s1(6) 0(2) by (cases "radio s") (auto simp: timed_out_def)
  with s1 show ?case by (auto intro!: exI [of _ s1] exI [of _ j1])
next
  case (Suc b)
  then obtain s1 j1 i where s1: "quiet e k s = Ok (s1, j1)" "k \<le> i" "i < j1" "j1 \<le> k + 5"
      "ok (Suc b + n) (tv_us (clock e j1)) s1"
      "radio s1 = timed_out (silent_us e (since s) i) (radio s)" "since s1 = since s"
    using quiet_step [OF assms(1), of "Suc b + n" k s] by auto
  have "radio s1 \<noteq> MOBILE_POWER_STATE_DCH"
    using s1(6) Suc.prems(2) by (auto simp: timed_out_def split: if_splits)
  moreover have "tv_us (clock e (k + Suc b)) \<le> tv_us (clock e (j1 + b))"
    using assms(1) s1(2,3) by (intro steady_mono) simp_all
  ultimately show ?case
    using Suc.IH [OF s1(5)] Suc.prems(3) s1(1-4,7) by fastforce
qed

text \<open>
  After the DCH timeout has passed within \<open>a + 1\<close> calls and the FACH timeout within
  \<open>b + 1\<close> more, the radio is idle, whatever it was doing.
\<close>

lemma returns_to_idle:
  assumes "steady e" "ok (Suc a + Suc b) (tv_us (clock e k)) s"
    and "tv_us (since s) + DCH_us \<le> tv_us (clock e (k + a))"
    and "tv_us (clock e (k + 5 * Suc a)) + FACH_us \<le> tv_us (clock e (k + Suc a + b))"
  shows "\<exists>s' j. quiet_run quiet e (Suc a + Suc b) k s = Ok (s', j)
    \<and> radio s' = MOBILE_POWER_STATE_IDLE"
proof -
  obtain s1 j1 where s1: "quiet_run quiet e (Suc a) k s = Ok (s1, j1)" "k + Suc a \<le> j1"
      "j1 \<le> k + 5 * Suc a" "ok (Suc b) (tv_us (clock e j1)) s1"
      "radio s1 \<noteq> MOBILE_POWER_STATE_DCH"
    using leaves_DCH [OF assms(1-3)] by blast
  have "tv_us (since s1) \<le> tv_us (clock e j1)" using s1(4) by (rule since_le)
  moreover have "tv_us (clock e j1) \<le> tv_us (clock e (k + 5 * Suc a))"
    "tv_us (clock e (k + Suc a + b)) \<le> tv_us (clock e (j1 + b))"
    using assms(1) s1(2,3) by (auto intro!: steady_mono)
  ultimately have "tv_us (since s1) + FACH_us \<le> tv_us (clock e (j1 + b))" using assms(4) by linarith
  then show ?thesis
    using leaves_FACH [OF assms(1), of b 0 j1 s1] s1(1,4,5)
    by (fastforce simp: quiet_run_add simp del: quiet_run.simps add_Suc add_Suc_right)
qed

end

end
