(* ===== verification/Mobile_State.thy ===== *)
theory Mobile_State
  imports Radio
begin

text \<open>
  The handset's model of the cellular radio: the variables of \<^verbatim>\<open>libpowertutor.cpp\<close> under
  \<open>mobile_state_lock\<close>, \<open>update_mobile_state\<close> in the order of its code, and the averages
  kept per state.

  The abstract specification is the relation \<open>rrc\<close> of the theory \<open>Radio\<close>. \<open>mobile_inv\<close>
  is the invariant of the variables, \<open>mobile_event\<close> the event an update observes, and
  \<open>update_mobile_state_step\<close> says what one whole update does. The locale \<open>radio_timeouts\<close>
  is interpreted on updates without traffic.
\<close>

subsection \<open>State\<close>

record mobile_vars =
  mobile_state :: MobileState
  last_mobile_activity :: timeval
  last_mobile_sample_time :: timeval
  last_mobile_state_change :: timeval
  mobile_last_bytes :: "Direction \<Rightarrow> int"
  mobile_last_delta_bytes :: "Direction \<Rightarrow> int"
  time_in_mobile_state :: "MobileState \<Rightarrow> timeval"
  idle_durations_per_state :: "MobileState \<Rightarrow> double"
  idle_duration_update_counts :: "MobileState \<Rightarrow> int"

definition mobile_vars_init :: mobile_vars where
  "mobile_vars_init =
     \<lparr>mobile_state = MOBILE_POWER_STATE_IDLE,
      last_mobile_activity = timerclear,
      last_mobile_sample_time = timerclear,
      last_mobile_state_change = timerclear,
      mobile_last_bytes = (\<lambda>_. - 1),
      mobile_last_delta_bytes = (\<lambda>_. 0),
      time_in_mobile_state = (\<lambda>_. timerclear)
        (MOBILE_POWER_STATE_IDLE := \<lparr>tv_sec = 1, tv_usec = 0\<rparr>),
      idle_durations_per_state = (\<lambda>_. Fin 0),
      idle_duration_update_counts = (\<lambda>_. 1)\<rparr>"

subsection \<open>update_mobile_state\<close>

text \<open>The loop over the directions: one iteration, and the loop.\<close>

definition delta_iteration ::
  "PowerModel \<Rightarrow> (Direction \<Rightarrow> int) \<Rightarrow> Direction \<Rightarrow> mobile_vars \<times> bool \<Rightarrow> (mobile_vars \<times> bool) result"
where
  "delta_iteration pm bytes i = (\<lambda>(m, state_change).
     bind_r (c_int (bytes i - mobile_last_bytes m i)) (\<lambda>delta.
     let (m, state_change) =
           (if (state_change \<or> mobile_state m \<noteq> MOBILE_POWER_STATE_DCH)
               \<and> delta \<ge> get_dch_threshold pm (i = DOWN)
            then (m\<lparr>mobile_state := MOBILE_POWER_STATE_DCH\<rparr>, True)
            else (m, state_change))
     in Ok (m\<lparr>mobile_last_delta_bytes := (mobile_last_delta_bytes m)(i := delta)\<rparr>, state_change)))"

definition delta_loop ::
  "PowerModel \<Rightarrow> (Direction \<Rightarrow> int) \<Rightarrow> mobile_vars \<Rightarrow> (mobile_vars \<times> bool) result" where
  "delta_loop pm bytes m =
     bind_r (delta_iteration pm bytes DOWN (m, False)) (delta_iteration pm bytes UP)"

text \<open>
  The two branches of \<open>update_mobile_state\<close>. Both return whether the state changed, whether
  there was activity, the variables and the clock position.
\<close>

definition sample_activity ::
  "PowerModel \<Rightarrow> env \<Rightarrow> (Direction \<Rightarrow> int) \<Rightarrow> mobile_vars \<Rightarrow> nat
   \<Rightarrow> (bool \<times> bool \<times> mobile_vars \<times> nat) result" where
  "sample_activity pm e bytes m k =
     (let m = m\<lparr>last_mobile_sample_time := clock e k\<rparr>; k = Suc k in
      bind_r
        (if mobile_last_bytes m DOWN \<noteq> - 1 then
           let m = m\<lparr>last_mobile_activity := clock e k\<rparr>; k = Suc k in
           bind_r (delta_loop pm bytes m) (\<lambda>(m, state_change).
           let down_queue = mobile_last_delta_bytes m DOWN;
               up_queue = mobile_last_delta_bytes m UP;
               (m, state_change) =
                 (if mobile_state m = MOBILE_POWER_STATE_IDLE
                  then (m\<lparr>mobile_state := MOBILE_POWER_STATE_FACH\<rparr>, True)
                  else (m, state_change));
               (m, state_change) =
                 (if down_queue > MOBILE_DCH_THRESHOLD_DOWN pm \<or> up_queue > MOBILE_DCH_THRESHOLD_UP pm
                  then (m\<lparr>mobile_state := MOBILE_POWER_STATE_DCH\<rparr>,
                        if mobile_state m \<noteq> MOBILE_POWER_STATE_DCH then True else state_change)
                  else (m, state_change))
           in Ok (state_change, True, m, k))
         else Ok (False, False, m, k))
        (\<lambda>(state_change, mobile_activity, m, k).
      Ok (state_change, mobile_activity,
          m\<lparr>mobile_last_bytes := (mobile_last_bytes m)(DOWN := bytes DOWN, UP := bytes UP)\<rparr>, k)))"

definition check_timeouts ::
  "PowerModel \<Rightarrow> env \<Rightarrow> mobile_vars \<Rightarrow> nat \<Rightarrow> (bool \<times> bool \<times> mobile_vars \<times> nat) result" where
  "check_timeouts pm e m k =
     (let m = m\<lparr>mobile_last_delta_bytes := (mobile_last_delta_bytes m)(DOWN := 0, UP := 0)\<rparr> in
      bind_r (time_since e (last_mobile_activity m) k) (\<lambda>(idle_time, k).
      if mobile_state m = MOBILE_POWER_STATE_DCH then
        if idle_time \<ge> MOBILE_DCH_INACTIVITY_TIMER pm then
          Ok (True, False, m\<lparr>mobile_state := MOBILE_POWER_STATE_FACH,
                             last_mobile_activity := clock e k\<rparr>, Suc k)
        else Ok (False, False, m, k)
      else if mobile_state m = MOBILE_POWER_STATE_FACH then
        if idle_time \<ge> MOBILE_FACH_INACTIVITY_TIMER pm then
          Ok (True, False, m\<lparr>mobile_state := MOBILE_POWER_STATE_IDLE\<rparr>, k)
        else Ok (False, False, m, k)
      else Ok (False, False, m, k)))"

definition account_state_change ::
  "env \<Rightarrow> MobileState \<Rightarrow> timeval \<Rightarrow> mobile_vars \<Rightarrow> nat \<Rightarrow> (mobile_vars \<times> nat) result" where
  "account_state_change e last_state now m k =
     bind_r
       (if tv_sec (last_mobile_state_change m) \<noteq> 0 then
          bind_r (TIMEDIFF (last_mobile_state_change m) now) (\<lambda>mobile_state_duration.
          bind_r (timeradd (time_in_mobile_state m last_state) mobile_state_duration) (\<lambda>t.
          Ok (m\<lparr>time_in_mobile_state := (time_in_mobile_state m)(last_state := t)\<rparr>)))
        else Ok m)
       (\<lambda>m. Ok (m\<lparr>last_mobile_state_change := clock e k\<rparr>, Suc k))"

definition update_idle_duration_for_state ::
  "MobileState \<Rightarrow> double \<Rightarrow> mobile_vars \<Rightarrow> mobile_vars result" where
  "update_idle_duration_for_state state idle_duration m =
     bind_r (c_int (idle_duration_update_counts m state + 1)) (\<lambda>n.
     Ok (m\<lparr>idle_durations_per_state :=
             (idle_durations_per_state m)(state := idle_durations_per_state m state + idle_duration),
           idle_duration_update_counts := (idle_duration_update_counts m)(state := n)\<rparr>))"

text \<open>
  The whole function: \<open>stats\<close> is the result of \<open>get_net_dev_stats\<close> on the cellular
  interface. The result is the return code, \<open>fire_callback\<close>, the variables and the clock
  position.
\<close>

definition update_mobile_state ::
  "PowerModel \<Rightarrow> env \<Rightarrow> int \<times> (Direction \<Rightarrow> int) \<Rightarrow> bool \<Rightarrow> mobile_vars \<Rightarrow> nat
   \<Rightarrow> (int \<times> bool \<times> mobile_vars \<times> nat) result" where
  "update_mobile_state pm e stats fire_callback m k = (case stats of (rc, bytes) \<Rightarrow>
     if rc < 0 then Ok (rc, fire_callback, m, k)
     else
       let last_state = mobile_state m; now = clock e k; k = Suc k in
       bind_r (TIMEDIFF (last_mobile_sample_time m) now) (\<lambda>time_since_last_sample.
       bind_r
         (if tv_sec time_since_last_sample \<ge> 1
             \<and> (bytes DOWN > mobile_last_bytes m DOWN \<or> bytes UP > mobile_last_bytes m UP)
          then sample_activity pm e bytes m k
          else check_timeouts pm e m k) (\<lambda>(state_change, mobile_activity, m, k).
       bind_r
         (if state_change then account_state_change e last_state now m k else Ok (m, k)) (\<lambda>(m, k).
       bind_r (time_since e (last_mobile_activity m) k) (\<lambda>(last_idle_duration, k).
       bind_r (update_idle_duration_for_state (mobile_state m) last_idle_duration m) (\<lambda>m.
       Ok (0, if mobile_activity then True else fire_callback, m, k)))))))"

subsection \<open>Averages per state\<close>

definition average_idle_duration_for_state :: "MobileState \<Rightarrow> mobile_vars \<Rightarrow> double" where
  "average_idle_duration_for_state state m =
     divide (idle_durations_per_state m state) (d_of_int (idle_duration_update_counts m state))"

fun total_time_loop :: "mobile_vars \<Rightarrow> MobileState list \<Rightarrow> timeval \<Rightarrow> timeval result" where
  "total_time_loop m [] total_time = Ok total_time"
| "total_time_loop m (i # is) total_time =
     bind_r (timeradd total_time (time_in_mobile_state m i)) (total_time_loop m is)"

text \<open>The two times of \<open>time_fraction_in_state\<close> before they are converted and divided.\<close>

definition state_and_total_time ::
  "env \<Rightarrow> MobileState \<Rightarrow> mobile_vars \<Rightarrow> nat \<Rightarrow> (timeval \<times> timeval) result" where
  "state_and_total_time e state m k =
     bind_r (total_time_loop m mobile_states timerclear) (\<lambda>total_time.
     let time_in_state = time_in_mobile_state m state; now = clock e k in
     bind_r (TIMEDIFF (last_mobile_state_change m) now) (\<lambda>mobile_state_duration.
     bind_r
       (if state = mobile_state m then timeradd time_in_state mobile_state_duration
        else Ok time_in_state) (\<lambda>time_in_state.
     bind_r (timeradd total_time mobile_state_duration) (\<lambda>total_time.
     Ok (time_in_state, total_time)))))"

definition time_fraction_in_state ::
  "env \<Rightarrow> MobileState \<Rightarrow> mobile_vars \<Rightarrow> nat \<Rightarrow> (double \<times> nat) result" where
  "time_fraction_in_state e state m k =
     bind_r (state_and_total_time e state m k) (\<lambda>(time_in_state, total_time).
     Ok (divide (convert_to_seconds time_in_state) (convert_to_seconds total_time), Suc k))"



subsection \<open>The invariant\<close>

definition tracked_us :: "mobile_vars \<Rightarrow> int" where
  "tracked_us m = tv_us (time_in_mobile_state m MOBILE_POWER_STATE_IDLE)
     + tv_us (time_in_mobile_state m MOBILE_POWER_STATE_FACH)
     + tv_us (time_in_mobile_state m MOBILE_POWER_STATE_DCH)"

text \<open>
  The time kept per state: the times are normalised, IDLE has at least its initial second, and
  their sum is at most the time of the last state change and that second.
\<close>

definition ledger_ok :: "int \<Rightarrow> mobile_vars \<Rightarrow> bool" where
  "ledger_ok t m \<longleftrightarrow>
     stamp_ok t (last_mobile_state_change m)
     \<and> (\<forall>s. norm_tv (time_in_mobile_state m s))
     \<and> 1000000 \<le> tv_us (time_in_mobile_state m MOBILE_POWER_STATE_IDLE)
     \<and> tracked_us m \<le> tv_us (last_mobile_state_change m) + 1000000"

definition mobile_inv :: "int \<Rightarrow> mobile_vars \<Rightarrow> bool" where
  "mobile_inv t m \<longleftrightarrow>
     stamp_ok t (last_mobile_activity m) \<and> stamp_ok t (last_mobile_sample_time m)
     \<and> ledger_ok t m
     \<and> (\<forall>s. 1 \<le> idle_duration_update_counts m s)
     \<and> (\<forall>s. Fin 0 \<le> idle_durations_per_state m s)
     \<and> (mobile_last_bytes m = (\<lambda>_. - 1) \<or> counts_ok (mobile_last_bytes m))"

lemma mobile_inv_mono: "mobile_inv t m \<Longrightarrow> t \<le> t' \<Longrightarrow> mobile_inv t' m"
  by (auto simp: mobile_inv_def ledger_ok_def intro: stamp_ok_mono)

lemma tracked_ge: "\<forall>s. norm_tv (time_in_mobile_state m s) \<Longrightarrow>
    tv_us (time_in_mobile_state m s) \<le> tracked_us m"
  by (cases s) (auto simp: tracked_us_def dest!: norm_tv_nonneg spec all_states [THEN iffD1])

lemma mobile_inv_init: "0 \<le> t \<Longrightarrow> mobile_inv t mobile_vars_init"
  by (simp add: mobile_inv_def ledger_ok_def mobile_vars_init_def stamp_ok_def norm_tv_def tracked_us_def
      tv_us_def timerclear_def valid_tv_def)

subsection \<open>The parts of an update\<close>

definition bytes_since :: "(Direction \<Rightarrow> int) \<Rightarrow> mobile_vars \<Rightarrow> Direction \<Rightarrow> int" where
  "bytes_since bytes m d = bytes d - mobile_last_bytes m d"

lemma in_int_diff: "0 \<le> a \<Longrightarrow> a < 2 ^ 31 \<Longrightarrow> 0 \<le> b \<Longrightarrow> b < 2 ^ 31 \<Longrightarrow> in_int (a - b)"
  by (simp add: in_int_def)

lemma delta_loop_Ok:
  fixes pm :: PowerModel
  assumes "counts_ok bytes" "counts_ok (mobile_last_bytes m)"
  defines "dch \<equiv> dch_traffic pm (bytes_since bytes m DOWN) (bytes_since bytes m UP)"
  shows "delta_loop pm bytes m =
    Ok (m\<lparr>mobile_state := (if dch then MOBILE_POWER_STATE_DCH else mobile_state m),
          mobile_last_delta_bytes := bytes_since bytes m\<rparr>,
        mobile_state m \<noteq> MOBILE_POWER_STATE_DCH \<and> dch)"
proof -
  have i: "in_int (bytes d - mobile_last_bytes m d)" for d
    using assms(1,2) by (auto simp: counts_ok_def intro!: in_int_diff)
  have u: "(mobile_last_delta_bytes m)(DOWN := a, UP := b) = bytes_since bytes m"
    if "a = bytes_since bytes m DOWN" "b = bytes_since bytes m UP" for a b
    using that by (auto simp: fun_eq_iff all_directions)
  show ?thesis
    using i [of DOWN] i [of UP]
    by (auto simp: delta_loop_def delta_iteration_def Let_def dch_def dch_traffic_def
        get_dch_threshold_def bytes_since_def fun_eq_iff all_directions intro!: mobile_vars.equality)
qed

lemma sample_activity_Ok:
  fixes pm :: PowerModel
  assumes "counts_ok bytes" "counts_ok (mobile_last_bytes m)"
  defines "s \<equiv> radio_next pm (Traffic (bytes_since bytes m DOWN) (bytes_since bytes m UP)) (mobile_state m)"
  shows "sample_activity pm e bytes m k =
    Ok (s \<noteq> mobile_state m, True,
        m\<lparr>mobile_state := s, last_mobile_sample_time := clock e k,
          last_mobile_activity := clock e (Suc k), mobile_last_bytes := bytes,
          mobile_last_delta_bytes := bytes_since bytes m\<rparr>, Suc (Suc k))"
proof -
  have nm: "mobile_last_bytes m DOWN \<noteq> - 1" using assms(2) by (auto simp: counts_ok_def dest: spec [of _ DOWN])
  let ?m = "m\<lparr>last_mobile_sample_time := clock e k, last_mobile_activity := clock e (Suc k)\<rparr>"
  have b: "bytes_since bytes ?m = bytes_since bytes m" by (simp add: bytes_since_def fun_eq_iff)
  have l: "counts_ok (mobile_last_bytes ?m)" using assms(2) by simp
  have u: "(mobile_last_bytes m)(DOWN := bytes DOWN, UP := bytes UP) = bytes"
    by (simp add: fun_eq_iff all_directions)
  show ?thesis
    using nm u unfolding sample_activity_def Let_def
    by (cases "mobile_state m")
       (auto simp: delta_loop_Ok [OF assms(1) l] b s_def max_FACH dch_traffic_def
         intro!: mobile_vars.equality)
qed

lemma sample_activity_first:
  assumes "mobile_last_bytes m = (\<lambda>_. - 1)"
  shows "sample_activity pm e bytes m k =
    Ok (False, False, m\<lparr>last_mobile_sample_time := clock e k, mobile_last_bytes := bytes\<rparr>, Suc k)"
  using assms
  by (auto simp: sample_activity_def Let_def fun_eq_iff all_directions intro!: mobile_vars.equality)


lemma check_timeouts_Ok:
  assumes "power_model pm" "steady e" "stamp_ok (tv_us (clock e k)) (last_mobile_activity m)"
  defines "us \<equiv> silent_us e (last_mobile_activity m) k"
  defines "s \<equiv> radio_next pm (Silence us) (mobile_state m)"
  defines "demoted \<equiv> mobile_state m = MOBILE_POWER_STATE_DCH \<and> s \<noteq> mobile_state m"
  shows "check_timeouts pm e m k =
    Ok (s \<noteq> mobile_state m, False,
        m\<lparr>mobile_state := s,
          last_mobile_activity := (if demoted then clock e (Suc k) else last_mobile_activity m),
          mobile_last_delta_bytes := (\<lambda>_. 0)\<rparr>, if demoted then Suc (Suc k) else Suc k)"
proof -
  obtain dur where dur: "valid_tv dur" "tv_us dur = us"
    "time_since e (last_mobile_activity m) k = Ok (convert_to_seconds dur, Suc k)"
    using time_since_Ok [OF assms(2), of "last_mobile_activity m" k] assms(3)
    by (auto simp: stamp_ok_def us_def silent_us_def)
  have z: "(mobile_last_delta_bytes m)(DOWN := 0, UP := 0) = (\<lambda>_. 0)"
    by (simp add: fun_eq_iff all_directions)
  show ?thesis
    using seconds_timer [OF dur(1)] dur
    by (cases "mobile_state m")
       (auto simp: check_timeouts_def Let_def power_model.timers [OF assms(1)] z s_def demoted_def timed_out_def
         intro!: mobile_vars.equality)
qed


lemma tracked_upd:
  "tracked_us (m\<lparr>time_in_mobile_state := (time_in_mobile_state m)(s := v)\<rparr>)
     = tracked_us m - tv_us (time_in_mobile_state m s) + tv_us v"
  by (cases s) (simp_all add: tracked_us_def)


definition ledger_time :: "MobileState \<Rightarrow> int \<Rightarrow> mobile_vars \<Rightarrow> int" where
  "ledger_time s now m = tv_us (time_in_mobile_state m s)
     + (if tv_sec (last_mobile_state_change m) = 0 then 0
        else now - tv_us (last_mobile_state_change m))"

lemma account_state_change_Ok:
  assumes "ledger_ok (tv_us now) m" "valid_tv now"
  shows "\<exists>t. account_state_change e s now m k =
      Ok (m\<lparr>time_in_mobile_state := (time_in_mobile_state m)(s := t),
            last_mobile_state_change := clock e k\<rparr>, Suc k)
    \<and> norm_tv t \<and> tv_us t = ledger_time s (tv_us now) m"
proof (cases "tv_sec (last_mobile_state_change m) = 0")
  case True
  then show ?thesis
    using assms(1) unfolding ledger_time_def
    by (intro exI [of _ "time_in_mobile_state m s"])
       (simp add: account_state_change_def ledger_ok_def)
next
  case False
  have inv: "stamp_ok (tv_us now) (last_mobile_state_change m)"
    "\<forall>s. norm_tv (time_in_mobile_state m s)"
    "tracked_us m \<le> tv_us (last_mobile_state_change m) + 1000000"
    using assms(1) by (simp_all add: ledger_ok_def)
  then obtain d where d: "TIMEDIFF (last_mobile_state_change m) now = Ok d" "valid_tv d"
      "tv_us d = tv_us now - tv_us (last_mobile_state_change m)"
    using TIMEDIFF_Ok [of "last_mobile_state_change m" now] assms(2) by (auto simp: stamp_ok_def)
  have n: "norm_tv (time_in_mobile_state m s)" using inv(2) by simp
  moreover have "tv_sec (time_in_mobile_state m s) < 2 ^ 62"
    using tracked_ge [OF inv(2), of s] inv(1,3) n
    by (auto simp: stamp_ok_def tv_us_def valid_tv_def norm_tv_def)
  ultimately obtain t where t: "timeradd (time_in_mobile_state m s) d = Ok t" "norm_tv t"
      "tv_us t = tv_us (time_in_mobile_state m s) + tv_us d"
    using timeradd_Ok [of "time_in_mobile_state m s" d] d(2) by (auto simp: norm_tv_def)
  with False d show ?thesis
    by (intro exI [of _ t]) (simp add: account_state_change_def ledger_time_def)
qed

lemma ledger_ok_accounted:
  assumes "ledger_ok (tv_us now) m" "valid_tv c" "tv_us now \<le> tv_us c"
    and "norm_tv t" "tv_us t = ledger_time s (tv_us now) m"
  shows "ledger_ok (tv_us c) (m\<lparr>time_in_mobile_state := (time_in_mobile_state m)(s := t),
            last_mobile_state_change := c\<rparr>)" (is "ledger_ok _ ?m")
proof -
  have le: "tv_us (last_mobile_state_change m) \<le> tv_us now"
    using assms(1) by (simp add: ledger_ok_def stamp_ok_def)
  have "tracked_us ?m = tracked_us m - tv_us (time_in_mobile_state m s) + tv_us t"
    using tracked_upd [of m s t] by (simp add: tracked_us_def)
  also have "\<dots> \<le> tv_us c + 1000000"
    using assms(1,3,5) le by (auto simp: ledger_ok_def ledger_time_def split: if_splits)
  finally have tr: "tracked_us ?m \<le> tv_us c + 1000000" .
  have "tv_us (time_in_mobile_state m s) \<le> tv_us t"
    using assms(5) le by (auto simp: ledger_time_def)
  then show ?thesis
    using assms(1-4) tr le by (auto simp: ledger_ok_def stamp_ok_def)
qed

lemma update_idle_Ok:
  assumes "idle_duration_update_counts m s < 2 ^ 31 - 1" "1 \<le> idle_duration_update_counts m s"
  shows "update_idle_duration_for_state s dur m =
    Ok (m\<lparr>idle_durations_per_state :=
             (idle_durations_per_state m)(s := idle_durations_per_state m s + dur),
          idle_duration_update_counts :=
             (idle_duration_update_counts m)(s := idle_duration_update_counts m s + 1)\<rparr>)"
  using assms by (simp add: update_idle_duration_for_state_def in_int_def)



subsection \<open>The event an update observes\<close>

text \<open>\<open>due\<close>: a second has passed since the last sample and a counter has grown.\<close>

definition due :: "env \<Rightarrow> (Direction \<Rightarrow> int) \<Rightarrow> mobile_vars \<Rightarrow> nat \<Rightarrow> bool" where
  "due e bytes m k \<longleftrightarrow> silent_us e (last_mobile_sample_time m) k \<ge> 1000000
     \<and> (\<exists>d. bytes d > mobile_last_bytes m d)"

definition mobile_event ::
  "env \<Rightarrow> (Direction \<Rightarrow> int) \<Rightarrow> mobile_vars \<Rightarrow> nat \<Rightarrow> radio_event option" where
  "mobile_event e bytes m k =
     (if due e bytes m k then
        if mobile_last_bytes m DOWN = - 1 then None
        else Some (Traffic (bytes_since bytes m DOWN) (bytes_since bytes m UP))
      else Some (Silence (silent_us e (last_mobile_activity m) (Suc k))))"

definition handset_next :: "PowerModel \<Rightarrow> env \<Rightarrow> (Direction \<Rightarrow> int) \<Rightarrow> mobile_vars \<Rightarrow> nat \<Rightarrow> MobileState" where
  "handset_next pm e bytes m k =
     (case mobile_event e bytes m k of None \<Rightarrow> mobile_state m
      | Some ev \<Rightarrow> radio_next pm ev (mobile_state m))"

text \<open>The variables after the first half of the update.\<close>

definition handset_mid ::
  "PowerModel \<Rightarrow> env \<Rightarrow> (Direction \<Rightarrow> int) \<Rightarrow> mobile_vars \<Rightarrow> nat \<Rightarrow> mobile_vars" where
  "handset_mid pm e bytes m k =
     (let s = handset_next pm e bytes m k in
      case mobile_event e bytes m k of
        None \<Rightarrow> m\<lparr>last_mobile_sample_time := clock e (Suc k), mobile_last_bytes := bytes\<rparr>
      | Some (Traffic d u) \<Rightarrow>
          m\<lparr>mobile_state := s, last_mobile_sample_time := clock e (Suc k),
            last_mobile_activity := clock e (Suc (Suc k)), mobile_last_bytes := bytes,
            mobile_last_delta_bytes := bytes_since bytes m\<rparr>
      | Some (Silence us) \<Rightarrow>
          m\<lparr>mobile_state := s,
            last_mobile_activity :=
              (if mobile_state m = MOBILE_POWER_STATE_DCH \<and> s \<noteq> mobile_state m
               then clock e (Suc (Suc k)) else last_mobile_activity m),
            mobile_last_delta_bytes := (\<lambda>_. 0)\<rparr>)"

lemma first_half:
  assumes "power_model pm" "steady e" "mobile_inv (tv_us (clock e k)) m" "counts_ok bytes"
    and "TIMEDIFF (last_mobile_sample_time m) (clock e k) = Ok d"
  shows "\<exists>j. (if tv_sec d \<ge> 1
         \<and> (bytes DOWN > mobile_last_bytes m DOWN \<or> bytes UP > mobile_last_bytes m UP)
       then sample_activity pm e bytes m (Suc k) else check_timeouts pm e m (Suc k)) =
     Ok (handset_next pm e bytes m k \<noteq> mobile_state m,
         \<exists>x y. mobile_event e bytes m k = Some (Traffic x y), handset_mid pm e bytes m k, j)
     \<and> Suc (Suc k) \<le> j \<and> j \<le> k + 3
     \<and> stamp_ok (tv_us (clock e j)) (last_mobile_activity (handset_mid pm e bytes m k))
     \<and> stamp_ok (tv_us (clock e j)) (last_mobile_sample_time (handset_mid pm e bytes m k))"
proof -
  have st: "stamp_ok (tv_us (clock e k)) (last_mobile_activity m)"
     "stamp_ok (tv_us (clock e k)) (last_mobile_sample_time m)"
     "mobile_last_bytes m = (\<lambda>_. - 1) \<or> counts_ok (mobile_last_bytes m)"
    using assms(3) by (simp_all add: mobile_inv_def)
  have up: "stamp_ok (tv_us (clock e j)) v" if "stamp_ok (tv_us (clock e k)) v" "k \<le> j" for v j
    using that assms(2) by (auto intro: stamp_ok_mono steady_mono)
  note clk = stamp_ok_clock [OF assms(2)]
  from TIMEDIFF_OkD [OF assms(5)] st(2) assms(2)
  have d: "valid_tv d" "tv_us d = silent_us e (last_mobile_sample_time m) k"
    by (auto simp: stamp_ok_def silent_us_def)
  have due: "tv_sec d \<ge> 1 \<and> (bytes DOWN > mobile_last_bytes m DOWN \<or> bytes UP > mobile_last_bytes m UP)
     \<longleftrightarrow> due e bytes m k"
    using d by (auto simp: due_def tv_us_def valid_tv_def) (metis Direction.exhaust)+
  show ?thesis
  proof (cases "due e bytes m k")
    case True
    show ?thesis
    proof (cases "counts_ok (mobile_last_bytes m)")
      case known: True
      then have nm: "mobile_last_bytes m DOWN \<noteq> - 1" by (auto simp: counts_ok_def dest: spec [of _ DOWN])
      show ?thesis
        unfolding due using True nm clk
        by (simp add: sample_activity_Ok [OF assms(4) known] handset_next_def handset_mid_def
            mobile_event_def)
    next
      case False
      with st have nm: "mobile_last_bytes m = (\<lambda>_. - 1)" by simp
      show ?thesis
        unfolding due using True nm clk up [OF st(1)]
        by (simp add: sample_activity_first [OF nm] handset_next_def handset_mid_def mobile_event_def)
    qed
  next
    case False
    from check_timeouts_Ok [OF assms(1,2) up [OF st(1), of "Suc k"]]
    show ?thesis
      unfolding due using False clk up [OF st(1)] up [OF st(2)]
      by (auto simp: handset_next_def handset_mid_def mobile_event_def Let_def)
  qed
qed


lemma handset_mid_sel [simp]:
  "mobile_state (handset_mid pm e bytes m k) = handset_next pm e bytes m k"
  "last_mobile_state_change (handset_mid pm e bytes m k) = last_mobile_state_change m"
  "time_in_mobile_state (handset_mid pm e bytes m k) = time_in_mobile_state m"
  "idle_durations_per_state (handset_mid pm e bytes m k) = idle_durations_per_state m"
  "idle_duration_update_counts (handset_mid pm e bytes m k) = idle_duration_update_counts m"
  by (auto simp: handset_mid_def handset_next_def Let_def split: option.splits radio_event.splits)

lemma handset_mid_ledger [simp]: "ledger_ok t (handset_mid pm e bytes m k) = ledger_ok t m"
  by (simp add: ledger_ok_def tracked_us_def)

lemma handset_mid_ledger_time [simp]:
  "ledger_time s t (handset_mid pm e bytes m k) = ledger_time s t m"
  by (simp add: ledger_time_def)

lemma handset_mid_bytes:
  assumes "mobile_last_bytes m = (\<lambda>_. - 1) \<or> counts_ok (mobile_last_bytes m)" "counts_ok bytes"
  shows "mobile_last_bytes (handset_mid pm e bytes m k) = (\<lambda>_. - 1)
     \<or> counts_ok (mobile_last_bytes (handset_mid pm e bytes m k))"
  using assms
  by (auto simp: handset_mid_def Let_def split: option.splits radio_event.splits)

subsection \<open>The whole update\<close>

text \<open>
  How the variables \<open>m'\<close> after an update follow from those before it. Only the time of the
  state that is left grows, and only the idle average of the new state counts the update.
\<close>

definition updated_from ::
  "PowerModel \<Rightarrow> env \<Rightarrow> (Direction \<Rightarrow> int) \<Rightarrow> mobile_vars \<Rightarrow> nat \<Rightarrow> mobile_vars \<Rightarrow> nat \<Rightarrow> bool" where
  "updated_from pm e bytes m k m' j \<longleftrightarrow>
     (let mid = handset_mid pm e bytes m k in
      mobile_state m' = handset_next pm e bytes m k
      \<and> last_mobile_activity m' = last_mobile_activity mid
      \<and> last_mobile_sample_time m' = last_mobile_sample_time mid
      \<and> mobile_last_bytes m' = mobile_last_bytes mid
      \<and> mobile_last_delta_bytes m' = mobile_last_delta_bytes mid
      \<and> (\<forall>s. tv_us (time_in_mobile_state m' s)
          = (if s = mobile_state m \<and> mobile_state m' \<noteq> mobile_state m
             then ledger_time s (tv_us (clock e k)) m else tv_us (time_in_mobile_state m s)))
      \<and> (\<forall>s. idle_duration_update_counts m' s
          = idle_duration_update_counts m s + (if s = mobile_state m' then 1 else 0))
      \<and> (\<exists>i. k + 2 \<le> i \<and> i < j \<and> last_mobile_state_change m'
          = (if mobile_state m' \<noteq> mobile_state m then clock e i else last_mobile_state_change m)))"


lemma second_half:
  fixes pm :: PowerModel
  defines "mid \<equiv> \<lambda>e bytes m k. handset_mid pm e bytes m k"
  assumes "steady e" "mobile_inv (tv_us (clock e k)) m" "k + 2 \<le> i"
    and "stamp_ok (tv_us (clock e i)) (last_mobile_activity (mid e bytes m k))"
  shows "\<exists>m' j. (if handset_next pm e bytes m k \<noteq> mobile_state m
        then account_state_change e (mobile_state m) (clock e k) (mid e bytes m k) i
        else Ok (mid e bytes m k, i)) = Ok (m', j)
     \<and> i \<le> j \<and> j \<le> Suc i \<and> ledger_ok (tv_us (clock e j)) m'
     \<and> m' = (mid e bytes m k)\<lparr>time_in_mobile_state := time_in_mobile_state m',
            last_mobile_state_change := last_mobile_state_change m'\<rparr>
     \<and> (\<forall>s. tv_us (time_in_mobile_state m' s)
          = (if s = mobile_state m \<and> handset_next pm e bytes m k \<noteq> mobile_state m
             then ledger_time s (tv_us (clock e k)) m else tv_us (time_in_mobile_state m s)))
     \<and> last_mobile_state_change m'
          = (if handset_next pm e bytes m k \<noteq> mobile_state m then clock e i
             else last_mobile_state_change m)"
proof -
  have lk: "ledger_ok (tv_us (clock e k)) m" using assms(3) by (simp add: mobile_inv_def)
  have le: "tv_us (clock e k) \<le> tv_us (clock e i)" using assms(2,4) by (intro steady_mono) simp_all
  have li: "ledger_ok (tv_us (clock e i)) m"
    using lk le by (auto simp: ledger_ok_def intro: stamp_ok_mono)
  show ?thesis
  proof (cases "handset_next pm e bytes m k = mobile_state m")
    case True
    with li show ?thesis by (auto simp: mid_def intro!: exI [of _ i] mobile_vars.equality)
  next
    case False
    let ?m = "handset_mid pm e bytes m k"
    obtain t where t: "account_state_change e (mobile_state m) (clock e k) ?m i =
        Ok (?m\<lparr>time_in_mobile_state := (time_in_mobile_state ?m)(mobile_state m := t),
            last_mobile_state_change := clock e i\<rparr>, Suc i)" "norm_tv t"
        "tv_us t = ledger_time (mobile_state m) (tv_us (clock e k)) m"
      using account_state_change_Ok [of "clock e k" ?m e "mobile_state m" i] lk assms(2) by auto
    have "ledger_ok (tv_us (clock e i)) (?m\<lparr>time_in_mobile_state := (time_in_mobile_state ?m)(mobile_state m := t),
            last_mobile_state_change := clock e i\<rparr>)"
      using t lk le assms(2) by (intro ledger_ok_accounted [of "clock e k"]) simp_all
    moreover have "tv_us (clock e i) \<le> tv_us (clock e (Suc i))" using assms(2) by (simp add: steady_mono)
    ultimately have "ledger_ok (tv_us (clock e (Suc i))) (?m\<lparr>time_in_mobile_state := (time_in_mobile_state ?m)(mobile_state m := t),
            last_mobile_state_change := clock e i\<rparr>)"
      by (auto simp: ledger_ok_def intro: stamp_ok_mono)
    with t False show ?thesis
      by (auto simp: mid_def intro!: mobile_vars.equality)
  qed
qed

lemma update_mobile_state_step:
  assumes "power_model pm" "steady e" "mobile_inv (tv_us (clock e k)) m" "counts_ok bytes"
    and "\<forall>s. idle_duration_update_counts m s < 2 ^ 31 - 1" "0 \<le> rc"
  shows "\<exists>m' j. update_mobile_state pm e (rc, bytes) fire m k
      = Ok (0, fire \<or> (\<exists>x y. mobile_event e bytes m k = Some (Traffic x y)), m', j)
    \<and> k < j \<and> j \<le> k + 5 \<and> mobile_inv (tv_us (clock e j)) m' \<and> updated_from pm e bytes m k m' j"
proof -
  have st: "stamp_ok (tv_us (clock e k)) (last_mobile_sample_time m)"
    "mobile_last_bytes m = (\<lambda>_. - 1) \<or> counts_ok (mobile_last_bytes m)"
    "\<forall>s. 1 \<le> idle_duration_update_counts m s" "\<forall>s. Fin 0 \<le> idle_durations_per_state m s"
    using assms(3) by (simp_all add: mobile_inv_def)
  then obtain d where d: "TIMEDIFF (last_mobile_sample_time m) (clock e k) = Ok d"
    using TIMEDIFF_Ok [of "last_mobile_sample_time m" "clock e k"] assms(2)
    by (auto simp: stamp_ok_def)
  let ?mid = "handset_mid pm e bytes m k" and ?s = "handset_next pm e bytes m k"
  from first_half [OF assms(1-4) d] obtain i where i:
    "(if tv_sec d \<ge> 1 \<and> (bytes DOWN > mobile_last_bytes m DOWN \<or> bytes UP > mobile_last_bytes m UP)
       then sample_activity pm e bytes m (Suc k) else check_timeouts pm e m (Suc k)) =
     Ok (?s \<noteq> mobile_state m, \<exists>x y. mobile_event e bytes m k = Some (Traffic x y), ?mid, i)"
    "k + 2 \<le> i" "i \<le> k + 3"
    "stamp_ok (tv_us (clock e i)) (last_mobile_activity ?mid)"
    "stamp_ok (tv_us (clock e i)) (last_mobile_sample_time ?mid)"
    by auto
  from second_half [OF assms(2,3) i(2,4)] obtain m2 j where j:
    "(if ?s \<noteq> mobile_state m
        then account_state_change e (mobile_state m) (clock e k) ?mid i
        else Ok (?mid, i)) = Ok (m2, j)"
    "i \<le> j" "j \<le> Suc i" "ledger_ok (tv_us (clock e j)) m2"
    "m2 = ?mid\<lparr>time_in_mobile_state := time_in_mobile_state m2,
            last_mobile_state_change := last_mobile_state_change m2\<rparr>"
    "\<forall>s. tv_us (time_in_mobile_state m2 s)
          = (if s = mobile_state m \<and> ?s \<noteq> mobile_state m
             then ledger_time s (tv_us (clock e k)) m else tv_us (time_in_mobile_state m s))"
    "last_mobile_state_change m2 = (if ?s \<noteq> mobile_state m then clock e i
             else last_mobile_state_change m)"
    by blast
  have sel: "mobile_state m2 = ?s" "last_mobile_activity m2 = last_mobile_activity ?mid"
    "last_mobile_sample_time m2 = last_mobile_sample_time ?mid"
    "mobile_last_bytes m2 = mobile_last_bytes ?mid"
    "mobile_last_delta_bytes m2 = mobile_last_delta_bytes ?mid"
    "idle_durations_per_state m2 = idle_durations_per_state m"
    "idle_duration_update_counts m2 = idle_duration_update_counts m"
    by (subst j(5), simp)+
  have le: "tv_us (clock e i) \<le> tv_us (clock e j)" "tv_us (clock e j) \<le> tv_us (clock e (Suc j))"
    using assms(2) j(2) by (simp_all add: steady_mono)
  have act: "stamp_ok (tv_us (clock e j)) (last_mobile_activity m2)"
    using i(4) le(1) by (simp add: sel stamp_ok_mono)
  then obtain dur where dur: "valid_tv dur" "time_since e (last_mobile_activity m2) j
      = Ok (convert_to_seconds dur, Suc j)"
    using time_since_Ok [OF assms(2)] by (metis stamp_ok_def)
  define m3 where "m3 = m2\<lparr>idle_durations_per_state :=
             (idle_durations_per_state m2)(?s := idle_durations_per_state m2 ?s + convert_to_seconds dur),
          idle_duration_update_counts :=
             (idle_duration_update_counts m2)(?s := idle_duration_update_counts m2 ?s + 1)\<rparr>"
  have upd: "update_idle_duration_for_state (mobile_state m2) (convert_to_seconds dur) m2 = Ok m3"
    using assms(5) st(3) by (simp add: update_idle_Ok sel(1,7) m3_def)
  have run: "update_mobile_state pm e (rc, bytes) fire m k
      = Ok (0, fire \<or> (\<exists>x y. mobile_event e bytes m k = Some (Traffic x y)), m3, Suc j)"
  proof -
    have rc: "(rc < 0) = False" using assms(6) by simp
    have or: "(if b then True else fire) = (fire \<or> b)" for b by simp
    show ?thesis
      by (simp only: update_mobile_state_def prod.case Let_def rc if_False d i(1) j(1) dur(2) upd
          bind_r_Ok or)
  qed
  have "stamp_ok (tv_us (clock e (Suc j))) (last_mobile_activity m3)"
    "stamp_ok (tv_us (clock e (Suc j))) (last_mobile_sample_time m3)"
    "ledger_ok (tv_us (clock e (Suc j))) m3"
    using act i(5) j(4) le
    by (auto simp: m3_def sel ledger_ok_def tracked_us_def intro: stamp_ok_mono)
  moreover have "\<forall>s. 0 \<le> idle_duration_update_counts m s"
    using st(3) by (meson order_trans zero_le_one)
  then have "\<forall>s. 1 \<le> idle_duration_update_counts m3 s" "\<forall>s. Fin 0 \<le> idle_durations_per_state m3 s"
    "mobile_last_bytes m3 = (\<lambda>_. - 1) \<or> counts_ok (mobile_last_bytes m3)"
    using st handset_mid_bytes [OF st(2) assms(4)] seconds_nonneg [OF dur(1)]
    by (auto simp: m3_def sel intro: order_trans [of 1])
  ultimately have "mobile_inv (tv_us (clock e (Suc j))) m3" by (simp add: mobile_inv_def)
  moreover have "updated_from pm e bytes m k m3 (Suc j)"
    using j(2,6,7) i(2) by (auto simp: updated_from_def Let_def m3_def sel)
  ultimately show ?thesis using run i(2,3) j(2,3) by auto
qed

lemma average_idle_nonneg:
  assumes "mobile_inv t m" "idle_duration_update_counts m s < 2 ^ 31"
  shows "Fin 0 \<le> average_idle_duration_for_state s m"
proof -
  have "1 \<le> idle_duration_update_counts m s" "Fin 0 \<le> idle_durations_per_state m s"
    using assms(1) by (simp_all add: mobile_inv_def)
  then show ?thesis
    using assms(2) by (simp add: average_idle_duration_for_state_def d_of_int_Fin)
qed


subsection \<open>The fraction of time per state\<close>

lemma state_and_total_time_Ok:
  assumes "steady e" "mobile_inv (tv_us (clock e k)) m"
  shows "\<exists>a b. state_and_total_time e s m k = Ok (a, b) \<and> norm_tv a \<and> norm_tv b
    \<and> tv_us a = tv_us (time_in_mobile_state m s)
        + (if s = mobile_state m then silent_us e (last_mobile_state_change m) k else 0)
    \<and> tv_us b = tracked_us m + silent_us e (last_mobile_state_change m) k
    \<and> tv_us b < 2 ^ 61"
proof -
  have inv: "stamp_ok (tv_us (clock e k)) (last_mobile_state_change m)"
    "\<And>s. norm_tv (time_in_mobile_state m s)"
    "tracked_us m \<le> tv_us (last_mobile_state_change m) + 1000000"
    using assms(2) by (simp_all add: mobile_inv_def ledger_ok_def)
  have vc: "tv_us (clock e k) < 2 ^ 60" using assms(1) steady_valid [of e k]
    by (simp add: valid_tv_def tv_us_def)
  obtain d where d: "TIMEDIFF (last_mobile_state_change m) (clock e k) = Ok d" "valid_tv d"
    "tv_us d = silent_us e (last_mobile_state_change m) k"
    using TIMEDIFF_Ok [of "last_mobile_state_change m" "clock e k"] assms(1) inv(1)
    by (auto simp: stamp_ok_def silent_us_def)
  have dn: "norm_tv d" using d(2) by (simp add: valid_tv_def norm_tv_def)
  have lc0: "0 \<le> tv_us (last_mobile_state_change m)"
    using inv(1) by (auto simp: stamp_ok_def intro: tv_us_nonneg)
  have T: "tracked_us m + tv_us d < 2 ^ 61"
    using inv(1,3) vc d(3) by (simp add: stamp_ok_def silent_us_def)
  have nn: "0 \<le> tv_us (time_in_mobile_state m x)" for x using inv(2) by (rule norm_tv_nonneg)
  have d0: "0 \<le> tv_us d" using d(2) by (rule tv_us_nonneg)
  let ?t = "time_in_mobile_state m"
  have bound: "tv_us (?t x) + tv_us d < 2 ^ 61" for x
    using tracked_ge [of m x] inv(2) T by simp
  note tr = tracked_us_def
  obtain t1 where t1: "timeradd timerclear (?t MOBILE_POWER_STATE_IDLE) = Ok t1" "norm_tv t1"
      "tv_us t1 = tv_us (?t MOBILE_POWER_STATE_IDLE)"
    using timeradd_norm [of timerclear "?t MOBILE_POWER_STATE_IDLE"] inv(2) bound [of MOBILE_POWER_STATE_IDLE] d0
    by (auto simp: norm_tv_def timerclear_def tv_us_def)
  obtain t2 where t2: "timeradd t1 (?t MOBILE_POWER_STATE_FACH) = Ok t2" "norm_tv t2"
      "tv_us t2 = tv_us t1 + tv_us (?t MOBILE_POWER_STATE_FACH)"
    using timeradd_norm [of t1 "?t MOBILE_POWER_STATE_FACH"] inv(2) t1(2,3)
      bound [of MOBILE_POWER_STATE_IDLE] bound [of MOBILE_POWER_STATE_FACH] d0 by auto
  obtain t3 where t3: "timeradd t2 (?t MOBILE_POWER_STATE_DCH) = Ok t3" "norm_tv t3"
      "tv_us t3 = tracked_us m"
    using timeradd_norm [of t2 "?t MOBILE_POWER_STATE_DCH"] inv(2) t1(3) t2(2,3)
      nn [of MOBILE_POWER_STATE_DCH] bound [of MOBILE_POWER_STATE_DCH] d0 T by (auto simp: tr)
  obtain b where b: "timeradd t3 d = Ok b" "norm_tv b" "tv_us b = tracked_us m + tv_us d"
  proof -
    have "0 \<le> tracked_us m" using nn by (simp add: tr)
    then show ?thesis using that timeradd_norm [of t3 d] t3 dn T d0 by auto
  qed
  obtain a where a: "(if s = mobile_state m then timeradd (?t s) d else Ok (?t s)) = Ok a"
      "norm_tv a" "tv_us a = tv_us (?t s) + (if s = mobile_state m then tv_us d else 0)"
    using timeradd_norm [of "?t s" d] dn inv(2) [of s] bound [of s] d0 nn [of s] that
    by (cases "s = mobile_state m") auto
  have "state_and_total_time e s m k = Ok (a, b)"
    by (simp only: state_and_total_time_def mobile_states_def total_time_loop.simps t1(1) t2(1) t3(1)
        b(1) a(1) d(1) bind_r_Ok Let_def)
  with a b d(3) T show ?thesis by auto
qed


lemma time_fraction_Ok:
  assumes "steady e" "mobile_inv (tv_us (clock e k)) m"
  shows "\<exists>q. time_fraction_in_state e s m k = Ok (Fin q, Suc k) \<and> 0 \<le> q \<and> q \<le> 1"
proof -
  obtain a b where ab: "state_and_total_time e s m k = Ok (a, b)" "norm_tv a" "norm_tv b"
    "tv_us a = tv_us (time_in_mobile_state m s)
        + (if s = mobile_state m then silent_us e (last_mobile_state_change m) k else 0)"
    "tv_us b = tracked_us m + silent_us e (last_mobile_state_change m) k" "tv_us b < 2 ^ 61"
    using state_and_total_time_Ok [OF assms] by blast
  have inv: "\<forall>s. norm_tv (time_in_mobile_state m s)"
    "1000000 \<le> tv_us (time_in_mobile_state m MOBILE_POWER_STATE_IDLE)"
    "0 \<le> silent_us e (last_mobile_state_change m) k"
    using assms(2) by (auto simp: mobile_inv_def ledger_ok_def stamp_ok_def silent_us_def)
  have le: "tv_us a \<le> tv_us b" "1000000 \<le> tv_us b"
    using ab(4,5) inv tracked_ge [OF inv(1)] by (auto intro: add_mono order_trans add_increasing2)
  have sec: "tv_sec b < 2 ^ 52" "1 \<le> tv_sec b"
    using ab(3,6) le(2) by (auto simp: norm_tv_def tv_us_def)
  have ca: "Fin 0 \<le> convert_to_seconds a"
    using ab(2) by (simp add: convert_to_seconds_def norm_tv_def d_of_int_def)
  have cab: "convert_to_seconds a \<le> convert_to_seconds b"
    using seconds_mono [OF ab(2,3) le(1) sec(1)] .
  have "Fin 1 \<le> convert_to_seconds b"
  proof -
    have "convert_to_seconds \<lparr>tv_sec = 1, tv_usec = 0\<rparr> \<le> convert_to_seconds b"
      using ab(3) le(2) sec(1) by (intro seconds_mono) (simp_all add: norm_tv_def tv_us_def)
    moreover have "convert_to_seconds \<lparr>tv_sec = 1, tv_usec = 0\<rparr> = Fin 1"
      by (simp add: convert_to_seconds_def d_of_int_def)
    ultimately show ?thesis by simp
  qed
  moreover have "convert_to_seconds b \<noteq> PInf"
  proof -
    have "d_of_int (tv_sec b) \<le> Fin (2 ^ 52)" "Fin 0 \<le> d_of_int (tv_sec b)"
      using sec of_int_le_power_mono [of "tv_sec b" 52] by (auto simp: d_of_int_Fin)
    have "convert_to_seconds b \<le> convert_to_seconds \<lparr>tv_sec = 2 ^ 51, tv_usec = 0\<rparr>"
      using ab(3,6) by (intro seconds_mono) (simp_all add: norm_tv_def tv_us_def)
    also have "convert_to_seconds \<lparr>tv_sec = 2 ^ 51, tv_usec = 0\<rparr> = Fin (2 ^ 51)"
      using to_double_of_int [of "2 ^ 51"]
      by (simp add: convert_to_seconds_def d_of_int_def)
    finally show ?thesis by auto
  qed
  ultimately obtain B where B: "convert_to_seconds b = Fin B" "1 \<le> B"
    by (cases "convert_to_seconds b") auto
  with d_divide_le_1 [OF ca, of B] cab ab(1) show ?thesis
    by (auto simp: time_fraction_in_state_def)
qed

subsection \<open>Updates without traffic\<close>

definition handset_quiet ::
  "PowerModel \<Rightarrow> env \<Rightarrow> nat \<Rightarrow> mobile_vars \<Rightarrow> (mobile_vars \<times> nat) result" where
  "handset_quiet pm e k m =
     bind_r (update_mobile_state pm e (0, mobile_last_bytes m) False m k) (\<lambda>(_, _, m, k). Ok (m, k))"

definition handset_ok :: "PowerModel \<Rightarrow> nat \<Rightarrow> int \<Rightarrow> mobile_vars \<Rightarrow> bool" where
  "handset_ok pm n t m \<longleftrightarrow> power_model pm \<and> mobile_inv t m \<and> counts_ok (mobile_last_bytes m)
     \<and> (\<forall>s. idle_duration_update_counts m s + int n < 2 ^ 31)"

lemma quiet_event: "mobile_event e (mobile_last_bytes m) m k =
    Some (Silence (silent_us e (last_mobile_activity m) (Suc k)))"
  by (simp add: mobile_event_def due_def)

interpretation handset: radio_timeouts
  "handset_quiet pm" mobile_state last_mobile_activity "handset_ok pm" for pm
proof (unfold_locales, goal_cases)
  case (1 n t m)
  then show ?case by (simp add: handset_ok_def mobile_inv_def stamp_ok_def)
next
  case (2 e n k m)
  from 2(2) have pre: "power_model pm" "mobile_inv (tv_us (clock e k)) m"
    "counts_ok (mobile_last_bytes m)" "\<forall>s. idle_duration_update_counts m s + int n + 1 < 2 ^ 31"
    by (auto simp: handset_ok_def add.assoc add.commute [of 1])
  have "idle_duration_update_counts m s < 2 ^ 31 - 1" for s
    using spec [OF pre(4), of s] by linarith
  with update_mobile_state_step [OF pre(1) 2(1) pre(2,3), of 0 False] obtain m' j where
    m': "handset_quiet pm e k m = Ok (m', j)" "k < j" "j \<le> k + 5"
      "mobile_inv (tv_us (clock e j)) m'" "updated_from pm e (mobile_last_bytes m) m k m' j"
    by (auto simp: handset_quiet_def)
  then have le: "idle_duration_update_counts m' s \<le> idle_duration_update_counts m s + 1" for s
    by (simp add: updated_from_def Let_def)
  have "idle_duration_update_counts m' s + int n < 2 ^ 31" for s
    using spec [OF pre(4), of s] le [of s] by linarith
  with m' have "handset_ok pm n (tv_us (clock e j)) m'"
    using pre by (auto simp: handset_ok_def updated_from_def handset_mid_def quiet_event Let_def)
  then show ?case
    using m' by (intro exI [of _ m'] exI [of _ "Suc k"] exI [of _ j])
      (auto simp: updated_from_def handset_mid_def handset_next_def quiet_event Let_def)
qed

subsection \<open>Properties\<close>

text \<open>A handset that has sampled once, for the witnesses.\<close>

definition sampled_once :: mobile_vars where
  "sampled_once = mobile_vars_init\<lparr>mobile_last_bytes := (\<lambda>_. 0)\<rparr>"

lemma sampled_once_inv [simp]: "0 \<le> t \<Longrightarrow> mobile_inv t sampled_once"
  using mobile_inv_init [of t]
  by (simp add: sampled_once_def mobile_inv_def ledger_ok_def tracked_us_def)

lemma sampled_once_sel [simp]:
  "mobile_state sampled_once = MOBILE_POWER_STATE_IDLE" "last_mobile_activity sampled_once = timerclear"
  "last_mobile_sample_time sampled_once = timerclear" "mobile_last_bytes sampled_once = (\<lambda>_. 0)"
  "idle_duration_update_counts sampled_once s = 1" "last_mobile_state_change sampled_once = timerclear"
  by (simp_all add: sampled_once_def mobile_vars_init_def)

text \<open>
  C3: with a steady clock and counters in the range of an
  \<open>int\<close>, one whole call of \<open>update_mobile_state\<close> returns without a fault (no overflow,
  no failed assertion), keeps the invariant, and its change of the radio state is a step of the
  specification \<open>rrc\<close> for the event it observes; a first sample changes nothing. The callback
  is fired exactly on traffic.
\<close>

theorem update_mobile_state_refines:
  assumes "power_model pm" "steady e" "mobile_inv (tv_us (clock e k)) m" "counts_ok bytes"
    and "\<forall>s. idle_duration_update_counts m s < 2 ^ 31 - 1" "0 \<le> rc"
  shows "\<exists>m' j fire'. update_mobile_state pm e (rc, bytes) fire m k = Ok (0, fire', m', j)
    \<and> mobile_inv (tv_us (clock e j)) m'
    \<and> (case mobile_event e bytes m k of
         None \<Rightarrow> mobile_state m' = mobile_state m \<and> mobile_last_bytes m' = bytes \<and> fire' = fire
       | Some (Traffic d u) \<Rightarrow> rrc pm (Traffic d u) (mobile_state m) (mobile_state m')
           \<and> mobile_last_bytes m' = bytes \<and> fire'
       | Some (Silence us) \<Rightarrow> rrc pm (Silence us) (mobile_state m) (mobile_state m')
           \<and> mobile_last_bytes m' = mobile_last_bytes m \<and> fire' = fire)"
proof -
  from update_mobile_state_step [OF assms] obtain m' j where
    m': "update_mobile_state pm e (rc, bytes) fire m k
      = Ok (0, fire \<or> (\<exists>x y. mobile_event e bytes m k = Some (Traffic x y)), m', j)"
      "mobile_inv (tv_us (clock e j)) m'" "updated_from pm e bytes m k m' j" by blast
  then show ?thesis
    by (intro exI [of _ m'] exI [of _ j])
       (auto simp: updated_from_def handset_mid_def handset_next_def rrc_iff Let_def
         split: option.splits radio_event.splits)
qed

lemma update_mobile_state_refines_witness:
  "\<exists>m' j. update_mobile_state nexus_one (ticking 2) (0, \<lambda>_. 200) False sampled_once 1 = Ok (0, True, m', j)
    \<and> mobile_state m' = MOBILE_POWER_STATE_DCH"
proof -
  have ev: "mobile_event (ticking 2) (\<lambda>_. 200) sampled_once 1 = Some (Traffic 200 200)"
    by (simp add: mobile_event_def due_def silent_us_def tv_us_def timerclear_def bytes_since_def)
  have "counts_ok (\<lambda>_. 200)" by (simp add: counts_ok_def)
  then show ?thesis
    using update_mobile_state_refines [of nexus_one "ticking 2" 1 sampled_once "\<lambda>_. 200" 0 False]
    by (auto simp: ev rrc_Traffic dch_traffic_def tv_us_def simp del: One_nat_def)
qed

text \<open>
  C22: the time kept per state is a ledger. An update that changes
  the state adds to the state it leaves the time since the last change (nothing before the first
  change), and no other time moves; without a change no time moves at all.
\<close>

theorem update_mobile_state_ledger:
  assumes "power_model pm" "steady e" "mobile_inv (tv_us (clock e k)) m" "counts_ok bytes"
    and "\<forall>s. idle_duration_update_counts m s < 2 ^ 31 - 1"
    and "update_mobile_state pm e (0, bytes) fire m k = Ok (rc, fire', m', j)"
  shows "tv_us (time_in_mobile_state m' s) = tv_us (time_in_mobile_state m s)
    + (if s = mobile_state m \<and> mobile_state m' \<noteq> s \<and> tv_sec (last_mobile_state_change m) \<noteq> 0
       then tv_us (clock e k) - tv_us (last_mobile_state_change m) else 0)"
  using update_mobile_state_step [OF assms(1-5), of 0 fire] assms(6)
  by (auto simp: updated_from_def ledger_time_def Let_def)

lemma update_mobile_state_ledger_witness:
  "\<exists>m' j. update_mobile_state nexus_one (ticking 2) (0, \<lambda>_. 200) False
      (sampled_once\<lparr>last_mobile_state_change := \<lparr>tv_sec = 1000, tv_usec = 0\<rparr>\<rparr>) 1 = Ok (0, True, m', j)
    \<and> tv_us (time_in_mobile_state m' MOBILE_POWER_STATE_IDLE) = 3000000"
proof -
  let ?m = "sampled_once\<lparr>last_mobile_state_change := \<lparr>tv_sec = 1000, tv_usec = 0\<rparr>\<rparr>"
  have inv: "mobile_inv (tv_us (clock (ticking 2) 1)) ?m"
    using sampled_once_inv [of "tv_us (clock (ticking 2) 1)"]
    by (auto simp: mobile_inv_def ledger_ok_def tracked_us_def stamp_ok_def valid_tv_def tv_us_def
        timerclear_def)
  have c: "counts_ok (\<lambda>_. 200)" by (simp add: counts_ok_def)
  have ev: "mobile_event (ticking 2) (\<lambda>_. 200) ?m 1 = Some (Traffic 200 200)"
    by (simp add: mobile_event_def due_def silent_us_def tv_us_def timerclear_def bytes_since_def)
  obtain m' j where m': "update_mobile_state nexus_one (ticking 2) (0, \<lambda>_. 200) False ?m 1 = Ok (0, True, m', j)"
    "mobile_state m' = MOBILE_POWER_STATE_DCH"
    using update_mobile_state_step [OF nexus_one_ok _ inv c, of 0 False]
    by (auto simp: ev updated_from_def handset_next_def dch_traffic_def Let_def simp del: One_nat_def)
  with update_mobile_state_ledger [OF nexus_one_ok _ inv c, of False 0 True m' j MOBILE_POWER_STATE_IDLE]
  show ?thesis by (auto simp: tv_us_def sampled_once_def mobile_vars_init_def)
qed

text \<open>
  C29: without traffic the handset's radio ends in IDLE: it is enough
  that the updates go on (at least \<open>a + 1\<close>) until four seconds after the last activity, and
  then (\<open>b + 1\<close> more) for another six seconds. No update in between faults.
\<close>

theorem handset_returns_to_idle:
  assumes "steady e" "handset_ok pm (Suc a + Suc b) (tv_us (clock e k)) m"
    and "tv_us (last_mobile_activity m) + 4000000 \<le> tv_us (clock e (k + a))"
    and "tv_us (clock e (k + 5 * Suc a)) + 6000000 \<le> tv_us (clock e (k + Suc a + b))"
  shows "\<exists>m' j. quiet_run (handset_quiet pm) e (Suc a + Suc b) k m = Ok (m', j)
    \<and> mobile_state m' = MOBILE_POWER_STATE_IDLE"
  using handset.returns_to_idle [OF assms(1,2)] assms(3,4) by (simp add: DCH_us_def FACH_us_def)

lemma handset_returns_to_idle_witness:
  "\<exists>m' j. quiet_run (handset_quiet nexus_one) (ticking 2) 19 1
      (sampled_once\<lparr>mobile_state := MOBILE_POWER_STATE_DCH,
                   last_mobile_activity := clock (ticking 2) 0\<rparr>) = Ok (m', j)
    \<and> mobile_state m' = MOBILE_POWER_STATE_IDLE"
proof -
  let ?m = "sampled_once\<lparr>mobile_state := MOBILE_POWER_STATE_DCH,
                   last_mobile_activity := clock (ticking 2) 0\<rparr>"
  have "mobile_inv (tv_us (clock (ticking 2) 1)) ?m"
    using sampled_once_inv [of "tv_us (clock (ticking 2) 1)"]
    by (simp add: mobile_inv_def ledger_ok_def tracked_us_def stamp_ok_def valid_tv_def tv_us_def)
  then have "handset_ok nexus_one (Suc 1 + Suc 16) (tv_us (clock (ticking 2) 1)) ?m"
    by (simp add: handset_ok_def counts_ok_def)
  from handset_returns_to_idle [OF _ this] show ?thesis by (simp add: tv_us_def)
qed

text \<open>
  C34: the times that \<open>time_fraction_in_state\<close> divides are a
  partition: over the three states the numerators add up to the denominator, to the microsecond,
  and the fraction it returns is in \<open>[0, 1]\<close>, never a division by zero.
\<close>

theorem time_fractions_partition:
  assumes "steady e" "mobile_inv (tv_us (clock e k)) m"
  shows "\<exists>n total. (\<forall>s. \<exists>a b. state_and_total_time e s m k = Ok (a, b) \<and> tv_us a = n s
      \<and> tv_us b = total)
    \<and> n MOBILE_POWER_STATE_IDLE + n MOBILE_POWER_STATE_FACH + n MOBILE_POWER_STATE_DCH = total
    \<and> 1000000 \<le> total
    \<and> (\<forall>s. \<exists>q. time_fraction_in_state e s m k = Ok (Fin q, Suc k) \<and> 0 \<le> q \<and> q \<le> 1)"
proof -
  define n where "n s = tv_us (time_in_mobile_state m s)
      + (if s = mobile_state m then silent_us e (last_mobile_state_change m) k else 0)" for s
  define total where "total = tracked_us m + silent_us e (last_mobile_state_change m) k"
  have "\<exists>a b. state_and_total_time e s m k = Ok (a, b) \<and> tv_us a = n s \<and> tv_us b = total" for s
    using state_and_total_time_Ok [OF assms, of s] by (auto simp: n_def total_def)
  moreover have "n MOBILE_POWER_STATE_IDLE + n MOBILE_POWER_STATE_FACH + n MOBILE_POWER_STATE_DCH = total"
    by (cases "mobile_state m") (simp_all add: n_def total_def tracked_us_def)
  moreover have "1000000 \<le> total"
    using assms(2) tracked_ge [of m MOBILE_POWER_STATE_IDLE]
    by (simp add: total_def mobile_inv_def ledger_ok_def stamp_ok_def silent_us_def)
  ultimately show ?thesis using time_fraction_Ok [OF assms] by blast
qed

lemma time_fractions_partition_witness:
  "\<exists>q. time_fraction_in_state (ticking 2) MOBILE_POWER_STATE_IDLE sampled_once 1 = Ok (Fin q, 2)
     \<and> 0 \<le> q \<and> q \<le> 1"
  using time_fractions_partition [of "ticking 2" 1 sampled_once]
  by (auto simp: tv_us_def numeral_2_eq_2)

end
