(* ===== verification/Remote.thy ===== *)
theory Remote
  imports Radio
begin

text \<open>
  The server's view of a handset: the variables of \<^verbatim>\<open>libpowertutor.cpp\<close> under
  \<open>remote_power_state_lock\<close>, \<open>report_remote_mobile_activity\<close>, which stores what the handset
  sent, and \<open>update_remote_power_model\<close>, which watches the timeouts.

  \<open>remote_inv\<close> is the invariant; the locale \<open>radio_timeouts\<close> is interpreted on the update.
\<close>

record remote_vars =
  remote_last_mobile_activity :: timeval
  remote_state :: remote_power_state

definition remote_vars_init :: remote_vars where
  "remote_vars_init =
     \<lparr>remote_last_mobile_activity = timerclear,
      remote_state = \<lparr>mobile_state_rps = int_of_state MOBILE_POWER_STATE_IDLE,
                      mobile_queue_len = (\<lambda>_. 0), wifi_packet_rate_rps = 0\<rparr>\<rparr>"

definition REMOTE_POWER_STATE_INVALID_TIMEOUT :: double where
  "REMOTE_POWER_STATE_INVALID_TIMEOUT = dec 15 1"

definition update_remote_power_model ::
  "PowerModel \<Rightarrow> env \<Rightarrow> remote_vars \<Rightarrow> nat \<Rightarrow> (remote_vars \<times> nat) result" where
  "update_remote_power_model pm e r k =
     bind_r (time_since e (remote_last_mobile_activity r) k) (\<lambda>(idle_time, k).
     let (r, k) =
           (if mobile_state_rps (remote_state r) = int_of_state MOBILE_POWER_STATE_DCH then
              if idle_time \<ge> MOBILE_DCH_INACTIVITY_TIMER pm then
                (r\<lparr>remote_state := (remote_state r)
                       \<lparr>mobile_state_rps := int_of_state MOBILE_POWER_STATE_FACH\<rparr>,
                   remote_last_mobile_activity := clock e k\<rparr>, Suc k)
              else (r, k)
            else if mobile_state_rps (remote_state r) = int_of_state MOBILE_POWER_STATE_FACH then
              if idle_time \<ge> MOBILE_FACH_INACTIVITY_TIMER pm then
                (r\<lparr>remote_state := (remote_state r)
                       \<lparr>mobile_state_rps := int_of_state MOBILE_POWER_STATE_IDLE\<rparr>\<rparr>, k)
              else (r, k)
            else (r, k));
         r = (if idle_time \<ge> REMOTE_POWER_STATE_INVALID_TIMEOUT then
                r\<lparr>remote_state := (remote_state r)
                    \<lparr>mobile_queue_len := (mobile_queue_len (remote_state r))(DOWN := 0, UP := 0),
                     wifi_packet_rate_rps := 0\<rparr>\<rparr>
              else r)
     in Ok (r, k))"

definition report_remote_mobile_activity ::
  "env \<Rightarrow> remote_power_state \<Rightarrow> remote_vars \<Rightarrow> nat \<Rightarrow> (remote_vars \<times> nat) result" where
  "report_remote_mobile_activity e state r k =
     (let r = r\<lparr>remote_state := state\<rparr> in
      bind_r (c_int (mobile_queue_len state DOWN + mobile_queue_len state UP)) (\<lambda>queued.
      if queued > 0 then Ok (r\<lparr>remote_last_mobile_activity := clock e k\<rparr>, Suc k)
      else Ok (r, k)))"

subsection \<open>The invariant\<close>

definition remote_radio :: "remote_vars \<Rightarrow> MobileState" where
  "remote_radio r = (if mobile_state_rps (remote_state r) = 2 then MOBILE_POWER_STATE_DCH
     else if mobile_state_rps (remote_state r) = 1 then MOBILE_POWER_STATE_FACH
     else MOBILE_POWER_STATE_IDLE)"

definition remote_inv :: "int \<Rightarrow> remote_vars \<Rightarrow> bool" where
  "remote_inv t r \<longleftrightarrow> stamp_ok t (remote_last_mobile_activity r)
     \<and> mobile_state_rps (remote_state r) \<in> {0, 1, 2}"

lemma remote_inv_init: "0 \<le> t \<Longrightarrow> remote_inv t remote_vars_init"
  by (simp add: remote_inv_def remote_vars_init_def stamp_ok_def)

lemma remote_inv_radio:
  "remote_inv t r \<Longrightarrow> mobile_state_rps (remote_state r) = int_of_state (remote_radio r)"
  by (auto simp: remote_inv_def remote_radio_def)

lemma seconds_stale:
  assumes "valid_tv d"
  shows "REMOTE_POWER_STATE_INVALID_TIMEOUT \<le> convert_to_seconds d \<longleftrightarrow> 1500000 \<le> tv_us d"
proof -
  let ?at = "\<lparr>tv_sec = 1, tv_usec = 500000\<rparr> :: timeval"
  let ?before = "\<lparr>tv_sec = 1, tv_usec = 499999\<rparr> :: timeval"
  have n: "norm_tv d" "tv_sec d < 2 ^ 52" using assms by (auto simp: valid_tv_norm valid_tv_def)
  have c: "REMOTE_POWER_STATE_INVALID_TIMEOUT = Fin (3 / 2)"
    "Fin (3 / 2) \<le> convert_to_seconds ?at" "\<not> Fin (3 / 2) \<le> convert_to_seconds ?before"
    by (simp_all add: REMOTE_POWER_STATE_INVALID_TIMEOUT_def dec_def convert_to_seconds_def double_eval)
  show ?thesis
  proof (cases "1500000 \<le> tv_us d")
    case True
    then have "convert_to_seconds ?at \<le> convert_to_seconds d"
      using n by (intro seconds_mono) (simp_all add: norm_tv_def tv_us_def)
    with c(1,2) True show ?thesis by (auto intro: d_le_trans)
  next
    case False
    then have "convert_to_seconds d \<le> convert_to_seconds ?before"
      using n by (intro seconds_mono) (simp_all add: norm_tv_def tv_us_def)
    with c(1,3) False show ?thesis by (auto intro: d_le_trans)
  qed
qed

lemma update_remote_step:
  fixes e r k
  defines "us \<equiv> silent_us e (remote_last_mobile_activity r) k"
  assumes "power_model pm" "steady e" "remote_inv (tv_us (clock e k)) r"
  shows "\<exists>r' j. update_remote_power_model pm e r k = Ok (r', j) \<and> k < j \<and> j \<le> k + 2
    \<and> remote_inv (tv_us (clock e j)) r'
    \<and> remote_radio r' = timed_out us (remote_radio r)
    \<and> remote_last_mobile_activity r' =
        (if remote_radio r = MOBILE_POWER_STATE_DCH \<and> remote_radio r' \<noteq> remote_radio r
         then clock e (Suc k) else remote_last_mobile_activity r)
    \<and> (\<forall>d. mobile_queue_len (remote_state r') d
        = (if 1500000 \<le> us then 0 else mobile_queue_len (remote_state r) d))
    \<and> wifi_packet_rate_rps (remote_state r')
        = (if 1500000 \<le> us then 0 else wifi_packet_rate_rps (remote_state r))"
proof -
  have st: "stamp_ok (tv_us (clock e k)) (remote_last_mobile_activity r)"
    using assms(4) by (simp add: remote_inv_def)
  obtain d where d: "valid_tv d" "tv_us d = us"
    "time_since e (remote_last_mobile_activity r) k = Ok (convert_to_seconds d, Suc k)"
    using time_since_stamp [OF assms(3) st] by (auto simp: us_def)
  note up = stamp_ok_later [OF assms(3) st] stamp_ok_clock [OF assms(3)]
  note t = seconds_timer [OF d(1)] seconds_stale [OF d(1)] power_model.timers [OF assms(2)]
  have "mobile_state_rps (remote_state r) \<in> {0, 1, 2}" using assms(4) by (simp add: remote_inv_def)
  then consider "mobile_state_rps (remote_state r) = 0" | "mobile_state_rps (remote_state r) = 1"
    | "mobile_state_rps (remote_state r) = 2" by auto
  then show ?thesis
    by cases
       (simp_all add: update_remote_power_model_def d t remote_inv_def up remote_radio_def
         timed_out_def all_directions)
qed

interpretation server: radio_timeouts
  "\<lambda>e k r. update_remote_power_model pm e r k" remote_radio remote_last_mobile_activity
  "\<lambda>n t r. power_model pm \<and> remote_inv t r" for pm
proof (unfold_locales, goal_cases)
  case (1 n t r)
  then show ?case by (simp add: remote_inv_def stamp_ok_def)
next
  case (2 e n k r)
  with update_remote_step [of pm e k r] obtain r' j where
    "update_remote_power_model pm e r k = Ok (r', j)" "k < j" "j \<le> k + 2"
    "remote_inv (tv_us (clock e j)) r'"
    "remote_radio r' = timed_out (silent_us e (remote_last_mobile_activity r) k) (remote_radio r)"
    "remote_last_mobile_activity r' =
        (if remote_radio r = MOBILE_POWER_STATE_DCH \<and> remote_radio r' \<noteq> remote_radio r
         then clock e (Suc k) else remote_last_mobile_activity r)"
    by auto
  with 2 show ?case by (intro exI [of _ r'] exI [of _ k] exI [of _ j]) auto
qed

subsection \<open>Reports\<close>

lemma report_Ok:
  assumes "in_int (mobile_queue_len state DOWN + mobile_queue_len state UP)"
  shows "report_remote_mobile_activity e state r k =
    (if mobile_queue_len state DOWN + mobile_queue_len state UP > 0
     then Ok (\<lparr>remote_last_mobile_activity = clock e k, remote_state = state\<rparr>, Suc k)
     else Ok (\<lparr>remote_last_mobile_activity = remote_last_mobile_activity r, remote_state = state\<rparr>, k))"
  using assms by (simp add: report_remote_mobile_activity_def)

subsection \<open>Properties\<close>

definition reported_dch :: remote_power_state where
  "reported_dch = \<lparr>mobile_state_rps = 2, mobile_queue_len = (\<lambda>_. 100), wifi_packet_rate_rps = 0\<rparr>"

definition remote_after_report :: remote_vars where
  "remote_after_report =
     \<lparr>remote_last_mobile_activity = clock (ticking 2) 0, remote_state = reported_dch\<rparr>"

lemma remote_after_report_inv [simp]: "remote_inv (tv_us (clock (ticking 2) k)) remote_after_report"
  by (simp add: remote_inv_def remote_after_report_def reported_dch_def stamp_ok_def valid_tv_def tv_us_def)

lemma remote_after_report_sel [simp]:
  "remote_radio remote_after_report = MOBILE_POWER_STATE_DCH"
  "remote_last_mobile_activity remote_after_report = clock (ticking 2) 0"
  by (simp_all add: remote_after_report_def reported_dch_def remote_radio_def)

text \<open>
  C20: one call of \<open>update_remote_power_model\<close> returns without a
  fault, keeps the invariant, and takes the server's copy of the radio along a step of
  \<open>rrc\<close> for the silence it sees; after a second and a half of silence the queues and the
  packet rate are taken to be zero, and before that they are left as reported.
\<close>

theorem update_remote_refines:
  assumes "power_model pm" "steady e" "remote_inv (tv_us (clock e k)) r"
  shows "\<exists>r' j us. update_remote_power_model pm e r k = Ok (r', j)
    \<and> us = tv_us (clock e k) - tv_us (remote_last_mobile_activity r)
    \<and> remote_inv (tv_us (clock e j)) r'
    \<and> rrc pm (Silence us) (remote_radio r) (remote_radio r')
    \<and> (\<forall>d. mobile_queue_len (remote_state r') d
        = (if us \<ge> 1500000 then 0 else mobile_queue_len (remote_state r) d))
    \<and> wifi_packet_rate_rps (remote_state r')
        = (if us \<ge> 1500000 then 0 else wifi_packet_rate_rps (remote_state r))"
  using update_remote_step [OF assms] unfolding rrc_iff radio_next.simps silent_us_def by blast

lemma update_remote_refines_witness:
  "\<exists>r' j. update_remote_power_model nexus_one (ticking 2) remote_after_report 2 = Ok (r', j)
    \<and> remote_radio r' = MOBILE_POWER_STATE_FACH \<and> (\<forall>d. mobile_queue_len (remote_state r') d = 0)"
  using update_remote_refines [OF nexus_one_ok _ remote_after_report_inv, of 2]
  by (auto simp: rrc_Silence tv_us_def DCH_us_def)

text \<open>
  C30: with no report from the handset, the server's copy of the radio
  ends in IDLE once its updates have seen the DCH timeout and then the FACH timeout pass.
\<close>

theorem server_returns_to_idle:
  assumes "power_model pm" "steady e" "remote_inv (tv_us (clock e k)) r"
    and "tv_us (remote_last_mobile_activity r) + 4000000 \<le> tv_us (clock e (k + a))"
    and "tv_us (clock e (k + 5 * Suc a)) + 6000000 \<le> tv_us (clock e (k + Suc a + b))"
  shows "\<exists>r' j. quiet_run (\<lambda>e k r. update_remote_power_model pm e r k) e (Suc a + Suc b) k r
      = Ok (r', j) \<and> remote_radio r' = MOBILE_POWER_STATE_IDLE"
  using server.returns_to_idle [of e pm k r a b] assms by (simp add: DCH_us_def FACH_us_def)

lemma server_returns_to_idle_witness:
  "\<exists>r' j. quiet_run (\<lambda>e k r. update_remote_power_model nexus_one e r k) (ticking 2) 19 1
      remote_after_report = Ok (r', j) \<and> remote_radio r' = MOBILE_POWER_STATE_IDLE"
  using server_returns_to_idle [OF nexus_one_ok _ remote_after_report_inv, of 1 1 16]
  by (simp add: tv_us_def)

text \<open>
  A report replaces the whole remote state, and restarts the timeouts
  exactly when the reported queues are not empty; a report of packet rates alone leaves them
  running. Reports of states of the enumeration keep the invariant.
\<close>

theorem report_activity:
  assumes "steady e" "remote_inv (tv_us (clock e k)) r"
    and "mobile_state_rps state \<in> {0, 1, 2}"
    and "0 \<le> mobile_queue_len state DOWN" "0 \<le> mobile_queue_len state UP"
    and "mobile_queue_len state DOWN + mobile_queue_len state UP < 2 ^ 31"
  shows "\<exists>r' j. report_remote_mobile_activity e state r k = Ok (r', j)
    \<and> remote_state r' = state \<and> remote_inv (tv_us (clock e j)) r'
    \<and> remote_last_mobile_activity r' =
        (if \<exists>d. mobile_queue_len state d > 0 then clock e k else remote_last_mobile_activity r)"
proof -
  have pos: "(\<exists>d. mobile_queue_len state d > 0)
      \<longleftrightarrow> mobile_queue_len state DOWN + mobile_queue_len state UP > 0"
    using assms(4,5) by (auto simp: ex_directions)
  have "in_int (mobile_queue_len state DOWN + mobile_queue_len state UP)"
    using assms(4-6) by (simp add: in_int_def)
  from report_Ok [OF this, of e r k] show ?thesis
    using assms(1-3) unfolding pos by (auto simp: remote_inv_def stamp_ok_clock)
qed

lemma report_activity_witness:
  "\<exists>r' j. report_remote_mobile_activity (ticking 2) reported_dch remote_vars_init 3 = Ok (r', j)
    \<and> remote_state r' = reported_dch \<and> remote_last_mobile_activity r' = clock (ticking 2) 3"
  using report_activity [of "ticking 2" 3 remote_vars_init reported_dch]
    remote_inv_init [of "tv_us (clock (ticking 2) 3)"]
  by (auto simp: reported_dch_def tv_us_def)

end
