(* ===== verification/Net_Dev.thy ===== *)
theory Net_Dev
  imports Radio
begin

text \<open>
  The byte and packet counters of the network interfaces: \<open>get_net_dev_stats\<close> of
  \<^verbatim>\<open>libpowertutor.cpp\<close> in its two versions, the counters that a simulation sets
  (\<open>mocked_net_dev_stats\<close>) and the parser of \<^verbatim>\<open>/proc/net/dev\<close>.

  The locale \<open>net_dev_source\<close> is the contract of both. The round trip at the end is with lines of the
  form the kernel prints: columns of numbers with blanks in front, whatever their widths.
\<close>

subsection \<open>Input streams\<close>

text \<open>
  What the code uses of \<open>istringstream\<close> and \<open>ifstream\<close>. A stream is the text still to
  be read, or \<open>None\<close> once \<open>failbit\<close> is set. Every extraction skips white space first; it
  fails, and assigns nothing, when none is left. An \<open>int\<close> is an optional sign and digits: with
  no digit it fails and assigns 0, out of range it fails and assigns the nearest limit.
\<close>

type_synonym in_stream = "string option"

definition isspace :: "char \<Rightarrow> bool" where
  "isspace c \<longleftrightarrow> (of_char c :: nat) = 32 \<or> 9 \<le> (of_char c :: nat) \<and> (of_char c :: nat) \<le> 13"

definition isdigit :: "char \<Rightarrow> bool" where
  "isdigit c \<longleftrightarrow> 48 \<le> (of_char c :: nat) \<and> (of_char c :: nat) \<le> 57"

definition digit_value :: "char \<Rightarrow> int" where
  "digit_value c = of_char c - 48"

definition sentry :: "in_stream \<Rightarrow> in_stream" where
  "sentry s = (case s of None \<Rightarrow> None
     | Some t \<Rightarrow> (case dropWhile isspace t of [] \<Rightarrow> None | c # r \<Rightarrow> Some (c # r)))"

definition read_string :: "in_stream \<Rightarrow> string \<Rightarrow> string \<times> in_stream" where
  "read_string s old = (case sentry s of None \<Rightarrow> (old, None)
     | Some t \<Rightarrow> (takeWhile (\<lambda>c. \<not> isspace c) t, Some (dropWhile (\<lambda>c. \<not> isspace c) t)))"

definition read_sign :: "string \<Rightarrow> int \<times> string" where
  "read_sign t = (case t of [] \<Rightarrow> (1, [])
     | c # r \<Rightarrow> if c = CHR ''-'' then (- 1, r) else if c = CHR ''+'' then (1, r) else (1, t))"

definition digits_value :: "string \<Rightarrow> int" where
  "digits_value ds = foldl (\<lambda>n c. 10 * n + digit_value c) 0 ds"

definition read_int :: "in_stream \<Rightarrow> int \<Rightarrow> int \<times> in_stream" where
  "read_int s old = (case sentry s of None \<Rightarrow> (old, None)
     | Some t \<Rightarrow>
         (case read_sign t of (sign, r) \<Rightarrow>
            let ds = takeWhile isdigit r; n = sign * digits_value ds in
            if ds = [] then (0, None)
            else if n < - (2 ^ 31) then (- (2 ^ 31), None)
            else if n \<ge> 2 ^ 31 then (2 ^ 31 - 1, None)
            else (n, Some (dropWhile isdigit r))))"

text \<open>\<open>getline\<close> on the rest of a file: the line without its newline and what follows.\<close>

definition newline :: char where
  "newline = CHR 0x0A"

definition getline :: "string \<Rightarrow> (string \<times> string) option" where
  "getline f = (if f = [] then None
     else Some (takeWhile (\<lambda>c. c \<noteq> newline) f, drop 1 (dropWhile (\<lambda>c. c \<noteq> newline) f)))"

definition skip_line :: "string \<Rightarrow> string" where
  "skip_line f = (case getline f of None \<Rightarrow> [] | Some (_, rest) \<Rightarrow> rest)"

lemma getline_shorter: "getline f = Some (line, rest) \<Longrightarrow> length rest < length f"
proof -
  assume "getline f = Some (line, rest)"
  then have "f \<noteq> []" "rest = drop 1 (dropWhile (\<lambda>c. c \<noteq> newline) f)"
    by (auto simp: getline_def split: if_splits)
  then show ?thesis using length_dropWhile_le [of "\<lambda>c. c \<noteq> newline" f]
    by (cases "dropWhile (\<lambda>c. c \<noteq> newline) f") auto
qed

subsection \<open>/proc/net/dev\<close>

text \<open>The results of a reading: the return code and the arrays \<open>bytes\<close>, \<open>packets\<close>.\<close>

type_synonym stats_result = "int \<times> (Direction \<Rightarrow> int) \<times> (Direction \<Rightarrow> int)"

text \<open>\<open>cur_iface.compare(0, iface_len, iface) == 0\<close>.\<close>

definition iface_matches :: "string \<Rightarrow> string \<Rightarrow> bool" where
  "iface_matches iface cur_iface \<longleftrightarrow> take (length iface) cur_iface = iface"

fun read_strings :: "nat \<Rightarrow> in_stream \<Rightarrow> string \<Rightarrow> in_stream" where
  "read_strings 0 s junk = s"
| "read_strings (Suc n) s junk = (case read_string s junk of (junk, s) \<Rightarrow> read_strings n s junk)"

definition parse_counters ::
  "in_stream \<Rightarrow> (Direction \<Rightarrow> int) \<Rightarrow> (Direction \<Rightarrow> int) \<Rightarrow> stats_result" where
  "parse_counters s bytes packets =
     (case read_int s (bytes DOWN) of (bd, s) \<Rightarrow>
      case read_int s (packets DOWN) of (pd, s) \<Rightarrow>
      let s = read_strings 6 s [] in
      case read_int s (bytes UP) of (bu, s) \<Rightarrow>
      case read_int s (packets UP) of (pu, s) \<Rightarrow>
      (if s = None then - 1 else 0,
       bytes(DOWN := bd, UP := bu), packets(DOWN := pd, UP := pu)))"

function parse_lines ::
  "string \<Rightarrow> string \<Rightarrow> (Direction \<Rightarrow> int) \<Rightarrow> (Direction \<Rightarrow> int) \<Rightarrow> stats_result" where
  "parse_lines iface f bytes packets =
     (case getline f of
        None \<Rightarrow> (- 1, bytes, packets)
      | Some (line, rest) \<Rightarrow>
          (case read_string (Some line) [] of (cur_iface, s) \<Rightarrow>
             if s = None then (- 1, bytes, packets)
             else if iface_matches iface cur_iface then parse_counters s bytes packets
             else parse_lines iface rest bytes packets))"
  by pat_completeness auto
termination
  by (relation "measure (\<lambda>(_, f, _). length f)") (auto simp: getline_shorter)

declare parse_lines.simps [simp del]

text \<open>A file that cannot be opened reads as an empty one.\<close>

definition get_net_dev_stats_from_proc ::
  "string \<Rightarrow> string option \<Rightarrow> (Direction \<Rightarrow> int) \<Rightarrow> (Direction \<Rightarrow> int) \<Rightarrow> stats_result" where
  "get_net_dev_stats_from_proc iface file bytes packets =
     (let infile = (case file of None \<Rightarrow> [] | Some f \<Rightarrow> f);
          infile = skip_line infile;
          infile = skip_line infile
      in parse_lines iface infile bytes packets)"

subsection \<open>The counters of a simulation\<close>

record net_dev_stats =
  stats_bytes :: "Direction \<Rightarrow> int"
  stats_packets :: "Direction \<Rightarrow> int"

type_synonym mocked_stats = "string \<rightharpoonup> net_dev_stats"

datatype BytesOrPackets = BYTES | PACKETS

definition MOBILE_IFACE :: string where
  "MOBILE_IFACE = ''rmnet0''"

fun getNetworkIface :: "PowerModel \<Rightarrow> NetworkType \<Rightarrow> string" where
  "getNetworkIface pm TYPE_MOBILE = MOBILE_IFACE"
| "getNetworkIface pm TYPE_WIFI = wifi_iface pm"

definition set_mocked_net_dev_stats ::
  "PowerModel \<Rightarrow> NetworkType \<Rightarrow> (Direction \<Rightarrow> int) \<Rightarrow> (Direction \<Rightarrow> int) \<Rightarrow> mocked_stats
   \<Rightarrow> mocked_stats" where
  "set_mocked_net_dev_stats pm type bytes packets mocked =
     mocked(getNetworkIface pm type \<mapsto> \<lparr>stats_bytes = bytes, stats_packets = packets\<rparr>)"

definition get_mocked_net_dev_stats :: "string \<Rightarrow> mocked_stats \<Rightarrow> stats_result \<times> mocked_stats" where
  "get_mocked_net_dev_stats iface mocked =
     (let mocked = (if mocked iface = None
                    then mocked(iface \<mapsto> \<lparr>stats_bytes = (\<lambda>_. 0), stats_packets = (\<lambda>_. 0)\<rparr>)
                    else mocked);
          stats = the (mocked iface)
      in ((0, stats_bytes stats, stats_packets stats), mocked))"

definition add_value_to_array ::
  "PowerModel \<Rightarrow> NetworkType \<Rightarrow> BytesOrPackets \<Rightarrow> Direction \<Rightarrow> int \<Rightarrow> mocked_stats
   \<Rightarrow> mocked_stats result" where
  "add_value_to_array pm type what direction value mocked =
     (case get_mocked_net_dev_stats (getNetworkIface pm type) mocked of
        ((_, bytes, packets), mocked) \<Rightarrow>
     case what of
       BYTES \<Rightarrow> bind_r (c_int (bytes direction + value)) (\<lambda>n.
         Ok (set_mocked_net_dev_stats pm type (bytes(direction := n)) packets mocked))
     | PACKETS \<Rightarrow> bind_r (c_int (packets direction + value)) (\<lambda>n.
         Ok (set_mocked_net_dev_stats pm type bytes (packets(direction := n)) mocked)))"

definition add_bytes_down where
  "add_bytes_down pm type bytes = add_value_to_array pm type BYTES DOWN bytes"

definition add_bytes_up where
  "add_bytes_up pm type bytes = add_value_to_array pm type BYTES UP bytes"

definition add_packets_down where
  "add_packets_down pm type packets = add_value_to_array pm type PACKETS DOWN packets"

definition add_packets_up where
  "add_packets_up pm type packets = add_value_to_array pm type PACKETS UP packets"

subsection \<open>get_net_dev_stats\<close>

definition get_net_dev_stats ::
  "build \<Rightarrow> env \<Rightarrow> nat \<Rightarrow> string \<Rightarrow> (Direction \<Rightarrow> int) \<Rightarrow> (Direction \<Rightarrow> int) \<Rightarrow> mocked_stats
   \<Rightarrow> stats_result \<times> mocked_stats" where
  "get_net_dev_stats b e k iface bytes packets mocked =
     (if b = Simulation_build then get_mocked_net_dev_stats iface mocked
      else (get_net_dev_stats_from_proc iface (proc_net_dev e k) bytes packets, mocked))"

subsection \<open>Properties of the readers\<close>

lemma sentry_None [simp]: "sentry None = None"
  by (simp add: sentry_def)

lemma read_None [simp]:
  "read_int None old = (old, None)" "read_string None junk = (junk, None)"
  by (simp_all add: read_int_def read_string_def)

lemma read_strings_None [simp]: "read_strings n None junk = None"
  by (induction n arbitrary: junk) simp_all

lemma sentry_Some: "sentry (Some t) = Some u \<Longrightarrow> set u \<subseteq> set t"
  by (auto simp: sentry_def split: list.splits dest: set_dropWhileD)

lemma digits_value_snoc: "digits_value (ds @ [c]) = 10 * digits_value ds + digit_value c"
  by (simp add: digits_value_def)

lemma digits_value_nonneg: "\<forall>c \<in> set ds. isdigit c \<Longrightarrow> 0 \<le> digits_value ds"
proof (induction ds rule: rev_induct)
  case (snoc c ds)
  then have "0 \<le> digit_value c"
    by (simp add: isdigit_def digit_value_def flip: of_nat_of_char [where ?'a = int])
  with snoc show ?case by (simp add: digits_value_snoc)
qed (simp add: digits_value_def)

lemma read_int_Some:
  assumes "read_int s old = (n, Some r)"
  shows "\<exists>t. s = Some t \<and> set r \<subseteq> set t \<and> in_int n \<and> (CHR ''-'' \<notin> set t \<longrightarrow> 0 \<le> n)"
proof -
  obtain t where t: "s = Some t" using assms by (cases s) auto
  then obtain u where u: "sentry (Some t) = Some u"
    using assms by (cases "sentry (Some t)") (auto simp: read_int_def)
  obtain sign v where v: "read_sign u = (sign, v)" by fastforce
  have sv: "set v \<subseteq> set u" "CHR ''-'' \<notin> set u \<Longrightarrow> sign = 1"
    using v by (auto simp: read_sign_def split: list.splits if_splits)
  let ?n = "sign * digits_value (takeWhile isdigit v)"
  have n: "n = ?n" "- (2 ^ 31) \<le> ?n" "?n < 2 ^ 31" "r = dropWhile isdigit v"
    using assms t u v by (auto simp: read_int_def Let_def split: if_splits)
  have "0 \<le> digits_value (takeWhile isdigit v)"
    by (intro digits_value_nonneg) (auto dest: set_takeWhileD)
  moreover have "set r \<subseteq> set t" using n(4) sv(1) sentry_Some [OF u] by (auto dest: set_dropWhileD)
  moreover have "sign = 1" if "CHR ''-'' \<notin> set t" using that sv(2) sentry_Some [OF u] by blast
  ultimately show ?thesis using n t by (auto simp: in_int_def)
qed

lemma read_string_Some:
  "read_string s junk = (x, Some r) \<Longrightarrow> \<exists>t. s = Some t \<and> set r \<subseteq> set t"
  by (cases s) (auto simp: read_string_def split: option.splits dest!: set_dropWhileD sentry_Some)

lemma read_strings_Some:
  "read_strings n s junk = Some r \<Longrightarrow> \<exists>t. s = Some t \<and> set r \<subseteq> set t"
proof (induction n arbitrary: s junk)
  case (Suc n)
  obtain j u where u: "read_string s junk = (j, u)" by fastforce
  with Suc.prems have "read_strings n u j = Some r" by simp
  from Suc.IH [OF this] obtain t where "u = Some t" "set r \<subseteq> set t" by auto
  with read_string_Some u show ?case by blast
qed simp

lemma parse_counters_rc: "fst (parse_counters s b p) = 0 \<or> fst (parse_counters s b p) = - 1"
  by (simp add: parse_counters_def Let_def split: prod.split)

lemma parse_counters_ok:
  assumes "parse_counters (Some t) b p = (0, b', p')" "CHR ''-'' \<notin> set t"
  shows "counts_ok b' \<and> counts_ok p'"
proof -
  obtain bd s1 where 1: "read_int (Some t) (b DOWN) = (bd, s1)" by fastforce
  obtain pd s2 where 2: "read_int s1 (p DOWN) = (pd, s2)" by fastforce
  obtain bu s4 where 4: "read_int (read_strings 6 s2 []) (b UP) = (bu, s4)" by fastforce
  obtain pu s5 where 5: "read_int s4 (p UP) = (pu, s5)" by fastforce
  from assms(1) have r: "s5 \<noteq> None" "b' = b(DOWN := bd, UP := bu)" "p' = p(DOWN := pd, UP := pu)"
    by (auto simp: parse_counters_def Let_def 1 2 4 5 split: if_splits)
  then obtain t5 where "s5 = Some t5" by auto
  with 5 read_int_Some obtain t4 where t4: "s4 = Some t4" "in_int pu" "CHR ''-'' \<notin> set t4 \<longrightarrow> 0 \<le> pu"
    by blast
  with 4 read_int_Some obtain t3 where t3: "read_strings 6 s2 [] = Some t3" "in_int bu"
    "set t4 \<subseteq> set t3" "CHR ''-'' \<notin> set t3 \<longrightarrow> 0 \<le> bu" by metis
  from read_strings_Some [OF this(1)] obtain t2 where t2: "s2 = Some t2" "set t3 \<subseteq> set t2" by auto
  with 2 read_int_Some obtain t1 where t1: "s1 = Some t1" "in_int pd" "set t2 \<subseteq> set t1"
    "CHR ''-'' \<notin> set t1 \<longrightarrow> 0 \<le> pd" by metis
  with 1 read_int_Some have "in_int bd" "set t1 \<subseteq> set t" "0 \<le> bd"
    using assms(2) by (metis option.inject)+
  with t1 t2 t3 t4 r assms(2) show ?thesis
    by (auto simp: counts_ok_def in_int_def all_directions)
qed

lemma parse_lines_rc: "fst (parse_lines iface f b p) = 0 \<or> fst (parse_lines iface f b p) = - 1"
proof (induction iface f b p rule: parse_lines.induct)
  case (1 iface f b p)
  show ?case
    using 1 parse_counters_rc
    by (subst (1 2) parse_lines.simps) (auto split: option.split prod.split)
qed

lemma parse_lines_ok:
  assumes "parse_lines iface f b p = (0, b', p')" "CHR ''-'' \<notin> set f"
  shows "counts_ok b' \<and> counts_ok p'"
  using assms
proof (induction iface f b p rule: parse_lines.induct)
  case (1 iface f b p)
  from 1(2) obtain line rest where g: "getline f = Some (line, rest)"
    by (subst (asm) parse_lines.simps) (auto split: option.splits)
  then have "line = takeWhile (\<lambda>c. c \<noteq> newline) f" "rest = drop 1 (dropWhile (\<lambda>c. c \<noteq> newline) f)"
    by (auto simp: getline_def split: if_splits)
  then have sub: "CHR ''-'' \<notin> set line" "CHR ''-'' \<notin> set rest"
    using 1(3) by (auto dest!: set_takeWhileD in_set_dropD set_dropWhileD)
  obtain cur s where rs: "read_string (Some line) [] = (cur, s)" by fastforce
  from 1(2) g rs obtain t where t: "s = Some t"
    by (subst (asm) parse_lines.simps) (auto split: if_splits)
  have "CHR ''-'' \<notin> set t" using read_string_Some [of "Some line" "[]" cur t] rs t sub(1) by auto
  with 1(2) g rs t sub parse_counters_ok [of t b p b' p'] 1(1) [OF g refl rs [symmetric]]
  show ?case by (subst (asm) parse_lines.simps) (auto split: if_splits)
qed


subsection \<open>Reading what was printed\<close>

definition print_digit :: "nat \<Rightarrow> char" where
  "print_digit d = char_of (48 + d)"

fun print_nat :: "nat \<Rightarrow> string" where
  "print_nat n = (if n < 10 then [print_digit n] else print_nat (n div 10) @ [print_digit (n mod 10)])"

declare print_nat.simps [simp del]

lemma of_char_digit: "d < 10 \<Longrightarrow> (of_char (print_digit d) :: nat) = 48 + d"
  by (simp add: print_digit_def of_char_of)

lemma print_digit_ok:
  assumes "d < 10"
  shows "isdigit (print_digit d)" "\<not> isspace (print_digit d)" "digit_value (print_digit d) = int d"
    "print_digit d \<noteq> CHR ''-''" "print_digit d \<noteq> CHR ''+''" "print_digit d \<noteq> newline"
proof -
  note c = of_char_digit [OF assms]
  show "isdigit (print_digit d)" "\<not> isspace (print_digit d)"
    using assms by (simp_all add: isdigit_def isspace_def c)
  show "digit_value (print_digit d) = int d"
    by (simp add: digit_value_def c flip: of_nat_of_char [where ?'a = int])
  show "print_digit d \<noteq> CHR ''-''" "print_digit d \<noteq> CHR ''+''" "print_digit d \<noteq> newline"
    using c by (auto simp: newline_def)
qed

lemma print_nat_chars: "c \<in> set (print_nat n) \<Longrightarrow> \<exists>d < 10. c = print_digit d"
proof (induction n rule: print_nat.induct)
  case (1 n)
  then show ?case
    by (cases "n < 10") (auto simp: print_nat.simps [of n] intro: exI [of _ "n mod 10"])
qed

lemma print_nat_nonempty [simp]: "print_nat n \<noteq> []"
  by (subst print_nat.simps) simp

lemma digits_value_print: "digits_value (print_nat n) = int n"
proof (induction n rule: print_nat.induct)
  case (1 n)
  show ?case
  proof (cases "n < 10")
    case True
    then show ?thesis
      by (subst print_nat.simps) (simp add: digits_value_def print_digit_ok)
  next
    case False
    have "10 * int (n div 10) + int (n mod 10) = int n"
      by (metis mult_div_mod_eq of_nat_add of_nat_mult of_nat_numeral)
    with False 1 show ?thesis
      by (subst print_nat.simps) (simp add: digits_value_snoc print_digit_ok)
  qed
qed

lemma takeWhile_dropWhile_tail:
  assumes "\<forall>c \<in> set xs. P c" "rest = [] \<or> \<not> P (hd rest)"
  shows "takeWhile P (xs @ rest) = xs" "dropWhile P (xs @ rest) = rest"
  using assms by (cases rest; simp)+

lemma isdigit_not_space: "isdigit c \<Longrightarrow> \<not> isspace c"
  by (auto simp: isdigit_def isspace_def)

lemma isspace_blank [simp]: "isspace CHR '' ''"
  by (simp add: isspace_def)

lemma sentry_blanks:
  "x \<noteq> [] \<Longrightarrow> \<forall>c \<in> set x. \<not> isspace c \<Longrightarrow>
    sentry (Some (replicate k CHR '' '' @ x @ y)) = Some (x @ y)"
  by (induction k) (cases x; simp add: sentry_def)+

lemma print_nat_sign: "read_sign (print_nat n @ rest) = (1, print_nat n @ rest)"
proof (cases "print_nat n")
  case (Cons c cs)
  then obtain d where "d < 10" "c = print_digit d" using print_nat_chars [of c n] by auto
  with Cons show ?thesis by (simp add: read_sign_def print_digit_ok)
qed simp

text \<open>Reading a printed number, in range or not.\<close>

lemma read_int_print:
  assumes "rest = [] \<or> isspace (hd rest)"
  shows "read_int (Some (replicate k CHR '' '' @ print_nat n @ rest)) old =
    (if n < 2 ^ 31 then (int n, Some rest) else (2 ^ 31 - 1, None))"
proof -
  have ds: "\<forall>c \<in> set (print_nat n). isdigit c" "\<forall>c \<in> set (print_nat n). \<not> isspace c"
    using print_nat_chars print_digit_ok by blast+
  have tail: "rest = [] \<or> \<not> isdigit (hd rest)" using assms isdigit_not_space by auto
  have s: "sentry (Some (replicate k CHR '' '' @ print_nat n @ rest)) = Some (print_nat n @ rest)"
    by (rule sentry_blanks) (use ds in auto)
  have "int n < 2 ^ 31 \<longleftrightarrow> n < 2 ^ 31" by (metis of_nat_less_iff of_nat_numeral of_nat_power)
  then show ?thesis
    unfolding read_int_def s option.case print_nat_sign prod.case
      takeWhile_dropWhile_tail [OF ds(1) tail] digits_value_print Let_def
    by auto
qed

lemma read_string_print:
  assumes "rest = [] \<or> isspace (hd rest)" "x \<noteq> []" "\<forall>c \<in> set x. \<not> isspace c"
  shows "read_string (Some (replicate k CHR '' '' @ x @ rest)) old = (x, Some rest)"
proof -
  have tail: "rest = [] \<or> \<not> \<not> isspace (hd rest)" using assms(1) by simp
  show ?thesis
    unfolding read_string_def sentry_blanks [OF assms(2,3)] option.case
      takeWhile_dropWhile_tail [OF assms(3) tail] by simp
qed

text \<open>
  A line of the file: the name of the interface with blanks in front and a colon behind, then columns, each
  a number with blanks in front. How many blanks there are depends on the kernel and on the numbers.
\<close>

type_synonym column = "nat \<times> nat"

type_synonym dev_line = "nat \<times> string \<times> column list"

fun print_columns :: "column list \<Rightarrow> string" where
  "print_columns [] = []"
| "print_columns ((blanks, n) # cs) = replicate blanks CHR '' '' @ print_nat n @ print_columns cs"

definition print_line :: "dev_line \<Rightarrow> string" where
  "print_line = (\<lambda>(blanks, name, cs). replicate blanks CHR '' '' @ name @ CHR '':'' # print_columns cs)"

definition print_lines :: "dev_line list \<Rightarrow> string" where
  "print_lines devs = concat (map (\<lambda>row. print_line row @ [newline]) devs)"

definition print_file :: "string \<Rightarrow> string \<Rightarrow> dev_line list \<Rightarrow> string" where
  "print_file header1 header2 devs =
     header1 @ newline # header2 @ newline # print_lines devs"

text \<open>The columns are apart; \<open>row_ok\<close>: the first one from the colon, too.\<close>

definition columns_ok :: "column list \<Rightarrow> bool" where
  "columns_ok cs \<longleftrightarrow> (\<forall>(blanks, n) \<in> set cs. 1 \<le> blanks)"

definition row_ok :: "dev_line \<Rightarrow> bool" where
  "row_ok = (\<lambda>(blanks, name, cs). (\<forall>c \<in> set name. \<not> isspace c) \<and> columns_ok cs \<and> 10 \<le> length cs)"

text \<open>
  The lines of Linux: the name is padded to 6 characters, and each column to its width. Before 2.6.36 a
  number of bytes that fills its 8 characters follows the colon directly; later kernels print a blank there.
\<close>

definition kernel_columns :: "nat list \<Rightarrow> nat list \<Rightarrow> column list" where
  "kernel_columns widths ns = map2 (\<lambda>w n. (Suc (w - length (print_nat n)), n)) widths ns"

definition kernel_widths :: "nat list" where
  "kernel_widths = [7, 7, 4, 4, 4, 5, 10, 9, 8, 7, 4, 4, 4, 5, 7, 10]"

definition kernel_line :: "string \<Rightarrow> nat list \<Rightarrow> dev_line" where
  "kernel_line name ns = (6 - length name, name, kernel_columns kernel_widths ns)"

definition old_kernel_line :: "string \<Rightarrow> nat list \<Rightarrow> dev_line" where
  "old_kernel_line name ns =
     (6 - length name, name, (8 - length (print_nat (hd ns)), hd ns) # kernel_columns (tl kernel_widths) (tl ns))"

lemma kernel_line_sel [simp]:
  "fst (snd (kernel_line name ns)) = name"
  "length ns = 16 \<Longrightarrow> i < 16 \<Longrightarrow> snd (snd (snd (kernel_line name ns)) ! i) = ns ! i"
  by (simp_all add: kernel_line_def kernel_columns_def kernel_widths_def)

lemma kernel_columns_ok [simp]: "columns_ok (kernel_columns widths ns)"
  by (auto simp: kernel_columns_def columns_ok_def)

lemma kernel_line_ok [simp]:
  "length ns = 16 \<Longrightarrow> row_ok (kernel_line name ns) \<longleftrightarrow> (\<forall>c \<in> set name. \<not> isspace c)"
  by (simp add: kernel_line_def row_ok_def) (simp add: kernel_columns_def kernel_widths_def)

lemma print_columns_tail: "columns_ok cs \<Longrightarrow> print_columns cs = [] \<or> isspace (hd (print_columns cs))"
  by (cases cs rule: print_columns.cases) (auto simp: columns_ok_def Suc_le_eq gr0_conv_Suc)

lemma read_int_column:
  "columns_ok cs \<Longrightarrow> read_int (Some (print_columns (c # cs))) old =
    (if snd c < 2 ^ 31 then (int (snd c), Some (print_columns cs)) else (2 ^ 31 - 1, None))"
  using read_int_print [OF print_columns_tail] by (cases c) simp

lemma read_strings_columns:
  "columns_ok (cs @ ds) \<Longrightarrow> read_strings (length cs) (Some (print_columns (cs @ ds))) junk = Some (print_columns ds)"
proof (induction cs arbitrary: junk)
  case (Cons c cs)
  have "\<forall>d \<in> set (print_nat (snd c)). \<not> isspace d" using print_nat_chars print_digit_ok by blast
  moreover have "columns_ok (cs @ ds)" using Cons.prems by (simp add: columns_ok_def)
  ultimately show ?case
    using read_string_print [OF print_columns_tail print_nat_nonempty] Cons.IH by (cases c) simp
qed simp

text \<open>What the parser makes of ten columns; the first may follow without a blank.\<close>

lemma parse_columns:
  fixes c0 c1 c2 c3 c4 c5 c6 c7 c8 c9 cs b p
  assumes "columns_ok (c1 # c2 # c3 # c4 # c5 # c6 # c7 # c8 # c9 # cs)"
  defines "r \<equiv> parse_counters
    (Some (print_columns (c0 # c1 # c2 # c3 # c4 # c5 # c6 # c7 # c8 # c9 # cs))) b p"
  shows "fst r = (if \<forall>c \<in> {c0, c1, c8, c9}. snd c < 2 ^ 31 then 0 else - 1)"
    and "\<forall>c \<in> {c0, c1, c8, c9}. snd c < 2 ^ 31 \<Longrightarrow>
      r = (0, b(DOWN := int (snd c0), UP := int (snd c8)), p(DOWN := int (snd c1), UP := int (snd c9)))"
proof -
  have ok: "columns_ok (c2 # c3 # c4 # c5 # c6 # c7 # c8 # c9 # cs)" "columns_ok (c9 # cs)" "columns_ok cs"
    using assms(1) by (simp_all add: columns_ok_def)
  have "read_strings (length [c2, c3, c4, c5, c6, c7])
      (Some (print_columns ([c2, c3, c4, c5, c6, c7] @ c8 # c9 # cs))) [] = Some (print_columns (c8 # c9 # cs))"
    by (rule read_strings_columns) (use ok(1) in simp)
  moreover have "length [c2, c3, c4, c5, c6, c7] = 6" by simp
  ultimately have six: "read_strings 6 (Some (print_columns (c2 # c3 # c4 # c5 # c6 # c7 # c8 # c9 # cs))) [] =
    Some (print_columns (c8 # c9 # cs))"
    by (simp only: append.simps)
  note run = r_def parse_counters_def Let_def read_int_column [OF assms(1)] read_int_column [OF ok(1)]
    read_int_column [OF ok(2)] read_int_column [OF ok(3)] six
  show "fst r = (if \<forall>c \<in> {c0, c1, c8, c9}. snd c < 2 ^ 31 then 0 else - 1)"
    by (simp add: run del: print_columns.simps read_strings.simps)
  show "r = (0, b(DOWN := int (snd c0), UP := int (snd c8)), p(DOWN := int (snd c1), UP := int (snd c9)))"
    if "\<forall>c \<in> {c0, c1, c8, c9}. snd c < 2 ^ 31"
    using that by (simp add: run del: print_columns.simps read_strings.simps)
qed

lemma newline_space [simp]: "isspace newline"
  by (simp add: isspace_def newline_def)

lemma getline_print: "newline \<notin> set line \<Longrightarrow> getline (line @ newline # rest) = Some (line, rest)"
proof -
  assume "newline \<notin> set line"
  then have "\<forall>c \<in> set line. c \<noteq> newline" by auto
  from takeWhile_dropWhile_tail [OF this, of "newline # rest"] show ?thesis
    by (simp add: getline_def)
qed

lemma print_nat_no:
  "newline \<notin> set (print_nat n)" "CHR ''-'' \<notin> set (print_nat n)"
  by (metis print_nat_chars print_digit_ok(6), metis print_nat_chars print_digit_ok(4))

lemma print_columns_chars:
  "newline \<notin> set (print_columns cs)" "CHR ''-'' \<notin> set (print_columns cs)"
  by (induction cs rule: print_columns.induct) (use print_nat_no in \<open>auto simp: newline_def\<close>)

lemma print_line_no_newline:
  "\<forall>c \<in> set (fst (snd row)). \<not> isspace c \<Longrightarrow> newline \<notin> set (print_line row)"
  using print_columns_chars(1) by (cases row) (auto simp: print_line_def newline_def isspace_def)

lemma read_name:
  assumes "row_ok row"
  shows "read_string (Some (print_line row)) junk =
    (fst (snd row) @ '':'', Some (print_columns (snd (snd row))))"
proof -
  obtain blanks name cs where row: "row = (blanks, name, cs)" by (rule prod_cases3)
  then have "\<forall>c \<in> set (name @ '':''). \<not> isspace c" "columns_ok cs"
    using assms by (auto simp: row_ok_def isspace_def)
  with read_string_print [OF print_columns_tail, of cs "name @ '':''" blanks] show ?thesis
    by (simp add: row print_line_def)
qed

lemma parse_lines_skip:
  assumes "row_ok row" "\<not> iface_matches iface (fst (snd row) @ '':'')"
  shows "parse_lines iface (print_line row @ newline # rest) b p = parse_lines iface rest b p"
proof -
  have "\<forall>c \<in> set (fst (snd row)). \<not> isspace c" using assms(1) by (auto simp: row_ok_def)
  then show ?thesis
    by (subst parse_lines.simps) (use assms in \<open>simp add: getline_print print_line_no_newline read_name\<close>)
qed

lemma parse_lines_hit:
  assumes "row_ok row" "iface_matches iface (fst (snd row) @ '':'')"
  shows "parse_lines iface (print_line row @ newline # rest) b p =
    parse_counters (Some (print_columns (snd (snd row)))) b p"
proof -
  have "\<forall>c \<in> set (fst (snd row)). \<not> isspace c" using assms(1) by (auto simp: row_ok_def)
  then show ?thesis
    by (subst parse_lines.simps) (use assms in \<open>simp add: getline_print print_line_no_newline read_name\<close>)
qed

lemma ten_columns:
  assumes "10 \<le> length cs"
  shows "\<exists>c0 c1 c2 c3 c4 c5 c6 c7 c8 c9 ds. cs = c0 # c1 # c2 # c3 # c4 # c5 # c6 # c7 # c8 # c9 # ds"
  using assms by (auto simp: Suc_le_length_iff numeral_eq_Suc)

lemma parse_lines_before:
  assumes "\<forall>row \<in> set before. row_ok row \<and> \<not> iface_matches iface (fst (snd row) @ '':'')"
  shows "parse_lines iface (print_lines (before @ devs)) b p = parse_lines iface (print_lines devs) b p"
  using assms by (induction before) (simp_all add: print_lines_def parse_lines_skip)

lemma parse_lines_print:
  assumes "\<forall>row \<in> set before. row_ok row \<and> \<not> iface_matches iface (fst (snd row) @ '':'')"
    and "row_ok row" "iface_matches iface (fst (snd row) @ '':'')"
  defines "n i \<equiv> snd (snd (snd row) ! i)"
  shows "fst (parse_lines iface (print_lines (before @ row # after)) b p) =
      (if \<forall>i \<in> {0, 1, 8, 9}. n i < 2 ^ 31 then 0 else - 1)"
    and "\<forall>i \<in> {0, 1, 8, 9}. n i < 2 ^ 31 \<Longrightarrow>
      parse_lines iface (print_lines (before @ row # after)) b p =
        (0, b(DOWN := int (n 0), UP := int (n 8)), p(DOWN := int (n 1), UP := int (n 9)))"
proof -
  let ?cs = "snd (snd row)"
  have hit: "parse_lines iface (print_lines (before @ row # after)) b p =
      parse_counters (Some (print_columns ?cs)) b p"
    unfolding parse_lines_before [OF assms(1)] using parse_lines_hit [OF assms(2,3)] by (simp add: print_lines_def)
  obtain c0 c1 c2 c3 c4 c5 c6 c7 c8 c9 ds where cs:
    "?cs = c0 # c1 # c2 # c3 # c4 # c5 # c6 # c7 # c8 # c9 # ds"
    using ten_columns [of ?cs] assms(2) by (auto simp: row_ok_def)
  then have ok: "columns_ok (c1 # c2 # c3 # c4 # c5 # c6 # c7 # c8 # c9 # ds)"
    using assms(2) by (auto simp: row_ok_def columns_ok_def split: prod.splits)
  show "fst (parse_lines iface (print_lines (before @ row # after)) b p) =
      (if \<forall>i \<in> {0, 1, 8, 9}. n i < 2 ^ 31 then 0 else - 1)"
    unfolding hit n_def unfolding cs by (simp add: parse_columns(1) [OF ok] del: print_columns.simps)
  show "parse_lines iface (print_lines (before @ row # after)) b p =
        (0, b(DOWN := int (n 0), UP := int (n 8)), p(DOWN := int (n 1), UP := int (n 9)))"
    if "\<forall>i \<in> {0, 1, 8, 9}. n i < 2 ^ 31"
    using that unfolding hit n_def unfolding cs by (simp add: parse_columns(2) [OF ok] del: print_columns.simps)
qed

lemma skip_line_print: "newline \<notin> set line \<Longrightarrow> skip_line (line @ newline # rest) = rest"
  by (simp add: skip_line_def getline_print)

lemma proc_print_file:
  assumes "newline \<notin> set header1" "newline \<notin> set header2"
  shows "get_net_dev_stats_from_proc iface (Some (print_file header1 header2 devs)) b p =
    parse_lines iface (print_lines devs) b p"
  using assms by (simp add: get_net_dev_stats_from_proc_def print_file_def skip_line_print)

subsection \<open>The contract of a source of counters\<close>

locale net_dev_source =
  fixes read :: "string \<Rightarrow> 's \<Rightarrow> stats_result \<times> 's"
    and ok :: "'s \<Rightarrow> bool"
  assumes rc_range: "ok s \<Longrightarrow> fst (fst (read iface s)) = 0 \<or> fst (fst (read iface s)) = - 1"
    and counts_range: "ok s \<Longrightarrow> read iface s = ((0, bytes, packets), s') \<Longrightarrow>
      counts_ok bytes \<and> counts_ok packets"
    and still_ok: "ok s \<Longrightarrow> ok (snd (read iface s))"
    and reread: "read iface s = (r, s') \<Longrightarrow> read iface s' = (r, s')"
begin

text \<open>The difference of two readings, which the clients compute in an \<open>int\<close>, never overflows.\<close>

lemma difference_in_int:
  assumes "ok s" "read iface s = ((0, bytes, packets), s')"
    and "ok t" "read iface' t = ((0, bytes', packets'), t')"
  shows "in_int (bytes' d - bytes d)" "in_int (packets' d - packets d)"
  using counts_range [OF assms(1,2)] counts_range [OF assms(3,4)]
    counts_okD [of bytes d] counts_okD [of bytes' d] counts_okD [of packets d] counts_okD [of packets' d]
  by (auto simp: in_int_def)

lemma no_growth:
  assumes "read iface s = ((rc, bytes, packets), s')" "read iface s' = ((rc', bytes', packets'), s'')"
  shows "bytes' = bytes" "packets' = packets" "rc' = rc"
  using reread [OF assms(1)] assms(2) by simp_all

end

text \<open>The kernel prints no minus sign; a simulation keeps its counters in range.\<close>

definition proc_ok :: "string option \<Rightarrow> bool" where
  "proc_ok file \<longleftrightarrow> (\<forall>f. file = Some f \<longrightarrow> CHR ''-'' \<notin> set f)"

definition mocked_ok :: "mocked_stats \<Rightarrow> bool" where
  "mocked_ok mocked \<longleftrightarrow>
     (\<forall>iface st. mocked iface = Some st \<longrightarrow> counts_ok (stats_bytes st) \<and> counts_ok (stats_packets st))"

lemma proc_ok_print_file:
  assumes "CHR ''-'' \<notin> set header1" "CHR ''-'' \<notin> set header2"
    and "\<forall>dev \<in> set devs. CHR ''-'' \<notin> set (fst (snd dev))"
  shows "proc_ok (Some (print_file header1 header2 devs))"
  using assms print_columns_chars(2)
  by (auto simp: proc_ok_def print_file_def print_lines_def print_line_def newline_def)

lemma skip_line_subset: "set (skip_line f) \<subseteq> set f"
  by (auto simp: skip_line_def getline_def dest!: in_set_dropD set_dropWhileD)

interpretation proc: net_dev_source
  "\<lambda>iface file. (get_net_dev_stats_from_proc iface file b p, file)" proc_ok for b p
proof (unfold_locales, goal_cases)
  case (1 f iface)
  show ?case using parse_lines_rc by (simp add: get_net_dev_stats_from_proc_def Let_def)
next
  case (2 f iface bytes packets f')
  let ?f = "case f of None \<Rightarrow> [] | Some f \<Rightarrow> f"
  have "set (skip_line (skip_line ?f)) \<subseteq> set ?f" using skip_line_subset by blast
  then have "CHR ''-'' \<notin> set (skip_line (skip_line ?f))"
    using 2(1) by (auto simp: proc_ok_def split: option.splits)
  then show ?case
    using 2(2) parse_lines_ok by (simp add: get_net_dev_stats_from_proc_def Let_def) blast
qed auto

interpretation mock: net_dev_source get_mocked_net_dev_stats mocked_ok
proof (unfold_locales, goal_cases)
  case (1 mocked iface)
  show ?case by (simp add: get_mocked_net_dev_stats_def Let_def)
next
  case (2 mocked iface bytes packets mocked')
  then show ?case
    by (auto simp: get_mocked_net_dev_stats_def mocked_ok_def Let_def split: if_splits)
next
  case (3 mocked iface)
  then show ?case
    by (auto simp: get_mocked_net_dev_stats_def mocked_ok_def Let_def)
next
  case (4 iface mocked r mocked')
  then show ?case
    by (auto simp: get_mocked_net_dev_stats_def Let_def split: if_splits)
qed

subsection \<open>Counting in a simulation\<close>

definition counters_of :: "mocked_stats \<Rightarrow> string \<Rightarrow> BytesOrPackets \<Rightarrow> Direction \<Rightarrow> int" where
  "counters_of mocked iface what d =
     (case mocked iface of None \<Rightarrow> 0
      | Some st \<Rightarrow> (case what of BYTES \<Rightarrow> stats_bytes st d | PACKETS \<Rightarrow> stats_packets st d))"

lemma get_mocked_counters:
  "fst (get_mocked_net_dev_stats iface mocked) =
     (0, counters_of mocked iface BYTES, counters_of mocked iface PACKETS)"
  by (auto simp: get_mocked_net_dev_stats_def counters_of_def Let_def fun_eq_iff split: option.splits)

lemma add_value_Ok:
  assumes "in_int (counters_of mocked (getNetworkIface pm type) what d + n)"
  shows "\<exists>mocked'. add_value_to_array pm type what d n mocked = Ok mocked'
    \<and> (\<forall>iface what' d'. counters_of mocked' iface what' d' = counters_of mocked iface what' d'
        + (if iface = getNetworkIface pm type \<and> what' = what \<and> d' = d then n else 0))"
  using assms
  by (cases what)
     (auto simp: add_value_to_array_def get_mocked_net_dev_stats_def counters_of_def Let_def
       set_mocked_net_dev_stats_def split: BytesOrPackets.splits option.splits if_splits)

subsection \<open>Properties\<close>

text \<open>
  C5: \<open>get_net_dev_stats_from_proc\<close> reads back what the kernel prints, whatever the widths of its columns, as
  long as a blank separates the colon from the first number and each number from the next: with the first line
  whose name matches the interface, the result is 0 and the arrays hold fields 0, 1 (received bytes,
  packets) and 8, 9 (transmitted) of that line, if they fit an \<open>int\<close>.
\<close>

theorem proc_net_dev_roundtrip:
  assumes "newline \<notin> set header1" "newline \<notin> set header2"
    and "\<forall>dev \<in> set before. row_ok dev \<and> \<not> iface_matches iface (fst (snd dev) @ '':'')"
    and "row_ok (blanks, name, cs)" "iface_matches iface (name @ '':'')"
    and "\<forall>i \<in> {0, 1, 8, 9}. snd (cs ! i) < 2 ^ 31"
  shows "get_net_dev_stats_from_proc iface
      (Some (print_file header1 header2 (before @ (blanks, name, cs) # after))) bytes packets =
    (0, bytes(DOWN := int (snd (cs ! 0)), UP := int (snd (cs ! 8))),
     packets(DOWN := int (snd (cs ! 1)), UP := int (snd (cs ! 9))))"
  unfolding proc_print_file [OF assms(1,2)]
  using parse_lines_print(2) [of before iface "(blanks, name, cs)"] assms(3-6) by simp

text \<open>The lines as Linux pads them.\<close>

lemma proc_net_dev_roundtrip_witness:
  "get_net_dev_stats_from_proc ''rmnet0''
      (Some (print_file ''Inter-|   Receive'' '' face |bytes'' ([kernel_line ''lo'' (replicate 16 7)] @
        kernel_line ''rmnet0'' [123456789, 3, 0, 0, 0, 0, 0, 0, 700, 2, 0, 0, 0, 0, 0, 0] # [])))
      (\<lambda>_. - 1) (\<lambda>_. 0) = (0, (\<lambda>_. - 1)(DOWN := 123456789, UP := 700), (\<lambda>_. 0)(DOWN := 3, UP := 2))"
proof -
  let ?ns = "[123456789, 3, 0, 0, 0, 0, 0, 0, 700, 2, 0, 0, 0, 0, 0, 0]"
  have "row_ok (kernel_line ''lo'' (replicate 16 7))" "row_ok (kernel_line ''rmnet0'' ?ns)"
    by (simp_all add: isspace_def)
  moreover have "snd (snd (snd (kernel_line ''rmnet0'' ?ns)) ! i) = ?ns ! i" if "i \<in> {0, 1, 8, 9}" for i
    using that by (intro kernel_line_sel) auto
  ultimately show ?thesis
    using proc_net_dev_roundtrip [of "''Inter-|   Receive''" "'' face |bytes''" "[kernel_line ''lo'' (replicate 16 7)]" "''rmnet0''"
        "fst (kernel_line ''rmnet0'' ?ns)" "''rmnet0''" "snd (snd (kernel_line ''rmnet0'' ?ns))" "[]"]
    by (simp add: kernel_line_def iface_matches_def newline_def)
qed

text \<open>
  A counter of the interface that has outgrown an \<open>int\<close> makes
  the whole reading fail, with return code -1, although the line is well formed.
\<close>

theorem proc_net_dev_overflow:
  assumes "newline \<notin> set header1" "newline \<notin> set header2"
    and "\<forall>dev \<in> set before. row_ok dev \<and> \<not> iface_matches iface (fst (snd dev) @ '':'')"
    and "row_ok (blanks, name, cs)" "iface_matches iface (name @ '':'')"
    and "i \<in> {0, 1, 8, 9}" "2 ^ 31 \<le> snd (cs ! i)"
  shows "fst (get_net_dev_stats_from_proc iface
      (Some (print_file header1 header2 (before @ (blanks, name, cs) # after))) bytes packets) = - 1"
proof -
  have "\<not> (\<forall>i \<in> {0, 1, 8, 9}. snd (cs ! i) < 2 ^ 31)" using assms(6,7) by (auto simp: not_less)
  then show ?thesis
    unfolding proc_print_file [OF assms(1,2)]
    using parse_lines_print(1) [of before iface "(blanks, name, cs)" "after" bytes packets] assms(3-5) by auto
qed

lemma proc_net_dev_overflow_witness:
  "fst (get_net_dev_stats_from_proc ''rmnet0''
      (Some (print_file ''Inter'' ''face'' ([] @
        (0, ''rmnet0'', map (Pair 1) [2147483648, 3, 0, 0, 0, 0, 0, 0, 700, 2]) # [])))
      (\<lambda>_. - 1) (\<lambda>_. 0)) = - 1"
  by (rule proc_net_dev_overflow [of _ _ _ _ _ _ _ 0])
     (simp_all add: newline_def row_ok_def columns_ok_def iface_matches_def isspace_def)

text \<open>
  Where the kernel prints no blank behind the colon, the name that is read contains the first number. The
  reading succeeds, but all numbers come from one field further right: the packets are taken for the
  bytes. Kernels before 2.6.36 print such a line when the interface has received 10000000 bytes or more.
\<close>

theorem proc_net_dev_glued:
  assumes "newline \<notin> set header1" "newline \<notin> set header2"
    and "\<forall>dev \<in> set before. row_ok dev \<and> \<not> iface_matches iface (fst (snd dev) @ '':'')"
    and "\<forall>c \<in> set name. \<not> isspace c" "columns_ok cs" "10 \<le> length cs" "iface_matches iface (name @ '':'')"
    and "\<forall>i \<in> {0, 1, 8, 9}. snd (cs ! i) < 2 ^ 31"
  shows "get_net_dev_stats_from_proc iface
      (Some (print_file header1 header2 (before @ (blanks, name, (0, n) # cs) # after))) bytes packets =
    (0, bytes(DOWN := int (snd (cs ! 0)), UP := int (snd (cs ! 8))),
     packets(DOWN := int (snd (cs ! 1)), UP := int (snd (cs ! 9))))"
proof -
  let ?row = "(blanks, name, (0, n) # cs)"
  have ds: "\<forall>c \<in> set (print_nat n). \<not> isspace c" using print_nat_chars print_digit_ok by blast
  then have "\<forall>c \<in> set (name @ CHR '':'' # print_nat n). \<not> isspace c" using assms(4) by (auto simp: isspace_def)
  with read_string_print [OF print_columns_tail [OF assms(5)], of "name @ CHR '':'' # print_nat n" blanks]
  have name: "read_string (Some (print_line ?row)) [] = (name @ CHR '':'' # print_nat n, Some (print_columns cs))"
    by (simp add: print_line_def)
  have "length iface \<le> length (name @ '':'')" "take (length iface) (name @ '':'') = iface"
    using assms(7) unfolding iface_matches_def by (metis nat_le_linear take_all order_refl, simp)
  then have "iface_matches iface (name @ CHR '':'' # print_nat n)"
    unfolding iface_matches_def using take_append [of "length iface" "name @ '':''" "print_nat n"] by simp
  then have hit: "parse_lines iface (print_lines (?row # after)) bytes packets = parse_counters (Some (print_columns cs)) bytes packets"
    using print_line_no_newline [of ?row] assms(4) name
    by (subst parse_lines.simps) (simp add: print_lines_def getline_print)
  obtain c0 c1 c2 c3 c4 c5 c6 c7 c8 c9 ds where cs:
    "cs = c0 # c1 # c2 # c3 # c4 # c5 # c6 # c7 # c8 # c9 # ds" using ten_columns [OF assms(6)] by blast
  then have ok: "columns_ok (c1 # c2 # c3 # c4 # c5 # c6 # c7 # c8 # c9 # ds)"
    using assms(5) by (simp add: columns_ok_def)
  show ?thesis
    unfolding proc_print_file [OF assms(1,2)] parse_lines_before [OF assms(3)] hit
    using assms(8) unfolding cs by (simp add: parse_columns(2) [OF ok] del: print_columns.simps)
qed

lemma proc_net_dev_glued_witness:
  "get_net_dev_stats_from_proc ''rmnet0'' (Some (print_file ''Inter'' ''face''
      ([] @ old_kernel_line ''rmnet0'' [12345678, 9000, 0, 0, 0, 0, 0, 0, 700000, 800, 0, 0, 0, 0, 0, 0] # [])))
      (\<lambda>_. - 1) (\<lambda>_. 0) = (0, (\<lambda>_. - 1)(DOWN := 9000, UP := 800), (\<lambda>_. 0)(DOWN := 0, UP := 0))"
proof -
  let ?cs = "kernel_columns (tl kernel_widths) [9000, 0, 0, 0, 0, 0, 0, 700000, 800, 0, 0, 0, 0, 0, 0]"
  have "length (print_nat 12345678) = 8" by (simp add: print_nat.simps)
  then have "old_kernel_line ''rmnet0'' [12345678, 9000, 0, 0, 0, 0, 0, 0, 700000, 800, 0, 0, 0, 0, 0, 0]
      = (0, ''rmnet0'', (0, 12345678) # ?cs)" by (simp add: old_kernel_line_def)
  moreover have "10 \<le> length ?cs" "snd (?cs ! 0) = 9000" "snd (?cs ! 1) = 0" "snd (?cs ! 8) = 800" "snd (?cs ! 9) = 0"
    by (simp_all add: kernel_columns_def kernel_widths_def)
  ultimately show ?thesis
    using proc_net_dev_glued [of "''Inter''" "''face''" "[]" "''rmnet0''" "''rmnet0''" ?cs 0 12345678 "[]"]
    by (simp add: newline_def iface_matches_def isspace_def)
qed

text \<open>
  In a simulation \<open>add_bytes_down\<close> and its three siblings add to
  one counter of one interface, and \<open>get_mocked_net_dev_stats\<close> returns the sums: every other
  counter keeps its value, and an interface never used before starts at zero.
\<close>

theorem simulated_counters:
  assumes "in_int (counters_of mocked (getNetworkIface pm type) what d + n)"
  shows "\<exists>mocked'. add_value_to_array pm type what d n mocked = Ok mocked'
    \<and> fst (get_mocked_net_dev_stats (getNetworkIface pm type) mocked') =
      (0, (counters_of mocked (getNetworkIface pm type) BYTES)
            (d := counters_of mocked (getNetworkIface pm type) BYTES d
                  + (if what = BYTES then n else 0)),
          (counters_of mocked (getNetworkIface pm type) PACKETS)
            (d := counters_of mocked (getNetworkIface pm type) PACKETS d
                  + (if what = PACKETS then n else 0)))
    \<and> (\<forall>iface. iface \<noteq> getNetworkIface pm type \<longrightarrow>
        fst (get_mocked_net_dev_stats iface mocked') = fst (get_mocked_net_dev_stats iface mocked))"
  using add_value_Ok [OF assms]
  by (auto simp: get_mocked_counters fun_eq_iff intro!: exI)

lemma simulated_counters_witness:
  "\<exists>mocked'. add_value_to_array nexus_one TYPE_MOBILE BYTES DOWN 1500 Map.empty = Ok mocked'
    \<and> fst (get_mocked_net_dev_stats ''rmnet0'' mocked') = (0, (\<lambda>_. 0)(DOWN := 1500), \<lambda>_. 0)"
  using simulated_counters [of Map.empty nexus_one TYPE_MOBILE BYTES DOWN 1500]
  by (auto simp: counters_of_def in_int_def MOBILE_IFACE_def fun_eq_iff all_directions)

end
