(* ===== verification/Wifi_Rates.thy ===== *)
theory Wifi_Rates
  imports Remote Net_Dev
begin

text \<open>
  The WiFi side of \<^verbatim>\<open>libpowertutor.cpp\<close>: the variables under \<open>wifi_state_lock\<close>,
  \<open>update_wifi_estimated_rates\<close>, and the functions that read the rates for the power model.

  \<open>wifi_inv\<close> is the invariant. The rates are ceilings computed in \<open>double\<close>; over a whole
  number of seconds they are exact.
\<close>

definition TCP_HDR_SIZE :: int where
  "TCP_HDR_SIZE = 32"

definition IP_HDR_SIZE :: int where
  "IP_HDR_SIZE = 20"

definition MAX_80211G_CHANNEL_RATE :: int where
  "MAX_80211G_CHANNEL_RATE = 54"

record wifi_vars =
  wifi_data_rates :: "Direction \<Rightarrow> int"
  wifi_packet_rates :: "Direction \<Rightarrow> int"
  wifi_last_bytes :: "Direction \<Rightarrow> int"
  wifi_last_packets :: "Direction \<Rightarrow> int"
  last_wifi_observation :: timeval

definition wifi_vars_init :: wifi_vars where
  "wifi_vars_init =
     \<lparr>wifi_data_rates = (\<lambda>_. - 1), wifi_packet_rates = (\<lambda>_. - 1),
      wifi_last_bytes = (\<lambda>_. - 1), wifi_last_packets = (\<lambda>_. - 1),
      last_wifi_observation = timerclear\<rparr>"

subsection \<open>Sampling\<close>

text \<open>\<open>calc_rates\<close>: one iteration of its loop, and the loop; \<open>store_counts\<close>.\<close>

definition calc_rate :: "int \<Rightarrow> int \<Rightarrow> double \<Rightarrow> int result" where
  "calc_rate wifi_last current duration =
     bind_r (c_int (current - wifi_last)) (\<lambda>delta. d_to_int (d_ceil (divide (d_of_int delta) duration)))"

definition calc_rates ::
  "(Direction \<Rightarrow> int) \<Rightarrow> (Direction \<Rightarrow> int) \<Rightarrow> (Direction \<Rightarrow> int) \<Rightarrow> double \<Rightarrow> (Direction \<Rightarrow> int) result"
where
  "calc_rates wifi_rates wifi_last current duration =
     bind_r (calc_rate (wifi_last DOWN) (current DOWN) duration) (\<lambda>down.
     bind_r (calc_rate (wifi_last UP) (current UP) duration) (\<lambda>up.
     Ok (wifi_rates(DOWN := down, UP := up))))"

definition store_counts :: "(Direction \<Rightarrow> int) \<Rightarrow> (Direction \<Rightarrow> int) \<Rightarrow> Direction \<Rightarrow> int" where
  "store_counts wifi_last current = wifi_last(DOWN := current DOWN, UP := current UP)"

text \<open>
  \<open>stats\<close> is the result of \<open>get_net_dev_stats\<close> on the WiFi interface. The result is the
  return code, \<open>fire_callback\<close>, the variables and the clock position.
\<close>

definition update_wifi_estimated_rates ::
  "env \<Rightarrow> stats_result \<Rightarrow> bool \<Rightarrow> wifi_vars \<Rightarrow> nat \<Rightarrow> (int \<times> bool \<times> wifi_vars \<times> nat) result" where
  "update_wifi_estimated_rates e stats fire_callback w k = (case stats of (rc, bytes, packets) \<Rightarrow>
     if rc < 0 then Ok (rc, fire_callback, w, k)
     else
       let now = clock e k; k = Suc k in
       bind_r (TIMEDIFF (last_wifi_observation w) now) (\<lambda>diff.
       if tv_sec diff = 0 then Ok (0, fire_callback, w, k)
       else
         bind_r
           (if wifi_last_bytes w DOWN = - 1 then
              bind_r (c_assert (wifi_last_bytes w UP = - 1
                  \<and> wifi_last_packets w DOWN = - 1 \<and> wifi_last_packets w UP = - 1
                  \<and> wifi_data_rates w DOWN = - 1 \<and> wifi_data_rates w UP = - 1
                  \<and> wifi_packet_rates w DOWN = - 1 \<and> wifi_packet_rates w UP = - 1)) (\<lambda>_. Ok w)
            else
              bind_r (TIMEDIFF (last_wifi_observation w) now) (\<lambda>diff.
              let dur = d_of_int (tv_sec diff) + divide (d_of_int (tv_usec diff)) (Fin 1000000) in
              bind_r (calc_rates (wifi_data_rates w) (wifi_last_bytes w) bytes dur) (\<lambda>data_rates.
              bind_r (calc_rates (wifi_packet_rates w) (wifi_last_packets w) packets dur) (\<lambda>packet_rates.
              Ok (w\<lparr>wifi_data_rates := data_rates, wifi_packet_rates := packet_rates\<rparr>))))) (\<lambda>w.
         let w = w\<lparr>wifi_last_bytes := store_counts (wifi_last_bytes w) bytes,
                   wifi_last_packets := store_counts (wifi_last_packets w) packets,
                   last_wifi_observation := now\<rparr> in
         bind_r (c_int (wifi_packet_rates w DOWN + wifi_packet_rates w UP)) (\<lambda>rate.
         Ok (0, if rate > 5 then True else fire_callback, w, k)))))"

subsection \<open>What the power model reads\<close>

definition wifi_uplink_data_rate :: "wifi_vars \<Rightarrow> int" where
  "wifi_uplink_data_rate w = wifi_data_rates w UP"

definition wifi_packet_rate :: "build \<Rightarrow> remote_vars \<Rightarrow> wifi_vars \<Rightarrow> int result" where
  "wifi_packet_rate b r w =
     (if power_model_is_remote b then Ok (wifi_packet_rate_rps (remote_state r))
      else c_int (wifi_packet_rates w DOWN + wifi_packet_rates w UP))"

definition wifi_channel_rate :: int where
  "wifi_channel_rate = MAX_80211G_CHANNEL_RATE"

definition wifi_channel_rate_component :: "build \<Rightarrow> wifi_vars \<Rightarrow> int result" where
  "wifi_channel_rate_component b w =
     (if power_model_is_remote b then Ok 0
      else
        let channel_rate = wifi_channel_rate;
            channel_rate = (if channel_rate = - 1 then MAX_80211G_CHANNEL_RATE else channel_rate) in
        bind_r (d_to_int (divide (d_of_int (wifi_uplink_data_rate w) * Fin 8) (Fin 1000000))) (\<lambda>n.
        let uplink_data_rate = d_of_int n in
        d_to_int ((Fin 48 - dec 768 3 * d_of_int channel_rate) * uplink_data_rate)))"

definition wifi_mtu :: int where
  "wifi_mtu = 1500 - TCP_HDR_SIZE - IP_HDR_SIZE"

definition wifi_high_state :: "PowerModel \<Rightarrow> int \<Rightarrow> size_t \<Rightarrow> bool result" where
  "wifi_high_state pm packet_rate datalen =
     (let cur_packets = int_of_size (datalen div size_of_int wifi_mtu) in
      bind_r (c_int (cur_packets + (if datalen mod size_of_int wifi_mtu > 0 then 1 else 0)))
        (\<lambda>cur_packets.
      bind_r (c_int (cur_packets + packet_rate)) (\<lambda>n. Ok (n > WIFI_PACKET_RATE_THRESHOLD pm))))"

subsection \<open>Rates\<close>

lemma calc_rate_Ok:
  assumes "0 \<le> a" "a < 2 ^ 31" "0 \<le> c" "c < 2 ^ 31" "1 \<le> D" "D \<le> 2 ^ 41"
  shows "\<exists>r. calc_rate a c (Fin D) = Ok r
    \<and> (a \<le> c \<longrightarrow> 0 \<le> r \<and> r \<le> c - a) \<and> (a < c \<longrightarrow> 1 \<le> r) \<and> (c < a \<longrightarrow> c - a \<le> r \<and> r \<le> 0)"
proof -
  let ?n = "c - a"
  have int: "in_int ?n" "\<bar>?n\<bar> < 2 ^ 53" using assms by (auto simp: in_int_def)
  have q: "divide (d_of_int ?n) (Fin D) = to_double (of_int ?n / D)"
    using assms(5) int(2) by (simp add: d_of_int_Fin)
  define x where "x = (of_int ?n :: rat) / D"
  have D0: "0 < D" using assms(5) by simp
  have xle: "of_int (min 0 ?n) \<le> x" "x \<le> of_int (max 0 ?n)"
  proof -
    have "of_int (max 0 ?n) * 1 \<le> of_int (max 0 ?n) * D"
      by (rule mult_left_mono) (use assms(5) in auto)
    then show "x \<le> of_int (max 0 ?n)"
      using D0 by (auto simp: x_def divide_le_eq max_def split: if_splits)
    have "of_int (min 0 ?n) * D \<le> of_int (min 0 ?n) * 1"
      by (rule mult_left_mono_neg) (use assms(5) in auto)
    then show "of_int (min 0 ?n) \<le> x"
      using D0 by (auto simp: x_def le_divide_eq min_def split: if_splits)
  qed
  have "\<bar>min 0 ?n\<bar> < 2 ^ 53" "\<bar>max 0 ?n\<bar> < 2 ^ 53" using int(2) by auto
  then have "Fin (of_int (min 0 ?n)) \<le> to_double x" "to_double x \<le> Fin (of_int (max 0 ?n))"
    using xle to_double_ge_int to_double_le_int by blast+
  then obtain y where y: "to_double x = Fin y" "of_int (min 0 ?n) \<le> y" "y \<le> of_int (max 0 ?n)"
    by (cases "to_double x") auto
  then have c: "min 0 ?n \<le> \<lceil>y\<rceil>" "\<lceil>y\<rceil> \<le> max 0 ?n"
    by (metis ceiling_mono ceiling_of_int, simp add: ceiling_le_iff)
  moreover have "- (2 ^ 31) \<le> min 0 ?n" "max 0 ?n < 2 ^ 31" using assms by auto
  ultimately have "in_int \<lceil>y\<rceil>" unfolding in_int_def by linarith
  then have run: "calc_rate a c (Fin D) = Ok \<lceil>y\<rceil>"
    using int(1) y(1) by (simp add: calc_rate_def q x_def)
  have pos: "1 \<le> \<lceil>y\<rceil>" if "a < c"
  proof -
    have "(1 :: rat) \<le> of_int ?n" using that by (metis of_int_1_le_iff int_one_le_iff_zero_less diff_gt_0_iff_gt)
    then have "1 / 2 ^ 41 \<le> x" unfolding x_def using assms(5,6) by (intro frac_le) auto
    moreover have "(1 :: rat) / 2 ^ 200 \<le> 1 / 2 ^ 41" by simp
    ultimately have "x / 2 \<le> round64 x" "0 < x" using round64_eps(3) [of x] by (auto intro: less_le_trans)
    moreover have "round64 x = y" using y(1) by (auto simp: to_double_def Let_def split: if_splits)
    ultimately have "0 < y" by simp
    then show ?thesis by (simp add: int_one_le_iff_zero_less)
  qed
  show ?thesis using run c pos by (intro exI [of _ "\<lceil>y\<rceil>"]) auto
qed

lemma calc_rate_exact:
  assumes "0 \<le> a" "a \<le> c" "c < 2 ^ 31" "1 \<le> n" "n < 2 ^ 40"
  shows "calc_rate a c (Fin (of_int n)) = Ok (- ((a - c) div n))"
proof -
  let ?d = "c - a"
  define x where "x = (of_int ?d :: rat) / of_int n"
  have int: "in_int ?d" "\<bar>?d\<bar> < 2 ^ 53" using assms by (auto simp: in_int_def)
  have n0: "0 < (of_int n :: rat)" using assms(4) by simp
  have "\<lceil>x\<rceil> = - ((- ?d) div n)" unfolding x_def by (rule ceiling_divide_eq_div)
  then have cx: "\<lceil>x\<rceil> = - ((a - c) div n)" by simp
  have x0: "0 \<le> x" using assms n0 by (simp add: x_def)
  show ?thesis
  proof (cases "?d = 0")
    case True
    then show ?thesis using int n0 by (simp add: calc_rate_def d_of_int_def in_int_def d_trunc_def)
  next
    case False
    then have d1: "1 \<le> ?d" using assms(2) by simp
    obtain r where r: "calc_rate a c (Fin (of_int n)) = Ok r"
      using calc_rate_Ok [of a c "of_int n"] assms of_int_le_power_mono [of n 41] by auto
    have q: "divide (d_of_int ?d) (Fin (of_int n)) = to_double x"
      using n0 int(2) by (simp add: d_of_int_Fin x_def)
    have xd: "x \<le> of_int ?d"
      using assms(4) d1 n0 by (simp add: x_def divide_le_eq mult_le_cancel_left1)
    have "of_int ?d \<le> (2 ^ 31 :: rat)"
      using assms by (intro of_int_le_power_mono) simp
    also have "\<dots> \<le> 2 ^ 1023" by (rule power_increasing) simp_all
    finally have "x \<le> 2 ^ 1023" using xd by (rule order_trans [rotated])
    with x0 have t: "to_double x = Fin (round64 x)" by (rule to_double_Fin)
    have "1 / 2 ^ 40 \<le> x"
      unfolding x_def using d1 n0 assms(5) of_int_le_power_mono [of n 40] by (intro frac_le) auto
    moreover have "(2 :: rat) powi (- 1022) \<le> 1 / 2 ^ 40" by simp
    ultimately have "2 powi (- 1022) \<le> x" by linarith
    from round64_down [OF this] have down: "x - x / 2 ^ 53 \<le> round64 x" .
    have "x / 2 ^ 53 < 1 / of_int n"
    proof -
      have "?d < 2 ^ 53" using assms by auto
      then have "(of_int ?d :: rat) < 2 ^ 53" by (metis of_int_less_iff of_int_numeral of_int_power)
      then have "(of_int ?d :: rat) / 2 ^ 53 / of_int n < 1 / of_int n"
        using n0 by (intro divide_strict_right_mono) simp_all
      then show ?thesis by (simp add: x_def mult.commute)
    qed
    moreover have "of_int (\<lceil>x\<rceil> - 1) + 1 / of_int n \<le> x"
    proof -
      have "of_int (\<lceil>x\<rceil> - 1) < x" by linarith
      then have "of_int ((\<lceil>x\<rceil> - 1) * n) < (of_int ?d :: rat)" using n0 by (simp add: x_def field_simps)
      then have "(\<lceil>x\<rceil> - 1) * n + 1 \<le> ?d" by (simp only: of_int_less_iff)
      then have "(of_int ((\<lceil>x\<rceil> - 1) * n + 1) :: rat) \<le> of_int ?d" by (simp only: of_int_le_iff)
      then have "of_int ((\<lceil>x\<rceil> - 1) * n + 1) / of_int n \<le> x"
        unfolding x_def using n0 by (intro divide_right_mono) simp_all
      then show ?thesis using n0 by (simp add: add_divide_distrib)
    qed
    ultimately have low: "of_int (\<lceil>x\<rceil> - 1) < round64 x" using down by linarith
    have "round64 x \<le> of_int \<lceil>x\<rceil>"
    proof -
      have "\<bar>\<lceil>x\<rceil>\<bar> < 2 ^ 53"
        using x0 xd assms by (auto simp: ceiling_le_iff abs_less_iff intro: order.strict_trans1 [of _ ?d])
      then have "to_double x \<le> Fin (of_int \<lceil>x\<rceil>)" by (rule to_double_le_int) simp
      then show ?thesis by (simp add: t)
    qed
    with low have "\<lceil>round64 x\<rceil> = \<lceil>x\<rceil>" by linarith
    with r q t int(1) have "r = \<lceil>x\<rceil>" by (auto simp: calc_rate_def split: if_splits)
    with r cx show ?thesis by simp
  qed
qed


subsection \<open>The invariant\<close>

text \<open>
  The packet counters also fit an \<open>int\<close> when added up, as the code adds their rates.
  Before the first sample everything is -1, which is what the assertion of the code checks.
\<close>

definition small_counts :: "(Direction \<Rightarrow> int) \<Rightarrow> bool" where
  "small_counts b \<longleftrightarrow> counts_ok b \<and> b DOWN + b UP < 2 ^ 31"

definition rates_ok :: "(Direction \<Rightarrow> int) \<Rightarrow> bool" where
  "rates_ok r \<longleftrightarrow> (\<forall>d. in_int (r d))"

definition wifi_unknown :: "wifi_vars \<Rightarrow> bool" where
  "wifi_unknown w \<longleftrightarrow> wifi_last_bytes w = (\<lambda>_. - 1) \<and> wifi_last_packets w = (\<lambda>_. - 1)
     \<and> wifi_data_rates w = (\<lambda>_. - 1) \<and> wifi_packet_rates w = (\<lambda>_. - 1)"

definition wifi_known :: "wifi_vars \<Rightarrow> bool" where
  "wifi_known w \<longleftrightarrow> counts_ok (wifi_last_bytes w) \<and> small_counts (wifi_last_packets w)
     \<and> rates_ok (wifi_data_rates w) \<and> rates_ok (wifi_packet_rates w)
     \<and> in_int (wifi_packet_rates w DOWN + wifi_packet_rates w UP)"

definition wifi_inv :: "int \<Rightarrow> wifi_vars \<Rightarrow> bool" where
  "wifi_inv t w \<longleftrightarrow> stamp_ok t (last_wifi_observation w) \<and> (wifi_unknown w \<or> wifi_known w)"

lemma wifi_inv_init: "0 \<le> t \<Longrightarrow> wifi_inv t wifi_vars_init"
  by (simp add: wifi_inv_def wifi_vars_init_def stamp_ok_def wifi_unknown_def)

lemma wifi_inv_mono: "wifi_inv t w \<Longrightarrow> t \<le> t' \<Longrightarrow> wifi_inv t' w"
  by (auto simp: wifi_inv_def intro: stamp_ok_mono)

lemma store_counts_eq [simp]: "store_counts last_counts current = current"
  by (simp add: store_counts_def fun_eq_iff all_directions)

lemma calc_rates_Ok:
  assumes "counts_ok a" "counts_ok c" "1 \<le> D" "D \<le> 2 ^ 41"
  shows "\<exists>r. calc_rates old a c (Fin D) = Ok r
    \<and> (\<forall>d. calc_rate (a d) (c d) (Fin D) = Ok (r d)
        \<and> (a d \<le> c d \<longrightarrow> 0 \<le> r d \<and> r d \<le> c d - a d) \<and> (a d < c d \<longrightarrow> 1 \<le> r d)
        \<and> (c d < a d \<longrightarrow> c d - a d \<le> r d \<and> r d \<le> 0))"
proof -
  have "\<exists>r. calc_rate (a d) (c d) (Fin D) = Ok r
    \<and> (a d \<le> c d \<longrightarrow> 0 \<le> r \<and> r \<le> c d - a d) \<and> (a d < c d \<longrightarrow> 1 \<le> r)
    \<and> (c d < a d \<longrightarrow> c d - a d \<le> r \<and> r \<le> 0)" for d
    using counts_okD [OF assms(1), of d] counts_okD [OF assms(2), of d] assms(3,4)
    by (intro calc_rate_Ok) simp_all
  then obtain r where r: "\<And>d. calc_rate (a d) (c d) (Fin D) = Ok (r d)
    \<and> (a d \<le> c d \<longrightarrow> 0 \<le> r d \<and> r d \<le> c d - a d) \<and> (a d < c d \<longrightarrow> 1 \<le> r d)
    \<and> (c d < a d \<longrightarrow> c d - a d \<le> r d \<and> r d \<le> 0)" by metis
  moreover have "old(DOWN := r DOWN, UP := r UP) = r" by (simp add: fun_eq_iff all_directions)
  ultimately have "calc_rates old a c (Fin D) = Ok r" by (simp add: calc_rates_def)
  with r show ?thesis by blast
qed

lemma rates_bounded:
  assumes "counts_ok a" "counts_ok c"
    and "\<forall>d. (a d \<le> c d \<longrightarrow> 0 \<le> r d \<and> r d \<le> c d - a d) \<and> (c d < a d \<longrightarrow> c d - a d \<le> r d \<and> r d \<le> 0)"
  shows "rates_ok r" "\<And>d. - a d \<le> r d \<and> r d \<le> c d"
proof -
  show b: "- a d \<le> r d \<and> r d \<le> c d" for d
    using spec [OF assms(3), of d] counts_okD [OF assms(1), of d] counts_okD [OF assms(2), of d]
    by linarith
  show "rates_ok r"
    unfolding rates_ok_def in_int_def
  proof
    fix d
    show "- (2 ^ 31) \<le> r d \<and> r d < 2 ^ 31"
      using b [of d] counts_okD [OF assms(1), of d] counts_okD [OF assms(2), of d] by linarith
  qed
qed

text \<open>What one call does.\<close>

lemma update_wifi_step:
  assumes "steady e" "wifi_inv (tv_us (clock e k)) w" "counts_ok bytes" "small_counts packets" "0 \<le> rc"
  defines "us \<equiv> silent_us e (last_wifi_observation w) k"
  shows "\<exists>w'. update_wifi_estimated_rates e (rc, bytes, packets) fire w k
      = Ok (0, fire \<or> 1000000 \<le> us \<and> wifi_packet_rates w' DOWN + wifi_packet_rates w' UP > 5, w', Suc k)
    \<and> wifi_inv (tv_us (clock e (Suc k))) w'
    \<and> (us < 1000000 \<longrightarrow> w' = w)
    \<and> (1000000 \<le> us \<longrightarrow> wifi_last_bytes w' = bytes \<and> wifi_last_packets w' = packets
        \<and> last_wifi_observation w' = clock e k
        \<and> (wifi_unknown w \<longrightarrow> wifi_data_rates w' = (\<lambda>_. - 1) \<and> wifi_packet_rates w' = (\<lambda>_. - 1))
        \<and> (wifi_known w \<longrightarrow> (\<exists>dur. valid_tv dur \<and> tv_us dur = us \<and> (\<forall>d.
            calc_rate (wifi_last_bytes w d) (bytes d) (convert_to_seconds dur) = Ok (wifi_data_rates w' d)
            \<and> calc_rate (wifi_last_packets w d) (packets d) (convert_to_seconds dur)
                = Ok (wifi_packet_rates w' d)))))"
proof -
  have st: "stamp_ok (tv_us (clock e k)) (last_wifi_observation w)"
    using assms(2) by (simp add: wifi_inv_def)
  note later = stamp_ok_later [OF assms(1)] stamp_ok_clock [OF assms(1)]
  obtain d where d: "TIMEDIFF (last_wifi_observation w) (clock e k) = Ok d" "valid_tv d" "tv_us d = us"
    using TIMEDIFF_Ok [of "last_wifi_observation w" "clock e k"] assms(1) st
    by (auto simp: stamp_ok_def us_def silent_us_def)
  have rc: "(rc < 0) = False" using assms(5) by simp
  have or: "(if b then True else fire) = (fire \<or> b)" for b by simp
  have zero: "tv_sec d = 0 \<longleftrightarrow> us < 1000000"
    using d(2,3) by (auto simp: valid_tv_def tv_us_def)
  have pk: "counts_ok packets" using assms(4) by (simp add: small_counts_def)
  note run = update_wifi_estimated_rates_def prod.case rc if_False Let_def d(1) bind_r_Ok zero
  show ?thesis
  proof (cases "us < 1000000")
    case True
    then show ?thesis
      using assms(2) later(1) [OF st, of "Suc k"]
      by (intro exI [of _ w]) (simp add: run wifi_inv_def)
  next
    case late: False
    show ?thesis
    proof (cases "wifi_unknown w")
      case True
      then have "\<not> wifi_known w" by (auto simp: wifi_unknown_def wifi_known_def counts_ok_def)
      with True late show ?thesis
        using assms(3,4) later(2) [of k "Suc k"]
        by (auto simp: run wifi_unknown_def wifi_inv_def wifi_known_def in_int_def rates_ok_def)
    next
      case False
      then have kn: "counts_ok (wifi_last_bytes w)" "small_counts (wifi_last_packets w)" "wifi_known w"
        using assms(2) by (auto simp: wifi_inv_def wifi_known_def)
      then have pl: "counts_ok (wifi_last_packets w)" by (simp add: small_counts_def)
      obtain D where D: "convert_to_seconds d = Fin D" "D \<le> 2 ^ 41"
        using seconds_Fin [OF d(2)] by auto
      have D1: "1 \<le> D" using seconds_ge_iff [OF d(2), of 1] D(1) d(3) late by simp
      have dur: "d_of_int (tv_sec d) + divide (d_of_int (tv_usec d)) (Fin 1000000) = Fin D"
        using D(1) by (simp add: convert_to_seconds_def)
      obtain rb where rb: "calc_rates (wifi_data_rates w) (wifi_last_bytes w) bytes (Fin D) = Ok rb"
        "\<forall>d. calc_rate (wifi_last_bytes w d) (bytes d) (Fin D) = Ok (rb d)" "rates_ok rb"
        using calc_rates_Ok [OF kn(1) assms(3) D1 D(2)] rates_bounded(1) [OF kn(1) assms(3)] by metis
      obtain rp where rp: "calc_rates (wifi_packet_rates w) (wifi_last_packets w) packets (Fin D) = Ok rp"
        "\<forall>d. calc_rate (wifi_last_packets w d) (packets d) (Fin D) = Ok (rp d)" "rates_ok rp"
        "\<And>d. - wifi_last_packets w d \<le> rp d \<and> rp d \<le> packets d"
        using calc_rates_Ok [OF pl pk D1 D(2)] rates_bounded [OF pl pk] by metis
      have "in_int (rp DOWN + rp UP)"
        using rp(4) [of DOWN] rp(4) [of UP] assms(4) kn(2) by (simp add: small_counts_def in_int_def)
      moreover have "wifi_last_bytes w DOWN \<noteq> - 1" using counts_okD [OF kn(1), of DOWN] by auto
      ultimately show ?thesis
        using late rb rp(1-3) assms(3,4) later(2) [of k "Suc k"] kn(3) False D(1) d(2,3)
        by (intro exI [of _ "w\<lparr>wifi_data_rates := rb, wifi_packet_rates := rp, wifi_last_bytes := bytes,
              wifi_last_packets := packets, last_wifi_observation := clock e k\<rparr>"])
           (auto simp: run dur wifi_inv_def wifi_known_def intro!: exI [of _ d])
    qed
  qed
qed


subsection \<open>The terms of the WiFi power\<close>

lemma wifi_mtu_1448: "wifi_mtu = 1448"
  by (simp add: wifi_mtu_def TCP_HDR_SIZE_def IP_HDR_SIZE_def)

definition packets_of :: "nat \<Rightarrow> int" where
  "packets_of n = int ((n + 1447) div 1448)"

lemma packets_of_eq: "packets_of n = int (n div 1448) + (if n mod 1448 > 0 then 1 else 0)"
proof -
  define q r where "q = n div 1448" and "r = n mod 1448"
  have n: "n = 1448 * q + r" "r < 1448" by (simp_all add: q_def r_def)
  have "(1448 * q + r + 1447) div 1448 = q + (if r > 0 then 1 else 0)"
    using n(2) by (intro div_nat_eqI) auto
  then show ?thesis by (simp add: packets_of_def n(1) flip: q_def r_def) (simp add: n)
qed

lemma packets_of_ceiling: "packets_of n = \<lceil>of_nat n / (1448 :: rat)\<rceil>"
proof -
  have m: "int n mod 1448 = int (n mod 1448)" "int n div 1448 = int (n div 1448)"
    by (simp_all add: zmod_int zdiv_int)
  have "\<lceil>of_nat n / (1448 :: rat)\<rceil> = \<lceil>of_int (int n) / of_int 1448 :: rat\<rceil>" by simp
  also have "\<dots> = - ((- int n) div 1448)" by (rule ceiling_divide_eq_div)
  also have "\<dots> = packets_of n" by (simp add: packets_of_eq zdiv_zminus1_eq_if m)
  finally show ?thesis by simp
qed

lemma wifi_high_state_Ok:
  assumes "unat datalen < 2 ^ 40" "- (2 ^ 30) \<le> rate" "rate < 2 ^ 30"
  shows "wifi_high_state pm rate datalen =
    Ok (WIFI_PACKET_RATE_THRESHOLD pm < packets_of (unat datalen) + rate)"
proof -
  have m: "size_of_int wifi_mtu = 1448" by (simp add: size_of_int_def wifi_mtu_1448)
  have u: "uint (datalen div 1448) = int (unat datalen div 1448)"
    "uint (datalen mod 1448) = int (unat datalen mod 1448)"
    by (simp_all add: uint_div uint_mod zdiv_int zmod_int)
  have "unat datalen div 1448 < 2 ^ 30" using assms(1) by simp
  then have b: "int (unat datalen div 1448) < 2 ^ 30"
    by (metis of_nat_less_iff of_nat_numeral of_nat_power)
  then have q: "int_of_size (datalen div 1448) = int (unat datalen div 1448)"
    by (simp add: int_of_size_def u signed_take_bit_int_eq_self)
  have r: "datalen mod 1448 > 0 \<longleftrightarrow> unat datalen mod 1448 > 0"
    using u(2) by (simp add: word_greater_zero_iff uint_0_iff flip: uint_0_iff)
  have p: "packets_of (unat datalen) = int (unat datalen div 1448)
      + (if datalen mod 1448 > 0 then 1 else 0)"
    by (simp only: packets_of_eq r)
  then have "0 \<le> packets_of (unat datalen)" "packets_of (unat datalen) \<le> 2 ^ 30"
    using b by auto
  then show ?thesis
    using assms(2,3) by (simp add: wifi_high_state_def m q p [symmetric] in_int_def)
qed


lemma channel_slope: "\<exists>c. Fin 48 - dec 768 3 * d_of_int 54 = Fin c \<and> 6 \<le> c \<and> c \<le> 7"
  by (rule exI [of _ "918734323983581 / 140737488355328"]) (simp add: dec_def double_eval)

lemma channel_component_range:
  assumes "lo * 1000000 \<le> wifi_data_rates w UP * 8" "wifi_data_rates w UP * 8 \<le> hi * 1000000"
    and "- (2 ^ 15) \<le> lo" "lo \<le> 0" "0 \<le> hi" "hi \<le> 2 ^ 15"
  shows "\<exists>k. wifi_channel_rate_component b w = Ok k \<and> 7 * lo \<le> k \<and> k \<le> 7 * hi"
proof (cases "power_model_is_remote b")
  case True
  then show ?thesis using assms(4,5) by (simp add: wifi_channel_rate_component_def)
next
  case False
  let ?r = "wifi_data_rates w UP"
  have "\<bar>?r\<bar> < 2 ^ 53" "\<bar>?r * 8\<bar> < 2 ^ 53" using assms by auto
  then have eight: "d_of_int ?r * Fin 8 = Fin (of_int (?r * 8))"
    using to_double_of_int [of "?r * 8"] by (simp add: d_of_int_Fin)
  have "(of_int (lo * 1000000) :: rat) \<le> of_int (?r * 8)" "(of_int (?r * 8) :: rat) \<le> of_int (hi * 1000000)"
    using assms(1,2) by (simp_all only: of_int_le_iff)
  then have q: "of_int lo \<le> (of_int (?r * 8) / 1000000 :: rat)" "(of_int (?r * 8) / 1000000 :: rat) \<le> of_int hi"
    by (simp_all add: field_simps)
  have "in_int lo" "in_int hi" using assms(3-6) by (simp_all add: in_int_def)
  from d_to_int_rounded [OF q this] obtain n where
    n: "d_to_int (to_double (of_int (?r * 8) / 1000000)) = Ok n" "lo \<le> n" "n \<le> hi" by blast
  obtain c where c: "Fin 48 - dec 768 3 * d_of_int 54 = Fin c" "6 \<le> c" "c \<le> 7"
    using channel_slope by blast
  have "\<bar>n\<bar> < 2 ^ 53" using n(2,3) assms(3-6) by auto
  then have dn: "d_of_int n = Fin (of_int n)" by (rule d_of_int_Fin)
  have "7 * of_int lo \<le> c * of_int lo" using c assms(4) by (intro mult_right_mono_neg) simp_all
  also have "\<dots> \<le> c * of_int n" using c n(2) by (intro mult_left_mono) simp_all
  finally have low: "of_int (7 * lo) \<le> c * of_int n" by simp
  have "c * of_int n \<le> c * of_int hi" using c n(3) by (intro mult_left_mono) simp_all
  also have "\<dots> \<le> 7 * of_int hi" using c assms(5) by (intro mult_right_mono) simp_all
  finally have high: "c * of_int n \<le> of_int (7 * hi)" by simp
  have "in_int (7 * lo)" "in_int (7 * hi)" using assms(3-6) by (simp_all add: in_int_def)
  from d_to_int_rounded [OF low high this] obtain k where
    k: "d_to_int (to_double (c * of_int n)) = Ok k" "7 * lo \<le> k" "k \<le> 7 * hi" by blast
  have c54: "Fin 48 - dec 768 3 * Fin 54 = Fin c" using c(1) d_of_int_Fin [of 54] by simp
  have "wifi_channel_rate_component b w = Ok k"
    using False n(1) k(1)
    by (simp add: wifi_channel_rate_component_def wifi_channel_rate_def MAX_80211G_CHANNEL_RATE_def
        wifi_uplink_data_rate_def eight c54 dn d_of_int_Fin del: d_to_int.simps of_int_mult)
  with k show ?thesis by blast
qed

text \<open>Before the first rates are known the term is zero.\<close>

lemma channel_component_unknown:
  assumes "wifi_data_rates w UP = - 1"
  shows "wifi_channel_rate_component b w = Ok 0"
proof -
  have m: "d_of_int (- 1) = Fin (- 1)" "d_of_int 0 = Fin 0" "d_of_int 54 = Fin 54"
    using d_of_int_Fin [of "- 1"] d_of_int_Fin [of 0] d_of_int_Fin [of 54] by simp_all
  have e: "to_double (- 8) = Fin (- 8)" using to_double_of_int [of "- 8"] by simp
  have half: "to_double (- (1 / 2)) = Fin (- (1 / 2))" by (simp add: double_eval)
  have "to_double (- (1 / 2)) \<le> to_double (- (1 / 125000))" "to_double (- (1 / 125000)) \<le> to_double 0"
    by (rule to_double_mono; simp)+
  then obtain y where y: "to_double (- (1 / 125000)) = Fin y" "- (1 / 2) \<le> y" "y \<le> 0"
    unfolding half by (cases "to_double (- (1 / 125000))") auto
  then have "\<lceil>y\<rceil> = 0" "y = 0 \<or> \<not> 0 \<le> y" by (auto simp: ceiling_eq_iff)
  then have "d_trunc y = 0" by (auto simp: d_trunc_def)
  then have n: "d_to_int (Fin y) = Ok 0" by (simp add: in_int_def)
  obtain c where c: "Fin 48 - dec 768 3 * Fin 54 = Fin c" using channel_slope m(3) by auto
  have "d_to_int (Fin 0) = Ok 0" by (simp add: in_int_def d_trunc_def)
  then show ?thesis
    using assms y(1) n
    by (simp add: wifi_channel_rate_component_def wifi_channel_rate_def MAX_80211G_CHANNEL_RATE_def
        wifi_uplink_data_rate_def m e c del: d_to_int.simps)
qed

lemma channel_component_Ok:
  assumes "in_int (wifi_data_rates w UP)"
  shows "\<exists>c. wifi_channel_rate_component b w = Ok c \<and> \<bar>c\<bar> \<le> 2 ^ 18
    \<and> (- 1 \<le> wifi_data_rates w UP \<longrightarrow> 0 \<le> c)
    \<and> (wifi_data_rates w UP \<le> 15000000 \<longrightarrow> c \<le> 1000)"
proof -
  let ?r = "wifi_data_rates w UP"
  have r: "- (2 ^ 31) \<le> ?r" "?r < 2 ^ 31" using assms by (simp_all add: in_int_def)
  consider "?r = - 1" | "0 \<le> ?r" | "?r < - 1" by linarith
  then show ?thesis
  proof cases
    case 1
    then show ?thesis using channel_component_unknown by simp
  next
    case 2
    define hi where "hi = (if ?r \<le> 15000000 then 120 else 2 ^ 15 :: int)"
    have "?r * 8 \<le> hi * 1000000" using r by (simp add: hi_def)
    with 2 obtain k where "wifi_channel_rate_component b w = Ok k" "0 \<le> k" "k \<le> 7 * hi"
      using channel_component_range [of 0 w hi b] by (auto simp: hi_def split: if_splits)
    then show ?thesis by (auto simp: hi_def split: if_splits)
  next
    case 3
    then obtain k where "wifi_channel_rate_component b w = Ok k" "7 * - (2 ^ 15) \<le> k" "k \<le> 7 * 0"
      using channel_component_range [of "- (2 ^ 15)" w 0 b] r by auto
    with 3 show ?thesis by auto
  qed
qed

subsection \<open>Properties\<close>

definition wifi_sampled :: wifi_vars where
  "wifi_sampled = wifi_vars_init\<lparr>wifi_last_bytes := (\<lambda>_. 0), wifi_last_packets := (\<lambda>_. 0),
     last_wifi_observation := clock (ticking 3) 0\<rparr>"

lemma wifi_sampled_known [simp]: "wifi_known wifi_sampled"
  by (simp add: wifi_sampled_def wifi_vars_init_def wifi_known_def small_counts_def rates_ok_def in_int_def)

lemma wifi_sampled_sel [simp]:
  "wifi_last_bytes wifi_sampled = (\<lambda>_. 0)" "wifi_last_packets wifi_sampled = (\<lambda>_. 0)"
  "last_wifi_observation wifi_sampled = clock (ticking 3) 0"
  by (simp_all add: wifi_sampled_def)

lemma wifi_sampled_inv [simp]: "1000000000 \<le> t \<Longrightarrow> wifi_inv t wifi_sampled"
  by (simp add: wifi_inv_def stamp_ok_def valid_tv_def tv_us_def)

lemma some_counts [simp]: "counts_ok (\<lambda>_. 1000)" "small_counts (\<lambda>_. 10)"
  by (simp_all add: counts_ok_def small_counts_def)

text \<open>
  C21: with counters in range, \<open>update_wifi_estimated_rates\<close> returns 0
  without a fault (its assertion never fails) and keeps the invariant. It samples exactly when a
  second has passed since the last observation, else it changes nothing; the callback is fired
  exactly by a sample after which the packet rates add up to more than 5.
\<close>

theorem wifi_update_total:
  assumes "steady e" "wifi_inv (tv_us (clock e k)) w" "counts_ok bytes" "small_counts packets" "0 \<le> rc"
  shows "\<exists>w' sampled. update_wifi_estimated_rates e (rc, bytes, packets) fire w k
      = Ok (0, fire \<or> sampled \<and> wifi_packet_rates w' DOWN + wifi_packet_rates w' UP > 5, w', Suc k)
    \<and> wifi_inv (tv_us (clock e (Suc k))) w'
    \<and> (sampled \<longleftrightarrow> tv_us (clock e k) - tv_us (last_wifi_observation w) \<ge> 1000000)
    \<and> (if sampled then wifi_last_bytes w' = bytes \<and> wifi_last_packets w' = packets
         \<and> last_wifi_observation w' = clock e k else w' = w)"
  using update_wifi_step [OF assms, of fire] by (auto simp: silent_us_def not_le)

lemma wifi_update_total_witness:
  "\<exists>w'. update_wifi_estimated_rates (ticking 3) (0, \<lambda>_. 1000, \<lambda>_. 10) False wifi_vars_init 1
     = Ok (0, wifi_packet_rates w' DOWN + wifi_packet_rates w' UP > 5, w', 2)
   \<and> wifi_last_bytes w' = (\<lambda>_. 1000)"
  using wifi_update_total [of "ticking 3" 1 wifi_vars_init "\<lambda>_. 1000" "\<lambda>_. 10" 0 False]
    wifi_inv_init [of "tv_us (clock (ticking 3) 1)"]
  by (auto simp: tv_us_def wifi_vars_init_def timerclear_def numeral_2_eq_2)

text \<open>
  C27: when a whole number of seconds has passed since the last sample and the
  counters have grown, the rates computed in floating point are the exact ceilings of bytes and
  packets per second.
\<close>

theorem wifi_rates_exact:
  assumes "steady e" "wifi_inv (tv_us (clock e k)) w" "wifi_known w"
    and "counts_ok bytes" "small_counts packets"
    and "tv_us (clock e k) - tv_us (last_wifi_observation w) = n * 1000000" "1 \<le> n"
    and "wifi_last_bytes w d \<le> bytes d" "wifi_last_packets w d \<le> packets d"
  shows "\<exists>fire' w'. update_wifi_estimated_rates e (0, bytes, packets) fire w k = Ok (0, fire', w', Suc k)
    \<and> wifi_data_rates w' d = \<lceil>of_int (bytes d - wifi_last_bytes w d) / (of_int n :: rat)\<rceil>
    \<and> wifi_packet_rates w' d = \<lceil>of_int (packets d - wifi_last_packets w d) / (of_int n :: rat)\<rceil>"
proof -
  have us: "silent_us e (last_wifi_observation w) k = n * 1000000" using assms(6) by (simp add: silent_us_def)
  then obtain fire' w' dur where w': "update_wifi_estimated_rates e (0, bytes, packets) fire w k
      = Ok (0, fire', w', Suc k)" "valid_tv dur" "tv_us dur = n * 1000000"
    "calc_rate (wifi_last_bytes w d) (bytes d) (convert_to_seconds dur) = Ok (wifi_data_rates w' d)"
    "calc_rate (wifi_last_packets w d) (packets d) (convert_to_seconds dur) = Ok (wifi_packet_rates w' d)"
    using update_wifi_step [OF assms(1,2,4,5), of 0 fire] assms(3,7) by auto
  have n: "tv_sec dur = n" "tv_usec dur = 0" "n < 2 ^ 40"
    using tv_sec_div [OF w'(2)] tv_usec_mod [OF w'(2)] w'(2,3) by (simp_all add: valid_tv_def)
  then have D: "convert_to_seconds dur = Fin (of_int n)"
    using assms(7) to_double_of_int [of n] by (simp add: convert_to_seconds_def d_of_int_def)
  have "counts_ok (wifi_last_bytes w)" "counts_ok (wifi_last_packets w)" "counts_ok packets"
    using assms(3,5) by (simp_all add: wifi_known_def small_counts_def)
  then have "calc_rate (wifi_last_bytes w d) (bytes d) (Fin (of_int n))
      = Ok (- ((wifi_last_bytes w d - bytes d) div n))"
    "calc_rate (wifi_last_packets w d) (packets d) (Fin (of_int n))
      = Ok (- ((wifi_last_packets w d - packets d) div n))"
    using assms(4,7-9) n(3) counts_okD by (blast intro: calc_rate_exact)+
  then have "wifi_data_rates w' d = - ((- (bytes d - wifi_last_bytes w d)) div n)"
    "wifi_packet_rates w' d = - ((- (packets d - wifi_last_packets w d)) div n)"
    using w'(4,5) by (simp_all add: D)
  then show ?thesis using w'(1) by (simp only: ceiling_divide_eq_div) blast
qed

lemma wifi_rates_exact_witness:
  "\<exists>fire' w'. update_wifi_estimated_rates (ticking 3) (0, \<lambda>_. 1000, \<lambda>_. 10) False wifi_sampled 1
     = Ok (0, fire', w', 2) \<and> wifi_data_rates w' DOWN = 334 \<and> wifi_packet_rates w' DOWN = 4"
  using wifi_rates_exact [of "ticking 3" 1 wifi_sampled "\<lambda>_. 1000" "\<lambda>_. 10" 3 DOWN False]
  by (auto simp: tv_us_def ceiling_rat_numeral numeral_2_eq_2)

text \<open>
  Below a terabyte, \<open>wifi_high_state\<close> compares the packet rate
  and the number of full or partial packets of 1448 bytes with the threshold, with no wrap-around
  on the way from \<open>size_t\<close> to \<open>int\<close>.
\<close>

theorem wifi_high_state_packets:
  assumes "unat datalen < 2 ^ 40" "- (2 ^ 30) \<le> rate" "rate < 2 ^ 30"
  shows "wifi_high_state pm rate datalen =
    Ok (WIFI_PACKET_RATE_THRESHOLD pm < \<lceil>of_nat (unat datalen) / (1448 :: rat)\<rceil> + rate)"
  unfolding packets_of_ceiling [symmetric] by (rule wifi_high_state_Ok [OF assms])

lemma wifi_high_state_packets_witness: "wifi_high_state nexus_one 14 1449 = Ok True"
  by (subst wifi_high_state_packets) (simp_all add: ceiling_rat_numeral)

end
