(* ===== verification/Estimate.thy ===== *)
theory Estimate
  imports Mobile_State Wifi_Rates
begin

text \<open>
  The energy estimates of \<^verbatim>\<open>libpowertutor.cpp\<close>: what a transfer would cost on the
  cellular and on the WiFi interface. \<open>library\<close> gathers the variables of the components; the
  build decides whether an estimate is made from the local or from the remote ones.

  An \<open>EnergyComputer\<close> is a function, as the closure of the code is. The locale
  \<open>energy_estimator\<close> is the contract of such a function.
\<close>

record library =
  lib_mobile :: mobile_vars
  lib_remote :: remote_vars
  lib_wifi :: wifi_vars
  lib_mocked :: mocked_stats

type_synonym EnergyComputer = "size_t \<Rightarrow> size_t \<Rightarrow> size_t \<Rightarrow> int result"

subsection \<open>The state of the cellular interface\<close>

definition get_mobile_state :: "build \<Rightarrow> 'a library_scheme \<Rightarrow> MobileState result" where
  "get_mobile_state b s =
     (if power_model_is_remote b then MobileState_of_int (mobile_state_rps (remote_state (lib_remote s)))
      else Ok (mobile_state (lib_mobile s)))"

text \<open>
  The results are the downlink and the uplink queue. The code reads the packet counters into an
  array that nothing uses.
\<close>

definition get_mobile_queue_len ::
  "build \<Rightarrow> env \<Rightarrow> 'a library_scheme \<Rightarrow> nat \<Rightarrow> ((int \<times> int) \<times> 'a library_scheme \<times> nat) result" where
  "get_mobile_queue_len b e s k =
     (if power_model_is_remote b then
        Ok ((mobile_queue_len (remote_state (lib_remote s)) DOWN,
             mobile_queue_len (remote_state (lib_remote s)) UP), s, k)
      else
        case get_net_dev_stats b e k MOBILE_IFACE (\<lambda>_. - 1) (\<lambda>_. 0) (lib_mocked s) of
          ((rc, bytes, _), mocked) \<Rightarrow>
        let s = s\<lparr>lib_mocked := mocked\<rparr>; m = lib_mobile s; now = clock e k; k = Suc k in
        bind_r (TIMEDIFF (last_mobile_sample_time m) now) (\<lambda>_.
        let down_bytes = size_of_int (mobile_last_delta_bytes m DOWN);
            up_bytes = size_of_int (mobile_last_delta_bytes m UP) in
        bind_r
          (if rc = 0 \<and> mobile_last_bytes m DOWN \<noteq> - 1 then
             bind_r (c_int (bytes DOWN - mobile_last_bytes m DOWN)) (\<lambda>down.
             bind_r (c_int (bytes UP - mobile_last_bytes m UP)) (\<lambda>up. Ok (down, up)))
           else Ok (0, 0)) (\<lambda>(recent_down, recent_up).
        let down_bytes = down_bytes + size_of_int recent_down;
            up_bytes = up_bytes + size_of_int recent_up in
        Ok ((int_of_size down_bytes, int_of_size up_bytes), s, k))))"

definition get_mobile_queue_len_local ::
  "build \<Rightarrow> env \<Rightarrow> 'a library_scheme \<Rightarrow> nat \<Rightarrow> ((int \<times> int) \<times> 'a library_scheme \<times> nat) result" where
  "get_mobile_queue_len_local b e s k =
     bind_r (get_mobile_queue_len b e s k) (\<lambda>((down, up), s, k).
     let downlink = power_model_is_remote b
     in Ok (if downlink then (down, up) else (up, down), s, k))"

definition time_since_last_mobile_activity ::
  "build \<Rightarrow> env \<Rightarrow> 'a library_scheme \<Rightarrow> nat \<Rightarrow> (double \<times> nat) result" where
  "time_since_last_mobile_activity b e s k =
     (let activity = (if power_model_is_remote b then remote_last_mobile_activity (lib_remote s)
                      else last_mobile_activity (lib_mobile s))
      in time_since e activity k)"

subsection \<open>The cost of a cellular transfer\<close>

definition predicted_state ::
  "build \<Rightarrow> PowerModel \<Rightarrow> size_t \<Rightarrow> MobileState \<Rightarrow> int \<Rightarrow> int \<Rightarrow> MobileState result" where
  "predicted_state b pm datalen old_state queue_len ack_dir_queue_len =
     (let downlink = power_model_is_remote b;
          new_state = MOBILE_POWER_STATE_FACH;
          threshold = get_dch_threshold pm downlink;
          new_state =
            (if old_state = MOBILE_POWER_STATE_DCH
                \<or> size_of_int queue_len + datalen \<ge> size_of_int threshold
             then MOBILE_POWER_STATE_DCH else new_state);
          ack_dir_threshold = get_dch_threshold pm (\<not> downlink) in
      bind_r (c_int (ack_dir_queue_len + TCP_HDR_SIZE)) (\<lambda>a.
      bind_r (c_int (a + IP_HDR_SIZE)) (\<lambda>ack_dir_queue_pred.
      Ok (if ack_dir_queue_pred \<ge> ack_dir_threshold then MOBILE_POWER_STATE_DCH
          else new_state))))"

text \<open>
  The case distinction on the old and the new state: the pair of \<open>fach_energy\<close> and
  \<open>dch_energy\<close>. The code also converts the products it only logs (\<open>extend_energy\<close>).
\<close>

definition state_energies ::
  "PowerModel \<Rightarrow> MobileState \<Rightarrow> MobileState \<Rightarrow> double \<Rightarrow> double \<Rightarrow> (int \<times> int) result" where
  "state_energies pm old_state new_state duration idle_duration =
     (let fach_power = d_of_int (MOBILE_FACH_POWER pm);
          dch_power = d_of_int (MOBILE_DCH_POWER pm);
          fach_timer = MOBILE_FACH_INACTIVITY_TIMER pm;
          dch_timer = MOBILE_DCH_INACTIVITY_TIMER pm in
      case old_state of
        MOBILE_POWER_STATE_IDLE \<Rightarrow>
          if new_state = MOBILE_POWER_STATE_DCH then
            bind_r (d_to_int (fach_power * fach_timer)) (\<lambda>fach_energy.
            bind_r (d_to_int (dch_power * (duration + dch_timer))) (\<lambda>dch_energy.
            Ok (fach_energy, dch_energy)))
          else
            bind_r (d_to_int (fach_power * (duration + fach_timer))) (\<lambda>fach_energy.
            Ok (fach_energy, 0))
      | MOBILE_POWER_STATE_FACH \<Rightarrow>
          if new_state = MOBILE_POWER_STATE_DCH then
            bind_r (d_to_int (dch_power * (duration + dch_timer))) (\<lambda>dch_energy.
            let fach_duration = d_min idle_duration fach_timer in
            bind_r (d_to_int (fach_duration * fach_power)) (\<lambda>fach_energy.
            Ok (fach_energy, dch_energy)))
          else
            let fach_duration = d_min idle_duration fach_timer;
                duration = duration + fach_duration in
            bind_r (d_to_int (duration * fach_power)) (\<lambda>fach_energy.
            bind_r (d_to_int (fach_duration * fach_power)) (\<lambda>_.
            Ok (fach_energy, 0)))
      | MOBILE_POWER_STATE_DCH \<Rightarrow>
          let dch_duration = d_min idle_duration dch_timer;
              duration = duration + dch_duration in
          bind_r (d_to_int (duration * dch_power)) (\<lambda>dch_energy.
          bind_r (d_to_int (dch_duration * dch_power)) (\<lambda>_.
          Ok (0, dch_energy))))"

definition estimate_mobile_energy_cost_from_state ::
  "build \<Rightarrow> PowerModel \<Rightarrow> MobileState \<Rightarrow> double \<Rightarrow> int \<Rightarrow> int \<Rightarrow> EnergyComputer" where
  "estimate_mobile_energy_cost_from_state b pm old_state idle_duration queue_len ack_dir_queue_len
       datalen bandwidth rtt_ms =
     (let datalen = datalen + size_of_int (TCP_HDR_SIZE + IP_HDR_SIZE) in
      bind_r (predicted_state b pm datalen old_state queue_len ack_dir_queue_len) (\<lambda>new_state.
      let duration = divide (d_of_size datalen) (d_of_size bandwidth);
          duration = duration + divide (d_of_size rtt_ms) (Fin 1000) in
      bind_r (state_energies pm old_state new_state duration idle_duration)
        (\<lambda>(fach_energy, dch_energy).
      c_int (max 0 fach_energy + max 0 dch_energy))))"

subsection \<open>The cost of a WiFi transfer\<close>

definition wifi_energy_computer :: "PowerModel \<Rightarrow> int \<Rightarrow> int \<Rightarrow> EnergyComputer" where
  "wifi_energy_computer pm packet_rate channel_rate_component datalen bandwidth rtt_ms =
     bind_r (wifi_high_state pm packet_rate datalen) (\<lambda>high.
     bind_r
       (if high then c_int (WIFI_HIGH_POWER_BASE pm + channel_rate_component)
        else Ok (WIFI_LOW_POWER pm)) (\<lambda>power.
     d_to_int (d_ceil (divide (d_of_size datalen) (d_of_size bandwidth)
                       + divide (d_of_size rtt_ms) (Fin 1000)) * d_of_int power)))"

subsection \<open>The interface\<close>

definition get_energy_computer ::
  "build \<Rightarrow> PowerModel \<Rightarrow> env \<Rightarrow> NetworkType \<Rightarrow> 'a library_scheme \<Rightarrow> nat
   \<Rightarrow> (EnergyComputer \<times> 'a library_scheme \<times> nat) result" where
  "get_energy_computer b pm e type s k = (case type of
     TYPE_MOBILE \<Rightarrow>
       bind_r (get_mobile_queue_len_local b e s k) (\<lambda>((queue_len, ack_dir_queue_len), s, k).
       bind_r (get_mobile_state b s) (\<lambda>old_state.
       bind_r (time_since_last_mobile_activity b e s k) (\<lambda>(idle_duration, k).
       Ok (estimate_mobile_energy_cost_from_state b pm old_state idle_duration
             queue_len ack_dir_queue_len, s, k))))
   | TYPE_WIFI \<Rightarrow>
       bind_r (wifi_packet_rate b (lib_remote s) (lib_wifi s)) (\<lambda>packet_rate.
       bind_r (wifi_channel_rate_component b (lib_wifi s)) (\<lambda>channel_rate_component.
       Ok (wifi_energy_computer pm packet_rate channel_rate_component, s, k))))"

definition estimate_mobile_energy_cost ::
  "build \<Rightarrow> PowerModel \<Rightarrow> env \<Rightarrow> size_t \<Rightarrow> size_t \<Rightarrow> size_t \<Rightarrow> 'a library_scheme \<Rightarrow> nat
   \<Rightarrow> (int \<times> 'a library_scheme \<times> nat) result" where
  "estimate_mobile_energy_cost b pm e datalen bandwidth rtt_ms s k =
     bind_r (get_energy_computer b pm e TYPE_MOBILE s k) (\<lambda>(energy_computer, s, k).
     bind_r (energy_computer datalen bandwidth rtt_ms) (\<lambda>n. Ok (n, s, k)))"

definition estimate_wifi_energy_cost ::
  "build \<Rightarrow> PowerModel \<Rightarrow> env \<Rightarrow> size_t \<Rightarrow> size_t \<Rightarrow> size_t \<Rightarrow> 'a library_scheme \<Rightarrow> nat
   \<Rightarrow> (int \<times> 'a library_scheme \<times> nat) result" where
  "estimate_wifi_energy_cost b pm e datalen bandwidth rtt_ms s k =
     bind_r (get_energy_computer b pm e TYPE_WIFI s k) (\<lambda>(energy_calculator, s, k).
     bind_r (energy_calculator datalen bandwidth rtt_ms) (\<lambda>n. Ok (n, s, k)))"

definition estimate_energy_cost ::
  "build \<Rightarrow> PowerModel \<Rightarrow> env \<Rightarrow> NetworkType \<Rightarrow> size_t \<Rightarrow> size_t \<Rightarrow> size_t \<Rightarrow> 'a library_scheme
   \<Rightarrow> nat \<Rightarrow> (int \<times> 'a library_scheme \<times> nat) result" where
  "estimate_energy_cost b pm e type datalen bandwidth rtt_ms s k = (case type of
     TYPE_MOBILE \<Rightarrow> estimate_mobile_energy_cost b pm e datalen bandwidth rtt_ms s k
   | TYPE_WIFI \<Rightarrow> estimate_wifi_energy_cost b pm e datalen bandwidth rtt_ms s k)"

definition estimate_pegged_cpu_energy :: "PowerModel \<Rightarrow> double \<Rightarrow> int result" where
  "estimate_pegged_cpu_energy pm seconds = d_to_int (pm_estimate_pegged_cpu_energy pm seconds)"

text \<open>The average over the states: one iteration of the loop per state.\<close>

fun average_loop ::
  "build \<Rightarrow> PowerModel \<Rightarrow> env \<Rightarrow> size_t \<Rightarrow> size_t \<Rightarrow> size_t \<Rightarrow> 'a library_scheme
   \<Rightarrow> MobileState list \<Rightarrow> double \<Rightarrow> nat \<Rightarrow> (double \<times> nat) result" where
  "average_loop b pm e datalen avg_bandwidth avg_rtt_ms s [] weighted_energy_cost k =
     Ok (weighted_energy_cost, k)"
| "average_loop b pm e datalen avg_bandwidth avg_rtt_ms s (state # rest) weighted_energy_cost k =
     (let idle_duration = average_idle_duration_for_state state (lib_mobile s) in
      bind_r (estimate_mobile_energy_cost_from_state b pm state idle_duration 0 0
                datalen avg_bandwidth avg_rtt_ms) (\<lambda>energy_cost.
      bind_r (time_fraction_in_state e state (lib_mobile s) k) (\<lambda>(weight, k).
      average_loop b pm e datalen avg_bandwidth avg_rtt_ms s rest
        (weighted_energy_cost + weight * d_of_int energy_cost) k)))"

definition estimate_mobile_energy_cost_average ::
  "build \<Rightarrow> PowerModel \<Rightarrow> env \<Rightarrow> size_t \<Rightarrow> size_t \<Rightarrow> size_t \<Rightarrow> 'a library_scheme \<Rightarrow> nat
   \<Rightarrow> (int \<times> nat) result" where
  "estimate_mobile_energy_cost_average b pm e datalen avg_bandwidth avg_rtt_ms s k =
     bind_r (average_loop b pm e datalen avg_bandwidth avg_rtt_ms s mobile_states (Fin 0) k)
       (\<lambda>(weighted_energy_cost, k).
     bind_r (d_to_int weighted_energy_cost) (\<lambda>n. Ok (n, k)))"

declare of_int_uint [simp del]

subsection \<open>Energies in floating point\<close>

lemma d_plus_Fin:
  assumes "0 \<le> a" "0 \<le> b" "a + b \<le> 2 ^ 22"
  shows "\<exists>c. Fin a + Fin b = Fin c \<and> \<bar>c - (a + b)\<bar> \<le> 1 / 2 ^ 30 \<and> 0 \<le> c"
proof -
  have "a + b \<le> 2 ^ 1023" using assms(3) power_increasing [of 22 1023 "2 :: rat"] by simp
  then have "to_double (a + b) = Fin (round64 (a + b))" using assms by (intro to_double_Fin) simp_all
  then show ?thesis
    using round64_abs_error [of "a + b"] assms round64_nonneg [of "a + b"]
    by (intro exI [of _ "round64 (a + b)"]) simp
qed

lemma energy_product:
  assumes "0 < P" "P \<le> 1000" "0 \<le> t" "t \<le> 2000020"
  shows "\<exists>n. d_to_int (d_of_int P * Fin t) = Ok n \<and> d_to_int (Fin t * d_of_int P) = Ok n
    \<and> 0 \<le> n \<and> n \<le> 2000020000 \<and> \<bar>of_int n - of_int P * t\<bar> < 1"
proof -
  let ?x = "of_int P * t"
  have P: "d_of_int P = Fin (of_int P)" using assms by (intro d_of_int_Fin) auto
  have Pr: "0 < (of_int P :: rat)" "(of_int P :: rat) \<le> 1000"
    using assms(1,2) by (metis of_int_0_less_iff) (metis assms(2) of_int_le_iff of_int_numeral)
  have x: "0 \<le> ?x" "?x \<le> 2000020000"
    using assms(3,4) Pr mult_mono [of "of_int P" 1000 t 2000020] by simp_all
  have fc: "of_int \<lfloor>?x\<rfloor> \<le> ?x" "?x \<le> of_int \<lceil>?x\<rceil>" by simp_all
  have fb: "0 \<le> \<lfloor>?x\<rfloor>" "\<lceil>?x\<rceil> \<le> 2000020000" using x by (simp_all add: le_floor_iff ceiling_le_iff)
  have fl: "\<lfloor>?x\<rfloor> \<le> \<lceil>?x\<rceil>" by (rule floor_le_ceiling)
  have "\<bar>\<lfloor>?x\<rfloor>\<bar> < 2 ^ 53" "\<bar>\<lceil>?x\<rceil>\<bar> < 2 ^ 53" using fb fl by auto
  from to_double_range [OF fc this] obtain y where
    y: "to_double ?x = Fin y" "of_int \<lfloor>?x\<rfloor> \<le> y" "y \<le> of_int \<lceil>?x\<rceil>" by blast
  have "in_int \<lfloor>?x\<rfloor>" "in_int \<lceil>?x\<rceil>" using fb fl by (auto simp: in_int_def)
  then obtain n where n: "d_to_int (Fin y) = Ok n" "\<lfloor>?x\<rfloor> \<le> n" "n \<le> \<lceil>?x\<rceil>"
    using d_to_int_between [of "\<lfloor>?x\<rfloor>" "Fin y" "\<lceil>?x\<rceil>"] y(2,3) by (auto simp del: d_to_int.simps)
  then have "of_int \<lfloor>?x\<rfloor> \<le> (of_int n :: rat)" "(of_int n :: rat) \<le> of_int \<lceil>?x\<rceil>"
    by (simp_all only: of_int_le_iff)
  then have "\<bar>of_int n - ?x\<bar> < 1" by linarith
  moreover have "0 \<le> n" "n \<le> 2000020000" using n fb by linarith+
  ultimately show ?thesis
    using n(1) y(1) P by (intro exI [of _ n]) (simp add: mult.commute del: d_to_int.simps)
qed

lemma d_of_size_Fin: "uint w < 2 ^ 53 \<Longrightarrow> d_of_size w = Fin (of_int (uint w))"
  unfolding d_of_size_def by (rule to_double_of_int) simp

lemma of_int_positive: "1 \<le> n \<Longrightarrow> 0 < (of_int n :: rat)"
  by simp

text \<open>
  The duration the code computes and the exact one. \<open>transfer_ok\<close> bounds the arguments of an
  estimate: a transfer below a terabyte and six days, on a link that is up.
\<close>

definition transfer_seconds :: "size_t \<Rightarrow> size_t \<Rightarrow> size_t \<Rightarrow> double" where
  "transfer_seconds datalen bandwidth rtt_ms =
     divide (d_of_size datalen) (d_of_size bandwidth) + divide (d_of_size rtt_ms) (Fin 1000)"

definition transfer_ok :: "size_t \<Rightarrow> size_t \<Rightarrow> size_t \<Rightarrow> bool" where
  "transfer_ok datalen bandwidth rtt_ms \<longleftrightarrow>
     uint datalen < 2 ^ 40 \<and> 1 \<le> uint bandwidth \<and> uint bandwidth < 2 ^ 50
     \<and> uint datalen + 52 \<le> 500000 * uint bandwidth \<and> uint rtt_ms \<le> 500000000"

definition exact_seconds :: "int \<Rightarrow> int \<Rightarrow> int \<Rightarrow> rat" where
  "exact_seconds datalen bandwidth rtt_ms =
     of_int datalen / of_int bandwidth + of_int rtt_ms / 1000"

lemma transfer_seconds_Fin:
  assumes "0 \<le> uint d" "uint d < 2 ^ 41" "1 \<le> uint bw" "uint bw < 2 ^ 50"
    "uint d \<le> 500000 * uint bw" "uint rtt \<le> 500000000"
  shows "\<exists>D. transfer_seconds d bw rtt = Fin D \<and> 0 \<le> D \<and> D \<le> 1000001
    \<and> \<bar>D - exact_seconds (uint d) (uint bw) (uint rtt)\<bar> \<le> 3 / 2 ^ 30"
proof -
  let ?a = "of_int (uint d) / of_int (uint bw) :: rat" and ?b = "of_int (uint rtt) / 1000 :: rat"
  have bw: "0 < (of_int (uint bw) :: rat)" using assms(3) by (rule of_int_positive)
  have f: "d_of_size d = Fin (of_int (uint d))" "d_of_size bw = Fin (of_int (uint bw))"
    "d_of_size rtt = Fin (of_int (uint rtt))"
    using assms by (auto intro!: d_of_size_Fin)
  have "(of_int (uint d) :: rat) \<le> of_int (500000 * uint bw)"
    using assms(5) by (simp only: of_int_le_iff)
  then have a: "0 \<le> ?a" "?a \<le> 500000" using bw by (simp_all add: divide_le_eq)
  have "(of_int (uint rtt) :: rat) \<le> of_int 500000000" using assms(6) by (simp only: of_int_le_iff)
  then have b: "0 \<le> ?b" "?b \<le> 500000" by simp_all
  have big: "(500000 :: rat) \<le> 2 ^ 22" "(2 ^ 22 :: rat) \<le> 2 ^ 1023"
    by (simp, rule power_increasing) simp_all
  have t: "to_double ?a = Fin (round64 ?a)" "to_double ?b = Fin (round64 ?b)"
    using a b big by (auto intro!: to_double_Fin intro: order_trans)
  have ea: "\<bar>round64 ?a - ?a\<bar> \<le> 1 / 2 ^ 30" "0 \<le> round64 ?a" "round64 ?a \<le> 500000"
    using round64_abs_error [of ?a] a big round64_nonneg [of ?a] ieee.rnd_le_int [of 500000 ?a] by auto
  have eb: "\<bar>round64 ?b - ?b\<bar> \<le> 1 / 2 ^ 30" "0 \<le> round64 ?b" "round64 ?b \<le> 500000"
    using round64_abs_error [of ?b] b big round64_nonneg [of ?b] ieee.rnd_le_int [of 500000 ?b] by auto
  obtain D where D: "Fin (round64 ?a) + Fin (round64 ?b) = Fin D"
    "\<bar>D - (round64 ?a + round64 ?b)\<bar> \<le> 1 / 2 ^ 30" "0 \<le> D"
    using d_plus_Fin [OF ea(2) eb(2)] ea(3) eb(3) by auto
  have "transfer_seconds d bw rtt = Fin D"
    using bw D(1) t by (simp add: transfer_seconds_def f)
  moreover have "(1 :: rat) / 2 ^ 30 \<le> 1" by simp
  then have "D \<le> 1000001" using D(2) ea(3) eb(3) by linarith
  moreover have "\<bar>D - (?a + ?b)\<bar> \<le> 3 / 2 ^ 30" using D(2) ea(1) eb(1) by linarith
  ultimately show ?thesis using D(3) by (auto simp: exact_seconds_def)
qed

lemma transfer_seconds_mono:
  assumes "uint d \<le> uint d'" "1 \<le> uint bw" "uint bw < 2 ^ 50"
  shows "transfer_seconds d bw rtt \<le> transfer_seconds d' bw rtt"
proof -
  have bw: "d_of_size bw = Fin (of_int (uint bw))" "0 < (of_int (uint bw) :: rat)"
    using assms(3) d_of_size_Fin of_int_positive [OF assms(2)] by simp_all
  have "d_of_size d \<le> d_of_size d'"
    unfolding d_of_size_def using assms(1) by (intro to_double_mono) (simp only: of_int_le_iff)
  then show ?thesis
    unfolding transfer_seconds_def bw(1) using bw(2)
    by (intro d_plus_mono d_divide_mono d_divide_nonneg d_le_refl)
       (auto simp: d_of_size_def)
qed


subsection \<open>The exact cost\<close>

text \<open>
  \<open>extension timer idle\<close>: for how much of an inactivity timer the radio has been idle, which is
  what a transfer makes it pay again.
\<close>

definition extension :: "rat \<Rightarrow> double \<Rightarrow> rat" where
  "extension timer idle = (case idle of Fin i \<Rightarrow> min i timer | _ \<Rightarrow> timer)"

text \<open>The cost of \<open>t\<close> seconds of transfer, in exact arithmetic.\<close>

definition exact_cost :: "PowerModel \<Rightarrow> MobileState \<Rightarrow> MobileState \<Rightarrow> rat \<Rightarrow> double \<Rightarrow> rat" where
  "exact_cost pm old_state new_state t idle =
     (let fach = of_int (MOBILE_FACH_POWER pm); dch = of_int (MOBILE_DCH_POWER pm) in
      case old_state of
        MOBILE_POWER_STATE_IDLE \<Rightarrow>
          if new_state = MOBILE_POWER_STATE_DCH then fach * 6 + dch * (t + 4) else fach * (t + 6)
      | MOBILE_POWER_STATE_FACH \<Rightarrow>
          if new_state = MOBILE_POWER_STATE_DCH then fach * extension 6 idle + dch * (t + 4)
          else fach * (t + extension 6 idle)
      | MOBILE_POWER_STATE_DCH \<Rightarrow> dch * (t + extension 4 idle))"

lemma d_min_extension:
  assumes "Fin 0 \<le> idle" "0 \<le> timer"
  shows "d_min idle (Fin timer) = Fin (extension timer idle)"
    and "0 \<le> extension timer idle" "extension timer idle \<le> timer"
  using assms by (cases idle; auto simp: d_min_def extension_def less_double_def)+

lemma energy_sum:
  assumes "0 < P" "P \<le> 1000" "0 \<le> D" "D \<le> 2000001" "0 \<le> c" "c \<le> 6"
  shows "\<exists>n. d_to_int (d_of_int P * (Fin D + Fin c)) = Ok n \<and> d_to_int ((Fin D + Fin c) * d_of_int P) = Ok n
    \<and> 0 \<le> n \<and> n \<le> 2000020000 \<and> \<bar>of_int n - of_int P * (D + c)\<bar> \<le> 1 + 1 / 2 ^ 20"
proof -
  obtain s where s: "Fin D + Fin c = Fin s" "\<bar>s - (D + c)\<bar> \<le> 1 / 2 ^ 30" "0 \<le> s"
    using d_plus_Fin [of D c] assms(3-6) by auto
  have "(1 :: rat) / 2 ^ 30 \<le> 1" by simp
  then have "s \<le> 2000020" using s(2) assms(4,6) by linarith
  from energy_product [OF assms(1,2) s(3) this] obtain n where n:
    "d_to_int (d_of_int P * Fin s) = Ok n" "d_to_int (Fin s * d_of_int P) = Ok n"
    "0 \<le> n" "n \<le> 2000020000" "\<bar>of_int n - of_int P * s\<bar> < 1" by blast
  have Pr: "0 \<le> (of_int P :: rat)" "(of_int P :: rat) \<le> 1000"
    using assms(1,2) by simp (metis assms(2) of_int_le_iff of_int_numeral)
  have "\<bar>of_int P * s - of_int P * (D + c)\<bar> = of_int P * \<bar>s - (D + c)\<bar>"
    using Pr(1) by (simp add: abs_mult flip: right_diff_distrib)
  also have "\<dots> \<le> 1000 * (1 / 2 ^ 30)" using Pr s(2) by (intro mult_mono) simp_all
  also have "\<dots> \<le> 1 / 2 ^ 20" by simp
  finally have "\<bar>of_int n - of_int P * (D + c)\<bar> \<le> 1 + 1 / 2 ^ 20" using n(5) by linarith
  with n s(1) show ?thesis by auto
qed

lemma energies_near:
  assumes "E = Ok (a, c)" "C = x + y" "0 \<le> a" "a \<le> 10000" "\<bar>of_int a - x\<bar> \<le> 1"
    and "0 \<le> c" "c \<le> 2000020000" "\<bar>of_int c - y\<bar> \<le> 1 + 1 / 2 ^ 20"
  shows "\<exists>f d. E = Ok (f, d) \<and> 0 \<le> f \<and> 0 \<le> d \<and> f + d \<le> 2000030000
    \<and> \<bar>of_int (f + d) - C\<bar> \<le> (5 / 2 :: rat)"
proof -
  have "(1 :: rat) / 2 ^ 20 \<le> 1 / 4" by simp
  then have "\<bar>of_int a + of_int c - C\<bar> \<le> 5 / 2" using assms(2,5,8) by linarith
  with assms show ?thesis by auto
qed

lemma state_energies_Ok:
  assumes "power_model pm" "0 \<le> D" "D \<le> 2000001" "Fin 0 \<le> idle"
  shows "\<exists>f d. state_energies pm old_state new_state (Fin D) idle = Ok (f, d) \<and> 0 \<le> f \<and> 0 \<le> d
    \<and> f + d \<le> 2000030000
    \<and> \<bar>of_int (f + d) - exact_cost pm old_state new_state D idle\<bar> \<le> 5 / 2"
proof -
  note sp = power_model.state_powers [OF assms(1)]
  let ?f = "MOBILE_FACH_POWER pm" and ?d = "MOBILE_DCH_POWER pm"
  have pos: "0 < ?f" "?f \<le> 1000" "0 < ?d" "?d \<le> 1000" using sp by linarith+
  note tm = power_model.timers [OF assms(1)]
  note x6 = d_min_extension [OF assms(4), of 6] and x4 = d_min_extension [OF assms(4), of 4]
  note ef = energy_sum [OF pos(1,2) assms(2,3)] and ed = energy_sum [OF pos(3,4) assms(2,3)]
  have pf: "\<exists>n. d_to_int (d_of_int ?f * Fin t) = Ok n \<and> d_to_int (Fin t * d_of_int ?f) = Ok n
      \<and> 0 \<le> n \<and> n \<le> 10000 \<and> \<bar>of_int n - of_int ?f * t\<bar> < 1" if t0: "0 \<le> t" and t6: "t \<le> 6" for t
  proof -
    obtain n where n: "d_to_int (d_of_int ?f * Fin t) = Ok n" "d_to_int (Fin t * d_of_int ?f) = Ok n"
      "0 \<le> n" "\<bar>of_int n - of_int ?f * t\<bar> < 1"
      using energy_product [OF pos(1,2) t0] t6 by auto
    have "of_int ?f * t \<le> 1000 * 6"
      using t0 t6 pos of_int_le_iff [of ?f 1000, where ?'a = rat] by (intro mult_mono) simp_all
    then have "of_int n \<le> (of_int 10000 :: rat)" using n(4) by simp
    then have "n \<le> 10000" by (simp only: of_int_le_iff)
    with n show ?thesis by auto
  qed
  show ?thesis
  proof (cases old_state)
    case MOBILE_POWER_STATE_IDLE
    show ?thesis
    proof (cases "new_state = MOBILE_POWER_STATE_DCH")
      case True
      obtain a where "d_to_int (d_of_int ?f * Fin 6) = Ok a" "0 \<le> a" "a \<le> 10000"
        "\<bar>of_int a - of_int ?f * 6\<bar> < (1 :: rat)" using pf [of 6] by auto
      moreover obtain c where "d_to_int (d_of_int ?d * (Fin D + Fin 4)) = Ok c" "0 \<le> c" "c \<le> 2000020000"
        "\<bar>of_int c - of_int ?d * (D + 4)\<bar> \<le> 1 + 1 / 2 ^ 20" using ed [of 4] by auto
      ultimately show ?thesis
        using True MOBILE_POWER_STATE_IDLE
        by (intro energies_near [of _ a c _ "of_int ?f * 6" "of_int ?d * (D + 4)"])
           (simp_all add: state_energies_def tm exact_cost_def)
    next
      case False
      obtain c where "d_to_int (d_of_int ?f * (Fin D + Fin 6)) = Ok c" "0 \<le> c" "c \<le> 2000020000"
        "\<bar>of_int c - of_int ?f * (D + 6)\<bar> \<le> 1 + 1 / 2 ^ 20" using ef [of 6] by auto
      then show ?thesis
        using False MOBILE_POWER_STATE_IDLE energies_near [of "Ok (0, c)" 0 c _ 0 "of_int ?f * (D + 6)"]
        by (auto simp add: state_energies_def tm exact_cost_def)
    qed
  next
    case MOBILE_POWER_STATE_FACH
    obtain a where a: "d_to_int (Fin (extension 6 idle) * d_of_int ?f) = Ok a" "0 \<le> a" "a \<le> 10000"
      "\<bar>of_int a - of_int ?f * extension 6 idle\<bar> < 1" using pf [of "extension 6 idle"] x6 by auto
    show ?thesis
    proof (cases "new_state = MOBILE_POWER_STATE_DCH")
      case True
      obtain c where "d_to_int (d_of_int ?d * (Fin D + Fin 4)) = Ok c" "0 \<le> c" "c \<le> 2000020000"
        "\<bar>of_int c - of_int ?d * (D + 4)\<bar> \<le> 1 + 1 / 2 ^ 20" using ed [of 4] by auto
      with a show ?thesis
        using True MOBILE_POWER_STATE_FACH x6(1)
        by (intro energies_near [of _ a c _ "of_int ?f * extension 6 idle" "of_int ?d * (D + 4)"])
           (simp_all add: state_energies_def tm exact_cost_def)
    next
      case False
      obtain c where "d_to_int ((Fin D + Fin (extension 6 idle)) * d_of_int ?f) = Ok c" "0 \<le> c"
        "c \<le> 2000020000" "\<bar>of_int c - of_int ?f * (D + extension 6 idle)\<bar> \<le> 1 + 1 / 2 ^ 20"
        using ef [of "extension 6 idle"] x6 by auto
      with a show ?thesis
        using False MOBILE_POWER_STATE_FACH x6(1)
          energies_near [of "Ok (0, c)" 0 c _ 0 "of_int ?f * (D + extension 6 idle)"]
        by (auto simp add: state_energies_def tm exact_cost_def)
    qed
  next
    case MOBILE_POWER_STATE_DCH
    obtain a where a: "d_to_int (Fin (extension 4 idle) * d_of_int ?d) = Ok a"
      using energy_product [OF pos(3,4), of "extension 4 idle"] x4 by auto
    obtain c where "d_to_int ((Fin D + Fin (extension 4 idle)) * d_of_int ?d) = Ok c" "0 \<le> c"
        "c \<le> 2000020000" "\<bar>of_int c - of_int ?d * (D + extension 4 idle)\<bar> \<le> 1 + 1 / 2 ^ 20"
      using ed [of "extension 4 idle"] x4 by auto
    with a show ?thesis
      using MOBILE_POWER_STATE_DCH x4(1)
        energies_near [of "Ok (0, c)" 0 c _ 0 "of_int ?d * (D + extension 4 idle)"]
      by (auto simp add: state_energies_def tm exact_cost_def)
  qed
qed


text \<open>The state in which the transfer is made.\<close>

definition queues_ok :: "int \<Rightarrow> int \<Rightarrow> bool" where
  "queues_ok queue_len ack_dir_queue_len \<longleftrightarrow>
     0 \<le> queue_len \<and> queue_len < 2 ^ 31 \<and> 0 \<le> ack_dir_queue_len \<and> ack_dir_queue_len < 2 ^ 31 - 52"

definition state_during ::
  "build \<Rightarrow> PowerModel \<Rightarrow> int \<Rightarrow> MobileState \<Rightarrow> int \<Rightarrow> int \<Rightarrow> MobileState" where
  "state_during b pm datalen old_state queue_len ack_dir_queue_len =
     (if old_state = MOBILE_POWER_STATE_DCH
         \<or> get_dch_threshold pm (power_model_is_remote b) \<le> queue_len + datalen
         \<or> get_dch_threshold pm (\<not> power_model_is_remote b) \<le> ack_dir_queue_len + 52
      then MOBILE_POWER_STATE_DCH else MOBILE_POWER_STATE_FACH)"

lemma headers: "size_of_int (TCP_HDR_SIZE + IP_HDR_SIZE) = 52"
  by (simp add: TCP_HDR_SIZE_def IP_HDR_SIZE_def size_of_int_def)

lemma uint_add_52:
  fixes w :: size_t
  assumes "uint w < 2 ^ 40" shows "uint (w + 52) = uint w + 52"
  using assms by (subst uint_add_lem [THEN iffD1]) simp_all

lemma size_le_int:
  fixes w :: size_t
  assumes "0 \<le> t" "t < 2 ^ 31" "0 \<le> q" "q < 2 ^ 31" "uint w < 2 ^ 41"
  shows "size_of_int t \<le> size_of_int q + w \<longleftrightarrow> t \<le> q + uint w"
proof -
  have u: "uint (size_of_int n) = n" if "0 \<le> n" "n < 2 ^ 31" for n
    using that by (simp add: size_of_int_def uint_word_of_int_eq take_bit_int_eq_self)
  have "uint (size_of_int q + w) = q + uint w"
    using assms(3-5) by (subst uint_add_lem [THEN iffD1]) (simp_all add: u)
  then show ?thesis using assms(1,2) by (simp add: word_le_def u)
qed

lemma predicted_state_Ok:
  assumes "power_model pm" "queues_ok q a" "uint w < 2 ^ 41"
  shows "predicted_state b pm w s q a = Ok (state_during b pm (uint w) s q a)"
proof -
  have t: "0 \<le> get_dch_threshold pm x" "get_dch_threshold pm x < 2 ^ 31" for x
    using power_model.get_dch_threshold_range [OF assms(1), of x] by simp_all
  have q: "0 \<le> q" "q < 2 ^ 31" "in_int (a + 32)" "in_int (a + 32 + 20)"
    using assms(2) by (auto simp: queues_ok_def in_int_def)
  show ?thesis
    using q size_le_int [OF t q(1,2) assms(3)]
    by (auto simp: predicted_state_def state_during_def TCP_HDR_SIZE_def IP_HDR_SIZE_def Let_def)
qed

text \<open>One estimate, in exact arithmetic up to three millijoules.\<close>

lemma mobile_cost_Ok:
  assumes "power_model pm" "transfer_ok d bw rtt" "queues_ok q a" "Fin 0 \<le> idle"
  shows "\<exists>n D f e. estimate_mobile_energy_cost_from_state b pm s idle q a d bw rtt = Ok n
    \<and> transfer_seconds (d + 52) bw rtt = Fin D
    \<and> state_energies pm s (state_during b pm (uint d + 52) s q a) (Fin D) idle = Ok (f, e)
    \<and> n = f + e \<and> 0 \<le> f \<and> 0 \<le> e
    \<and> \<bar>of_int n - exact_cost pm s (state_during b pm (uint d + 52) s q a) D idle\<bar> \<le> 5 / 2
    \<and> 0 \<le> D \<and> \<bar>D - exact_seconds (uint d + 52) (uint bw) (uint rtt)\<bar> \<le> 3 / 2 ^ 30"
proof -
  have t: "uint d < 2 ^ 40" "1 \<le> uint bw" "uint bw < 2 ^ 50" "uint d + 52 \<le> 500000 * uint bw"
    "uint rtt \<le> 500000000" using assms(2) by (simp_all add: transfer_ok_def)
  have w: "uint (d + 52) = uint d + 52" using uint_add_52 [OF t(1)] .
  obtain D where D: "transfer_seconds (d + 52) bw rtt = Fin D" "0 \<le> D" "D \<le> 1000001"
    "\<bar>D - exact_seconds (uint d + 52) (uint bw) (uint rtt)\<bar> \<le> 3 / 2 ^ 30"
    using transfer_seconds_Fin [of "d + 52" bw rtt] t w by auto
  have st: "predicted_state b pm (d + 52) s q a = Ok (state_during b pm (uint d + 52) s q a)"
    using predicted_state_Ok [OF assms(1,3), of "d + 52" b s] t(1) w by simp
  obtain f e where fe: "state_energies pm s (state_during b pm (uint d + 52) s q a) (Fin D) idle = Ok (f, e)"
    "0 \<le> f" "0 \<le> e" "f + e \<le> 2000030000"
    "\<bar>of_int (f + e) - exact_cost pm s (state_during b pm (uint d + 52) s q a) D idle\<bar> \<le> 5 / 2"
    using state_energies_Ok [OF assms(1) D(2) _ assms(4)] D(3) by fastforce
  have "in_int (f + e)" using fe(2-4) by (simp add: in_int_def)
  then have "estimate_mobile_energy_cost_from_state b pm s idle q a d bw rtt = Ok (f + e)"
    using fe(1-3) D(1)
    by (simp add: estimate_mobile_energy_cost_from_state_def headers st Let_def transfer_seconds_def max_def)
  with D fe show ?thesis by blast
qed

lemma state_energies_mono:
  assumes "state_energies pm s t (Fin D) idle = Ok (f, e)" "state_energies pm s t (Fin D') idle = Ok (f', e')"
    and "power_model pm" "0 \<le> D" "D \<le> D'" "Fin 0 \<le> idle"
  shows "f + e \<le> f' + e'"
proof -
  note sp = power_model.state_powers [OF assms(3)]
  have pos: "d_of_int (MOBILE_FACH_POWER pm) = Fin (of_int (MOBILE_FACH_POWER pm))"
    "d_of_int (MOBILE_DCH_POWER pm) = Fin (of_int (MOBILE_DCH_POWER pm))"
    "0 < (of_int (MOBILE_FACH_POWER pm) :: rat)" "0 < (of_int (MOBILE_DCH_POWER pm) :: rat)"
    using sp by (auto intro!: d_of_int_Fin)
  note tm = power_model.timers [OF assms(3)]
  note x6 = d_min_extension [OF assms(6), of 6] and x4 = d_min_extension [OF assms(6), of 4]
  have add: "Fin D + Fin c \<le> Fin D' + Fin c" "Fin 0 \<le> Fin D + Fin c" if "0 \<le> c" for c
    using that assms(4,5) by (auto intro: to_double_mono)
  have mul: "d_to_int (Fin P * (Fin D + Fin c)) = Ok m \<Longrightarrow> d_to_int (Fin P * (Fin D' + Fin c)) = Ok n
      \<Longrightarrow> 0 < P \<Longrightarrow> 0 \<le> c \<Longrightarrow> m \<le> n" for P c m n
    using d_to_int_mono d_mult_mono add by blast
  have mul': "d_to_int ((Fin D + Fin c) * Fin P) = Ok m \<Longrightarrow> d_to_int ((Fin D' + Fin c) * Fin P) = Ok n
      \<Longrightarrow> 0 < P \<Longrightarrow> 0 \<le> c \<Longrightarrow> m \<le> n" for P c m n
    using mul by (simp only: d_mult_commute)
  note ints = mul [OF _ _ pos(3)] mul [OF _ _ pos(4)] mul' [OF _ _ pos(3)] mul' [OF _ _ pos(4)]
  show ?thesis
    using assms(1,2) x6 x4
    by (cases s; cases "t = MOBILE_POWER_STATE_DCH")
       (auto simp: state_energies_def tm pos bind_r_eq_Ok Let_def simp del: d_to_int.simps plus_double.simps
         times_double.simps intro: ints)
qed

lemma exact_cost_promoted:
  assumes "power_model pm" "0 \<le> D" "D \<le> D'" "Fin 0 \<le> idle" "s \<noteq> MOBILE_POWER_STATE_DCH"
  shows "exact_cost pm s MOBILE_POWER_STATE_FACH D idle + 8 \<le> exact_cost pm s MOBILE_POWER_STATE_DCH D' idle"
proof -
  let ?f = "of_int (MOBILE_FACH_POWER pm) :: rat" and ?d = "of_int (MOBILE_DCH_POWER pm) :: rat"
  have "MOBILE_FACH_POWER pm + 1 \<le> MOBILE_DCH_POWER pm" "2 \<le> MOBILE_DCH_POWER pm"
    "0 \<le> MOBILE_FACH_POWER pm"
    using power_model.state_powers [OF assms(1)] by linarith+
  then have "of_int (MOBILE_FACH_POWER pm + 1) \<le> ?d" "of_int 2 \<le> ?d" "of_int 0 \<le> ?f"
    by (simp_all only: of_int_le_iff)
  then have fd: "?f + 1 \<le> ?d" "2 \<le> ?d" "0 \<le> ?f" by simp_all
  have "?f * D \<le> ?d * D" using fd assms(2) by (intro mult_right_mono) simp_all
  moreover have "?d * D \<le> ?d * D'" using fd assms(3) by (intro mult_left_mono) simp_all
  ultimately have le: "?f * D \<le> ?d * D'" by linarith
  show ?thesis
    using assms(5) fd le
    by (cases s) (simp_all add: exact_cost_def Let_def distrib_left)
qed

lemma mobile_cost_mono:
  assumes "power_model pm" "transfer_ok d bw rtt" "transfer_ok d' bw rtt" "queues_ok q a" "Fin 0 \<le> idle"
    and "d \<le> d'"
    and "estimate_mobile_energy_cost_from_state b pm s idle q a d bw rtt = Ok n"
    and "estimate_mobile_energy_cost_from_state b pm s idle q a d' bw rtt = Ok n'"
  shows "n \<le> n'"
proof -
  let ?t = "state_during b pm (uint d + 52) s q a" and ?t' = "state_during b pm (uint d' + 52) s q a"
  from mobile_cost_Ok [OF assms(1,2,4,5), of b s] assms(7) obtain D f e where
    1: "transfer_seconds (d + 52) bw rtt = Fin D" "0 \<le> D"
      "state_energies pm s ?t (Fin D) idle = Ok (f, e)" "n = f + e"
      "\<bar>of_int n - exact_cost pm s ?t D idle\<bar> \<le> 5 / 2" by auto
  from mobile_cost_Ok [OF assms(1,3,4,5), of b s] assms(8) obtain D' f' e' where
    2: "transfer_seconds (d' + 52) bw rtt = Fin D'" "0 \<le> D'"
      "state_energies pm s ?t' (Fin D') idle = Ok (f', e')" "n' = f' + e'"
      "\<bar>of_int n' - exact_cost pm s ?t' D' idle\<bar> \<le> 5 / 2" by auto
  have dd: "uint d \<le> uint d'" using assms(6) by (simp add: word_le_def)
  have "uint (d + 52) \<le> uint (d' + 52)"
    using dd uint_add_52 assms(2,3) by (simp add: transfer_ok_def)
  then have DD: "D \<le> D'"
    using transfer_seconds_mono [of "d + 52" "d' + 52" bw rtt] 1(1) 2(1) assms(2)
    by (simp add: transfer_ok_def)
  show ?thesis
  proof (cases "?t = ?t'")
    case True
    with state_energies_mono [OF 1(3) _ assms(1) 1(2) DD assms(5)] 2(3) 1(4) 2(4) show ?thesis by simp
  next
    case False
    with dd have t: "?t = MOBILE_POWER_STATE_FACH" "?t' = MOBILE_POWER_STATE_DCH" "s \<noteq> MOBILE_POWER_STATE_DCH"
      by (auto simp: state_during_def split: if_splits)
    have "(of_int n :: rat) \<le> of_int n'"
      using exact_cost_promoted [OF assms(1) 1(2) DD assms(5) t(3)] 1(5) 2(5) unfolding t by linarith
    then show ?thesis by (simp only: of_int_le_iff)
  qed
qed

subsection \<open>The cost on WiFi\<close>

definition wifi_power :: "PowerModel \<Rightarrow> int \<Rightarrow> int \<Rightarrow> size_t \<Rightarrow> int" where
  "wifi_power pm packet_rate channel_rate_component datalen =
     (if WIFI_PACKET_RATE_THRESHOLD pm < packets_of (unat datalen) + packet_rate
      then WIFI_HIGH_POWER_BASE pm + channel_rate_component else WIFI_LOW_POWER pm)"

definition wifi_args_ok :: "int \<Rightarrow> int \<Rightarrow> bool" where
  "wifi_args_ok packet_rate channel_rate_component \<longleftrightarrow>
     - (2 ^ 30) \<le> packet_rate \<and> packet_rate < 2 ^ 30
     \<and> 0 \<le> channel_rate_component \<and> channel_rate_component \<le> 1000"

lemma wifi_power_range:
  assumes "power_model pm" "wifi_args_ok rate chan"
  shows "0 < wifi_power pm rate chan d" "wifi_power pm rate chan d \<le> 2000"
  using power_model.wifi_powers [OF assms(1)] assms(2) by (auto simp: wifi_power_def wifi_args_ok_def)

lemma wifi_power_mono:
  assumes "power_model pm" "wifi_args_ok rate chan" "d \<le> d'"
  shows "wifi_power pm rate chan d \<le> wifi_power pm rate chan d'"
proof -
  have "unat d \<le> unat d'" using assms(3) by (simp add: word_le_nat_alt)
  then have "packets_of (unat d) \<le> packets_of (unat d')"
    by (simp add: packets_of_def div_le_mono del: of_nat_div)
  then show ?thesis
    using power_model.wifi_powers [OF assms(1)] assms(2) by (auto simp: wifi_power_def wifi_args_ok_def)
qed

lemma wifi_cost_Ok:
  assumes "power_model pm" "transfer_ok d bw rtt" "wifi_args_ok rate chan"
  shows "\<exists>D. transfer_seconds d bw rtt = Fin D \<and> 0 \<le> D \<and> D \<le> 1000001
    \<and> wifi_energy_computer pm rate chan d bw rtt = Ok (\<lceil>D\<rceil> * wifi_power pm rate chan d)"
proof -
  have t: "uint d < 2 ^ 40" "1 \<le> uint bw" "uint bw < 2 ^ 50" "uint d \<le> 500000 * uint bw"
    "uint rtt \<le> 500000000" using assms(2) by (auto simp: transfer_ok_def)
  then obtain D where D: "transfer_seconds d bw rtt = Fin D" "0 \<le> D" "D \<le> 1000001"
    using transfer_seconds_Fin [of d bw rtt] by auto
  let ?p = "wifi_power pm rate chan d"
  note p = wifi_power_range [OF assms(1,3), of d]
  have "unat d < 2 ^ 40" using t(1) by (metis uint_nat of_nat_less_iff of_nat_numeral of_nat_power)
  then have high: "wifi_high_state pm rate d =
      Ok (WIFI_PACKET_RATE_THRESHOLD pm < packets_of (unat d) + rate)"
    using assms(3) by (intro wifi_high_state_Ok) (simp_all add: wifi_args_ok_def)
  have "in_int (WIFI_HIGH_POWER_BASE pm + chan)"
    using power_model.wifi_powers [OF assms(1)] assms(3) by (simp add: in_int_def wifi_args_ok_def)
  then have pw: "(if WIFI_PACKET_RATE_THRESHOLD pm < packets_of (unat d) + rate
        then c_int (WIFI_HIGH_POWER_BASE pm + chan) else Ok (WIFI_LOW_POWER pm)) = Ok ?p"
    by (simp add: wifi_power_def)
  have c: "0 \<le> \<lceil>D\<rceil>" "\<lceil>D\<rceil> \<le> 1000001" using D(2,3) by (simp_all add: ceiling_le_iff)
  then have m: "0 \<le> \<lceil>D\<rceil> * ?p" "\<lceil>D\<rceil> * ?p \<le> 1000001 * 2000"
    using p by (simp, intro mult_mono) simp_all
  have "Fin (of_int \<lceil>D\<rceil>) * d_of_int ?p = Fin (of_int (\<lceil>D\<rceil> * ?p))"
    using p m to_double_of_int [of "\<lceil>D\<rceil> * ?p"] by (simp add: d_of_int_Fin)
  then have "d_to_int (d_ceil (Fin D) * d_of_int ?p) = Ok (\<lceil>D\<rceil> * ?p)"
    using m by (simp add: in_int_def del: of_int_mult times_double.simps)
  then show ?thesis
    using D by (simp add: wifi_energy_computer_def high pw flip: transfer_seconds_def
        del: d_ceil.simps d_to_int.simps)
qed

lemma wifi_cost_mono:
  assumes "power_model pm" "transfer_ok d bw rtt" "transfer_ok d' bw rtt" "wifi_args_ok rate chan"
    and "d \<le> d'"
    and "wifi_energy_computer pm rate chan d bw rtt = Ok n"
    and "wifi_energy_computer pm rate chan d' bw rtt = Ok n'"
  shows "n \<le> n'"
proof -
  from wifi_cost_Ok [OF assms(1,2,4)] assms(6) obtain D where
    1: "transfer_seconds d bw rtt = Fin D" "0 \<le> D" "n = \<lceil>D\<rceil> * wifi_power pm rate chan d" by auto
  from wifi_cost_Ok [OF assms(1,3,4)] assms(7) obtain D' where
    2: "transfer_seconds d' bw rtt = Fin D'" "n' = \<lceil>D'\<rceil> * wifi_power pm rate chan d'" by auto
  have "D \<le> D'"
    using transfer_seconds_mono [of d d' bw rtt] 1(1) 2(1) assms(2,5)
    by (simp add: transfer_ok_def word_le_def)
  then have "\<lceil>D\<rceil> \<le> \<lceil>D'\<rceil>" "0 \<le> \<lceil>D'\<rceil>" using 1(2) by (auto intro: ceiling_mono)
  then show ?thesis
    unfolding 1(3) 2(2) using wifi_power_mono [OF assms(1,4,5)] wifi_power_range [OF assms(1,4), of d]
    by (intro mult_mono) simp_all
qed


subsection \<open>The contract of an estimator\<close>

locale energy_estimator =
  fixes cost :: EnergyComputer
    and ready :: bool
  assumes cost_total: "ready \<Longrightarrow> transfer_ok d bw rtt \<Longrightarrow> \<exists>n. cost d bw rtt = Ok n \<and> 0 \<le> n"
    and cost_mono: "ready \<Longrightarrow> transfer_ok d bw rtt \<Longrightarrow> transfer_ok d' bw rtt \<Longrightarrow> d \<le> d' \<Longrightarrow>
      cost d bw rtt = Ok n \<Longrightarrow> cost d' bw rtt = Ok n' \<Longrightarrow> n \<le> n'"
begin

text \<open>A loop over growing sizes, which the header promises the functor for, sees growing costs.\<close>

lemma costs_sorted:
  assumes "ready" "sorted ds" "\<forall>d \<in> set ds. transfer_ok d bw rtt"
  shows "\<exists>ns. map (\<lambda>d. cost d bw rtt) ds = map Ok ns \<and> sorted ns \<and> (\<forall>n \<in> set ns. 0 \<le> n)"
  using assms(2,3)
proof (induction ds)
  case (Cons d ds)
  then obtain ns where ns: "map (\<lambda>d. cost d bw rtt) ds = map Ok ns" "sorted ns" "\<forall>n \<in> set ns. 0 \<le> n"
    by auto
  obtain n where n: "cost d bw rtt = Ok n" "0 \<le> n" using cost_total [OF assms(1), of d bw rtt] Cons.prems by auto
  have "n \<le> n'" if "n' \<in> set ns" for n'
  proof -
    have "Ok n' \<in> set (map (\<lambda>d. cost d bw rtt) ds)" using that ns(1) by simp
    then obtain d' where "d' \<in> set ds" "cost d' bw rtt = Ok n'" by auto
    then show ?thesis using cost_mono [OF assms(1), of d bw rtt d' n n'] n(1) Cons.prems by auto
  qed
  with ns n show ?case by (intro exI [of _ "n # ns"]) auto
qed simp

end

interpretation mobile_estimator: energy_estimator
  "estimate_mobile_energy_cost_from_state b pm s idle q a"
  "power_model pm \<and> queues_ok q a \<and> Fin 0 \<le> idle" for b pm s idle q a
proof (unfold_locales, goal_cases)
  case (1 d bw rtt)
  then show ?case using mobile_cost_Ok [of pm d bw rtt q a idle b s] by auto
next
  case (2 d bw rtt d' n n')
  then show ?case using mobile_cost_mono by blast
qed

interpretation wifi_estimator: energy_estimator
  "wifi_energy_computer pm rate chan" "power_model pm \<and> wifi_args_ok rate chan" for pm rate chan
proof (unfold_locales, goal_cases)
  case (1 d bw rtt)
  then have pre: "power_model pm" "transfer_ok d bw rtt" "wifi_args_ok rate chan" by simp_all
  from wifi_cost_Ok [OF this] obtain D where
    D: "0 \<le> (D :: rat)" "wifi_energy_computer pm rate chan d bw rtt = Ok (\<lceil>D\<rceil> * wifi_power pm rate chan d)"
    by (elim exE conjE) blast
  have "0 < wifi_power pm rate chan d" using pre(1,3) by (rule wifi_power_range)
  moreover have "0 \<le> \<lceil>D\<rceil>" using D(1) by simp
  ultimately show ?case using D(2) by simp
next
  case (2 d bw rtt d' n n')
  then show ?case using wifi_cost_mono by blast
qed

lemma exact_cost_lipschitz:
  assumes "power_model pm"
  shows "\<bar>exact_cost pm s t x idle - exact_cost pm s t y idle\<bar> \<le> 1000 * \<bar>x - y\<bar>"
proof -
  let ?f = "of_int (MOBILE_FACH_POWER pm) :: rat" and ?d = "of_int (MOBILE_DCH_POWER pm) :: rat"
  have "0 \<le> MOBILE_FACH_POWER pm" "MOBILE_FACH_POWER pm \<le> 1000" "0 \<le> MOBILE_DCH_POWER pm"
    "MOBILE_DCH_POWER pm \<le> 1000"
    using power_model.state_powers [OF assms] by linarith+
  then have "of_int 0 \<le> ?f" "?f \<le> of_int 1000" "of_int 0 \<le> ?d" "?d \<le> of_int 1000"
    by (simp_all only: of_int_le_iff)
  then have "\<bar>?f * (x - y)\<bar> \<le> 1000 * \<bar>x - y\<bar>" "\<bar>?d * (x - y)\<bar> \<le> 1000 * \<bar>x - y\<bar>"
    by (simp_all add: abs_mult mult_right_mono)
  then show ?thesis
    by (cases s) (simp_all add: exact_cost_def Let_def algebra_simps)
qed

lemma mobile_cost_near:
  assumes "power_model pm" "transfer_ok d bw rtt" "queues_ok q a" "Fin 0 \<le> idle"
  shows "\<exists>n. estimate_mobile_energy_cost_from_state b pm s idle q a d bw rtt = Ok n \<and> 0 \<le> n
    \<and> \<bar>of_int n - exact_cost pm s (state_during b pm (uint d + 52) s q a)
        (exact_seconds (uint d + 52) (uint bw) (uint rtt)) idle\<bar> < 3"
proof -
  obtain n D where n: "estimate_mobile_energy_cost_from_state b pm s idle q a d bw rtt = Ok n" "0 \<le> n"
    "\<bar>of_int n - exact_cost pm s (state_during b pm (uint d + 52) s q a) D idle\<bar> \<le> 5 / 2"
    "\<bar>D - exact_seconds (uint d + 52) (uint bw) (uint rtt)\<bar> \<le> 3 / 2 ^ 30"
    using mobile_cost_Ok [OF assms, of b s] by auto
  have "1000 * \<bar>D - exact_seconds (uint d + 52) (uint bw) (uint rtt)\<bar> \<le> 1000 * (3 / 2 ^ 30)"
    using n(4) by (intro mult_left_mono) simp_all
  also have "\<dots> < 1 / 4" by simp
  finally show ?thesis
    using n(1-3) exact_cost_lipschitz [OF assms(1), of s "state_during b pm (uint d + 52) s q a" D idle
      "exact_seconds (uint d + 52) (uint bw) (uint rtt)"]
    by (intro exI [of _ n] conjI) (assumption, assumption, linarith)
qed


subsection \<open>The queues of the handset\<close>

definition queue_now :: "mobile_vars \<Rightarrow> int \<Rightarrow> (Direction \<Rightarrow> int) \<Rightarrow> Direction \<Rightarrow> int" where
  "queue_now m rc bytes d = mobile_last_delta_bytes m d
     + (if rc = 0 \<and> mobile_last_bytes m DOWN \<noteq> - 1 then bytes d - mobile_last_bytes m d else 0)"

lemma size_sum_roundtrip: "in_int (a + b) \<Longrightarrow> int_of_size (size_of_int a + size_of_int b) = a + b"
  using size_int_roundtrip [of "a + b"] by (simp add: size_of_int_def)

lemma queue_len_handset:
  assumes "steady e" "stamp_ok (tv_us (clock e k)) (last_mobile_sample_time (lib_mobile s))"
    and "power_model_is_remote b = False"
    and "get_net_dev_stats b e k MOBILE_IFACE (\<lambda>_. - 1) (\<lambda>_. 0) (lib_mocked s) = ((rc, bytes, packets), mocked)"
    and "\<forall>d. in_int (queue_now (lib_mobile s) rc bytes d)"
    and "rc = 0 \<and> mobile_last_bytes (lib_mobile s) DOWN \<noteq> - 1
      \<longrightarrow> (\<forall>d. in_int (bytes d - mobile_last_bytes (lib_mobile s) d))"
  shows "get_mobile_queue_len b e s k =
    Ok ((queue_now (lib_mobile s) rc bytes DOWN, queue_now (lib_mobile s) rc bytes UP),
        s\<lparr>lib_mocked := mocked\<rparr>, Suc k)"
proof -
  obtain d where d: "TIMEDIFF (last_mobile_sample_time (lib_mobile s)) (clock e k) = Ok d"
    using TIMEDIFF_Ok [of "last_mobile_sample_time (lib_mobile s)" "clock e k"] assms(1,2)
    by (auto simp: stamp_ok_def)
  have q: "in_int (queue_now (lib_mobile s) rc bytes DOWN)" "in_int (queue_now (lib_mobile s) rc bytes UP)"
    using assms(5) by blast+
  show ?thesis
  proof (cases "rc = 0 \<and> mobile_last_bytes (lib_mobile s) DOWN \<noteq> - 1")
    case True
    with q assms(6) show ?thesis
      by (simp add: get_mobile_queue_len_def assms(3,4) d Let_def queue_now_def size_sum_roundtrip)
  next
    case False
    with q show ?thesis
      using size_sum_roundtrip [of _ 0]
      by (auto simp: get_mobile_queue_len_def assms(3,4) d Let_def queue_now_def)
  qed
qed

subsection \<open>A link that is down\<close>

lemma predicted_duration_infinite:
  assumes "uint bw = 0"
  shows "divide (d_of_size d) (d_of_size bw) + divide (d_of_size rtt) (Fin 1000) \<in> {PInf, NaN}"
proof -
  have bw: "d_of_size bw = Fin 0" using assms by (simp add: d_of_size_def)
  have r: "Fin 0 \<le> divide (d_of_size rtt) (Fin 1000)" by simp
  have d: "Fin 0 \<le> d_of_size d" by simp
  show ?thesis
    unfolding bw using r d
    by (cases "d_of_size d"; cases "divide (d_of_size rtt) (Fin 1000)") (auto split: if_splits)
qed

lemma infinite_energy:
  assumes "power_model pm" "x \<in> {PInf, NaN}" "Fin 0 \<le> idle"
  shows "state_energies pm s t x idle = Fault Float_to_int"
proof -
  have sp: "0 < MOBILE_FACH_POWER pm" "MOBILE_FACH_POWER pm \<le> 1000" "0 < MOBILE_DCH_POWER pm"
    "MOBILE_DCH_POWER pm \<le> 1000"
    using power_model.state_powers [OF assms(1)] by linarith+
  then have P: "d_of_int (MOBILE_FACH_POWER pm) = Fin (of_int (MOBILE_FACH_POWER pm))"
    "d_of_int (MOBILE_DCH_POWER pm) = Fin (of_int (MOBILE_DCH_POWER pm))"
    "0 < (of_int (MOBILE_FACH_POWER pm) :: rat)" "0 < (of_int (MOBILE_DCH_POWER pm) :: rat)"
    by (auto intro!: d_of_int_Fin)
  note tm = power_model.timers [OF assms(1)]
  note x6 = d_min_extension [OF assms(3), of 6] and x4 = d_min_extension [OF assms(3), of 4]
  have six: "\<exists>n. d_to_int (Fin (of_int (MOBILE_FACH_POWER pm)) * Fin y) = Ok n"
    "\<exists>n. d_to_int (Fin y * Fin (of_int (MOBILE_FACH_POWER pm))) = Ok n" if "0 \<le> y" "y \<le> 6" for y
    using energy_product [OF sp(1,2) that(1)] that(2) P(1) by force+
  obtain a where a: "d_to_int (Fin (of_int (MOBILE_FACH_POWER pm)) * Fin 6) = Ok a" using six(1) [of 6] by auto
  obtain c where c: "d_to_int (Fin (extension 6 idle) * Fin (of_int (MOBILE_FACH_POWER pm))) = Ok c"
    using six(2) x6(2,3) by auto
  consider "x = PInf" | "x = NaN" using assms(2) by auto
  then show ?thesis
    using x6(1) x4(1) P(3,4) a c
    by cases
       (cases s; auto simp: state_energies_def tm P(1,2) Let_def simp del: times_double.simps(1))+
qed

subsection \<open>Properties\<close>

lemma some_transfer [simp]: "transfer_ok 1000 10000 100" "queues_ok 0 0" "wifi_args_ok 3 10"
  by (simp_all add: transfer_ok_def queues_ok_def wifi_args_ok_def)

text \<open>
  C4: \<open>estimate_mobile_energy_cost_from_state\<close> returns without a fault
  and is right to less than three millijoules: the integer it computes in floating point, with its
  truncations, is that close to the cost of the model of radio states in exact arithmetic (the data
  and its headers at the given bandwidth, the round trip, the inactivity timers it makes the radio
  pay or pay again), for the state in which the transfer will be made.
\<close>

theorem mobile_cost_accurate:
  assumes "power_model pm" "transfer_ok d bw rtt" "queues_ok q a" "Fin 0 \<le> idle"
  shows "\<exists>n. estimate_mobile_energy_cost_from_state b pm s idle q a d bw rtt = Ok n \<and> 0 \<le> n
    \<and> \<bar>of_int n - exact_cost pm s (state_during b pm (uint d + 52) s q a)
        (exact_seconds (uint d + 52) (uint bw) (uint rtt)) idle\<bar> < 3"
  by (rule mobile_cost_near [OF assms])

lemma mobile_cost_accurate_witness:
  "\<exists>n. estimate_mobile_energy_cost_from_state Server_build nexus_one MOBILE_POWER_STATE_IDLE (Fin 0) 0 0
      1000 10000 100 = Ok n \<and> \<bar>of_int n - (406 * 6 + 902 * (1052 / 10000 + 1 / 10 + 4) :: rat)\<bar> < 3"
  using mobile_cost_accurate [of nexus_one 1000 10000 100 0 0 "Fin 0" Server_build MOBILE_POWER_STATE_IDLE]
  by (auto simp: state_during_def get_dch_threshold_def power_model_is_remote_def exact_cost_def
      exact_seconds_def Let_def)

text \<open>
  With one energy computer, larger cellular transfers never look cheaper,
  also where the larger one is predicted to move the radio to DCH; every estimate is non-negative.
\<close>

theorem mobile_costs_sorted:
  assumes "power_model pm" "queues_ok q a" "Fin 0 \<le> idle"
    and "sorted ds" "\<forall>d \<in> set ds. transfer_ok d bw rtt"
  shows "\<exists>ns. map (\<lambda>d. estimate_mobile_energy_cost_from_state b pm s idle q a d bw rtt) ds = map Ok ns
    \<and> sorted ns \<and> (\<forall>n \<in> set ns. 0 \<le> n)"
  using mobile_estimator.costs_sorted [of pm q a idle ds bw rtt b s] assms by simp

lemma mobile_costs_sorted_witness:
  "\<exists>ns. map (\<lambda>d. estimate_mobile_energy_cost_from_state Handset_build nexus_one MOBILE_POWER_STATE_FACH
      (Fin 2) 0 0 d 10000 100) [0, 50, 98, 99, 1000] = map Ok ns \<and> sorted ns"
proof -
  have "\<forall>d \<in> set [0, 50, 98, 99, 1000]. transfer_ok d 10000 100" "sorted [0, 50, 98, 99, 1000 :: size_t]"
    by (simp_all add: transfer_ok_def)
  with mobile_costs_sorted [of nexus_one 0 0 "Fin 2" _ 10000 100 Handset_build MOBILE_POWER_STATE_FACH]
    some_transfer(2) nexus_one_ok d_le_refl [of "Fin 2"] show ?thesis by (metis less_eq_double.simps(1) zero_le_numeral)
qed

text \<open>
  C28: a WiFi estimate is the duration rounded up to whole seconds, times the
  power of the state the packets put the radio in; no fault, and the duration is within
  \<open>3 / 2 ^ 30\<close> seconds of the exact one.
\<close>

theorem wifi_cost_formula:
  assumes "power_model pm" "transfer_ok d bw rtt" "wifi_args_ok rate chan"
  shows "\<exists>D. wifi_energy_computer pm rate chan d bw rtt
      = Ok (\<lceil>D\<rceil> * (if WIFI_PACKET_RATE_THRESHOLD pm < \<lceil>of_nat (unat d) / (1448 :: rat)\<rceil> + rate
                   then WIFI_HIGH_POWER_BASE pm + chan else WIFI_LOW_POWER pm))
    \<and> 0 \<le> D \<and> \<bar>D - exact_seconds (uint d) (uint bw) (uint rtt)\<bar> \<le> 3 / 2 ^ 30"
proof -
  from wifi_cost_Ok [OF assms] obtain D where D: "transfer_seconds d bw rtt = Fin D" "0 \<le> D"
    "wifi_energy_computer pm rate chan d bw rtt = Ok (\<lceil>D\<rceil> * wifi_power pm rate chan d)" by blast
  moreover from assms(2) obtain D' where "transfer_seconds d bw rtt = Fin D'"
    "\<bar>D' - exact_seconds (uint d) (uint bw) (uint rtt)\<bar> \<le> 3 / 2 ^ 30"
    using transfer_seconds_Fin [of d bw rtt] by (auto simp: transfer_ok_def)
  ultimately show ?thesis
    unfolding wifi_power_def packets_of_ceiling by (intro exI [of _ D]) simp
qed

lemma wifi_cost_formula_witness:
  "\<exists>D. wifi_energy_computer nexus_one 3 10 1000 10000 100 = Ok (\<lceil>D\<rceil> * 34)
    \<and> \<bar>D - (1 / 5 :: rat)\<bar> \<le> 3 / 2 ^ 30"
  using wifi_cost_formula [of nexus_one 1000 10000 100 3 10]
  by (auto simp: exact_seconds_def ceiling_rat_numeral)

text \<open>
  With one energy computer, larger WiFi transfers never look cheaper, also
  across the packet threshold; every estimate is non-negative.
\<close>

theorem wifi_costs_sorted:
  assumes "power_model pm" "wifi_args_ok rate chan"
    and "sorted ds" "\<forall>d \<in> set ds. transfer_ok d bw rtt"
  shows "\<exists>ns. map (\<lambda>d. wifi_energy_computer pm rate chan d bw rtt) ds = map Ok ns
    \<and> sorted ns \<and> (\<forall>n \<in> set ns. 0 \<le> n)"
  using wifi_estimator.costs_sorted [of pm rate chan ds bw rtt] assms by simp

lemma wifi_costs_sorted_witness:
  "\<exists>ns. map (\<lambda>d. wifi_energy_computer nexus_one 14 10 d 10000 100) [0, 1448, 1449, 3000] = map Ok ns
    \<and> sorted ns"
proof -
  have "\<forall>d \<in> set [0, 1448, 1449, 3000]. transfer_ok d 10000 100" "sorted [0, 1448, 1449, 3000 :: size_t]"
    "wifi_args_ok 14 10" by (simp_all add: transfer_ok_def wifi_args_ok_def)
  with wifi_costs_sorted [of nexus_one 14 10 _ 10000 100] nexus_one_ok show ?thesis by blast
qed

text \<open>
  With a bandwidth of zero no estimate returns: the duration is infinite
  or not a number, and the code converts a product of it to \<open>int\<close>, which is undefined.
\<close>

theorem zero_bandwidth_faults:
  assumes "power_model pm" "uint bw = 0" "uint d < 2 ^ 40"
    and "queues_ok q a" "Fin 0 \<le> idle" "wifi_args_ok rate chan"
  shows "estimate_mobile_energy_cost_from_state b pm s idle q a d bw rtt = Fault Float_to_int
    \<and> wifi_energy_computer pm rate chan d bw rtt = Fault Float_to_int"
proof
  have w: "uint (d + 52) = uint d + 52" using uint_add_52 [OF assms(3)] .
  show "estimate_mobile_energy_cost_from_state b pm s idle q a d bw rtt = Fault Float_to_int"
    using predicted_state_Ok [OF assms(1,4), of "d + 52" b s] assms(3) w
      infinite_energy [OF assms(1) predicted_duration_infinite [OF assms(2)] assms(5)]
    by (simp add: estimate_mobile_energy_cost_from_state_def headers Let_def)
next
  have "unat d < 2 ^ 40" using assms(3) by (metis uint_nat of_nat_less_iff of_nat_numeral of_nat_power)
  then have "wifi_high_state pm rate d = Ok (WIFI_PACKET_RATE_THRESHOLD pm < packets_of (unat d) + rate)"
    using assms(6) by (intro wifi_high_state_Ok) (simp_all add: wifi_args_ok_def)
  moreover have p: "0 < wifi_power pm rate chan d" "wifi_power pm rate chan d \<le> 2000"
    using wifi_power_range [OF assms(1,6)] by auto
  moreover have "in_int (WIFI_HIGH_POWER_BASE pm + chan)"
    using power_model.wifi_powers [OF assms(1)] assms(6) by (simp add: in_int_def wifi_args_ok_def)
  moreover have "d_of_int (wifi_power pm rate chan d) = Fin (of_int (wifi_power pm rate chan d))"
    using p by (intro d_of_int_Fin) auto
  ultimately show "wifi_energy_computer pm rate chan d bw rtt = Fault Float_to_int"
    using predicted_duration_infinite [OF assms(2), of d rtt]
    by (auto simp: wifi_energy_computer_def wifi_power_def split: if_splits)
qed

lemma zero_bandwidth_faults_witness:
  "wifi_energy_computer nexus_one 3 10 1000 0 100 = Fault Float_to_int"
  using zero_bandwidth_faults [of nexus_one 0 1000 0 0 "Fin 0" 3 10] by simp

end
