(* ===== verification/Cpu.thy ===== *)
theory Cpu
  imports Net_Dev
begin

text \<open>
  The CPU part of \<^verbatim>\<open>libpowertutor.cpp\<close>: the utilization from \<^verbatim>\<open>/proc/stat\<close>
  (\<open>get_and_update_cpu_utilization\<close>) and the frequency from \<^verbatim>\<open>scaling_cur_freq\<close>
  (\<open>get_cpu_freq\<close>).

  While the counters of the kernel grow and stay below \<open>2 ^ 53\<close>, the utilization is between 0
  and 100.
\<close>

subsection \<open>Reading a double\<close>

text \<open>
  Extraction of a \<open>double\<close>: a sign, digits with an optional point, an optional exponent. It
  fails without digits, with an empty exponent (assigning 0), and out of range (assigning the
  largest finite value).
\<close>

definition DBL_MAX :: rat where
  "DBL_MAX = 2 ^ 1024 - 2 ^ 971"

definition read_exponent :: "string \<Rightarrow> (int \<times> string) option" where
  "read_exponent r = (case r of [] \<Rightarrow> Some (0, [])
     | c # t \<Rightarrow>
         if c = CHR ''e'' \<or> c = CHR ''E'' then
           (case read_sign t of (sign, u) \<Rightarrow>
              if takeWhile isdigit u = [] then None
              else Some (sign * digits_value (takeWhile isdigit u), dropWhile isdigit u))
         else Some (0, r))"

definition read_double :: "in_stream \<Rightarrow> double \<Rightarrow> double \<times> in_stream" where
  "read_double s old = (case sentry s of None \<Rightarrow> (old, None)
     | Some t \<Rightarrow>
         (case read_sign t of (sign, r) \<Rightarrow>
          let ds = takeWhile isdigit r; r = dropWhile isdigit r;
              (fs, r) = (case r of [] \<Rightarrow> ([], [])
                 | c # u \<Rightarrow> if c = CHR ''.'' then (takeWhile isdigit u, dropWhile isdigit u)
                          else ([], r)) in
          if ds @ fs = [] then (Fin 0, None)
          else
            (case read_exponent r of None \<Rightarrow> (Fin 0, None)
             | Some (ex, r) \<Rightarrow>
                 (case to_double (of_int (sign * digits_value (ds @ fs)) * 10 powi (ex - int (length fs))) of
                    Fin x \<Rightarrow> (Fin x, Some r)
                  | NInf \<Rightarrow> (Fin (- DBL_MAX), None)
                  | _ \<Rightarrow> (Fin DBL_MAX, None)))))"

subsection \<open>Utilization and frequency\<close>

record cpu_vars =
  last_cpu_user_total :: double
  last_cpu_sys_total :: double
  last_cpu_total :: double

definition cpu_vars_init :: cpu_vars where
  "cpu_vars_init = \<lparr>last_cpu_user_total = Fin 0, last_cpu_sys_total = Fin 0, last_cpu_total = Fin 0\<rparr>"

definition get_and_update_cpu_utilization :: "string option \<Rightarrow> cpu_vars \<Rightarrow> double \<times> cpu_vars" where
  "get_and_update_cpu_utilization file c = (case file of None \<Rightarrow> (Fin 0, c)
     | Some f \<Rightarrow>
         (case read_string (Some f) [] of (label, s) \<Rightarrow>
          if s = None then (Fin 0, c)
          else if label \<noteq> ''cpu'' then (Fin 0, c)
          else
            case read_double s (Fin 0) of (user, s) \<Rightarrow>
            case read_double s (Fin 0) of (user_low_priority, s) \<Rightarrow>
            case read_double s (Fin 0) of (sys, s) \<Rightarrow>
            case read_double s (Fin 0) of (idle, s) \<Rightarrow>
            case read_double s (Fin 0) of (io, s) \<Rightarrow>
            case read_double s (Fin 0) of (irq, s) \<Rightarrow>
            case read_double s (Fin 0) of (softirq, s) \<Rightarrow>
            if s = None then (Fin 0, c)
            else
              let user_total = user + user_low_priority;
                  sys_total = sys + irq + softirq;
                  total = user_total + sys_total + idle + io;
                  user_delta = user_total - last_cpu_user_total c;
                  sys_delta = sys_total - last_cpu_sys_total c;
                  total_delta = d_max (Fin 1) (total - last_cpu_total c);
                  c = \<lparr>last_cpu_user_total = user_total, last_cpu_sys_total = sys_total,
                       last_cpu_total = total\<rparr>;
                  utilization = divide (user_delta + sys_delta) total_delta * Fin 100
              in (d_max (Fin 0) utilization, c)))"

definition get_cpu_freq :: "PowerModel \<Rightarrow> string option \<Rightarrow> double \<Rightarrow> int" where
  "get_cpu_freq pm file utilization =
     (if utilization < dec 1 6 then min_cpu_freq pm
      else
        case read_int file 0 of (cpu_freq_khz, s) \<Rightarrow>
        if s = None then min_cpu_freq pm else c_div cpu_freq_khz 1000)"

text \<open>The energy of a second of the CPU, as \<open>update_consumption_stats\<close> computes it.\<close>

definition cpu_energy :: "PowerModel \<Rightarrow> int \<Rightarrow> double \<Rightarrow> int result" where
  "cpu_energy pm freq utilization =
     bind_r (cpu_power_coeff pm freq) (\<lambda>coeff. d_to_int (coeff * utilization))"

subsection \<open>Growing counters\<close>

text \<open>
  The first line of \<^verbatim>\<open>/proc/stat\<close> as the kernel prints it, with single blanks but two before the
  first number, and what may follow.
\<close>

fun print_counters :: "nat list \<Rightarrow> string" where
  "print_counters [] = []"
| "print_counters (n # ns) = CHR '' '' # print_nat n @ print_counters ns"

definition print_stat :: "nat list \<Rightarrow> string \<Rightarrow> string" where
  "print_stat ns rest = ''cpu '' @ print_counters ns @ newline # rest"

lemma digit_not_exp: "isspace c \<Longrightarrow> c \<noteq> CHR ''.'' \<and> c \<noteq> CHR ''e'' \<and> c \<noteq> CHR ''E''"
  by (auto simp: isspace_def)

lemma read_double_print:
  assumes "isspace (hd rest)" "rest \<noteq> []" "n < 2 ^ 53"
  shows "read_double (Some (CHR '' '' # print_nat n @ rest)) old = (Fin (of_nat n), Some rest)"
proof -
  have ds: "\<forall>c \<in> set (print_nat n). isdigit c" "\<forall>c \<in> set (print_nat n). \<not> isspace c"
    using print_nat_chars print_digit_ok by blast+
  have tail: "rest = [] \<or> \<not> isdigit (hd rest)" using assms isdigit_not_space by auto
  have s: "sentry (Some (CHR '' '' # print_nat n @ rest)) = Some (print_nat n @ rest)"
    using sentry_blanks [of "print_nat n" 1] ds(2) by simp
  obtain c u where r: "rest = c # u" "isspace c" using assms by (cases rest) auto
  have e: "read_exponent rest = Some (0, rest)" using digit_not_exp [OF r(2)] by (simp add: read_exponent_def r(1))
  have "int n < 2 ^ 53" using assms(3) by (metis of_nat_less_iff of_nat_numeral of_nat_power)
  then have "to_double (of_int (int n)) = Fin (of_int (int n))" by (intro to_double_of_int) simp
  then have t: "to_double (of_nat n) = Fin (of_nat n)" by simp
  show ?thesis
    unfolding read_double_def s option.case print_nat_sign prod.case
      takeWhile_dropWhile_tail [OF ds(1) tail] Let_def
    using digit_not_exp [OF r(2)] e t by (simp add: r(1) digits_value_print)
qed

lemma read_double_counter:
  assumes "n < 2 ^ 53" "tail = c # u" "isspace c"
  shows "read_double (Some (print_counters (n # ns) @ tail)) old
    = (Fin (of_nat n), Some (print_counters ns @ tail))"
proof -
  have "isspace (hd (print_counters ns @ tail))" "print_counters ns @ tail \<noteq> []"
    using assms(2,3) by (cases ns; simp)+
  from read_double_print [OF this assms(1)] show ?thesis by simp
qed

definition user_ticks :: "nat list \<Rightarrow> nat" where
  "user_ticks ns = ns ! 0 + ns ! 1"

definition sys_ticks :: "nat list \<Rightarrow> nat" where
  "sys_ticks ns = ns ! 2 + ns ! 5 + ns ! 6"

definition all_ticks :: "nat list \<Rightarrow> nat" where
  "all_ticks ns = user_ticks ns + sys_ticks ns + ns ! 3 + ns ! 4"

definition ticks_grow :: "nat list \<Rightarrow> nat list \<Rightarrow> bool" where
  "ticks_grow ms ns \<longleftrightarrow> (\<forall>i < 7. ms ! i \<le> ns ! i)"

definition cpu_at :: "nat list \<Rightarrow> cpu_vars \<Rightarrow> bool" where
  "cpu_at ns c \<longleftrightarrow> last_cpu_user_total c = Fin (of_nat (user_ticks ns))
     \<and> last_cpu_sys_total c = Fin (of_nat (sys_ticks ns)) \<and> last_cpu_total c = Fin (of_nat (all_ticks ns))"

lemma Fin_plus_nat: "a + b < 2 ^ 53 \<Longrightarrow> Fin (of_nat a) + Fin (of_nat b) = Fin (of_nat (a + b))"
proof -
  assume "a + b < 2 ^ 53"
  then have "int (a + b) < 2 ^ 53" by (metis of_nat_less_iff of_nat_numeral of_nat_power)
  then have "to_double (of_int (int (a + b))) = Fin (of_int (int (a + b)))" by (intro to_double_of_int) simp
  then show ?thesis by simp
qed

lemma Fin_minus_nat:
  assumes "b \<le> a" "a < 2 ^ 53"
  shows "Fin (of_nat a) - Fin (of_nat b) = Fin (of_nat (a - b))"
proof -
  have "int (a - b) < 2 ^ 53"
    using assms by (metis less_imp_diff_less of_nat_less_iff of_nat_numeral of_nat_power)
  then have "to_double (of_int (int (a - b))) = Fin (of_int (int (a - b)))" by (intro to_double_of_int) simp
  then show ?thesis using assms(1) by (simp add: minus_double_def of_nat_diff)
qed

lemma read_cpu_label:
  "read_string (Some (print_stat ns rest)) [] = (''cpu'', Some (CHR '' '' # print_counters ns @ newline # rest))"
  by (simp add: print_stat_def read_string_def sentry_def isspace_def)

lemma read_double_blank:
  "read_double (Some (CHR '' '' # CHR '' '' # t)) old = read_double (Some (CHR '' '' # t)) old"
  by (simp add: read_double_def sentry_def)

lemma percentage:
  assumes "a \<le> b" "b < 2 ^ 53"
  shows "\<exists>x. divide (Fin (of_nat a)) (d_max (Fin 1) (Fin (of_nat b))) * Fin 100 = Fin x \<and> 0 \<le> x \<and> x \<le> 100
    \<and> \<bar>x - 100 * of_nat a / of_nat (max 1 b)\<bar> \<le> 1 / 2 ^ 20"
proof -
  define m where "m = max 1 b"
  have m: "d_max (Fin 1) (Fin (of_nat b)) = Fin (of_nat m)"
    by (auto simp: d_max_def less_double_def m_def max_def)
  have am: "(of_nat a :: rat) \<le> of_nat m" "0 < (of_nat m :: rat)" using assms(1) by (auto simp: m_def)
  then have q: "of_int 0 \<le> (of_nat a / of_nat m :: rat)" "(of_nat a / of_nat m :: rat) \<le> of_int 1" by simp_all
  from to_double_range [OF q] obtain y where
    y: "to_double (of_nat a / of_nat m) = Fin y" "0 \<le> y" "y \<le> 1" by auto
  have "of_int 0 \<le> y * 100" "y * 100 \<le> of_int 100" using y by simp_all
  from to_double_range [OF this] obtain z where z: "to_double (y * 100) = Fin z" "0 \<le> z" "z \<le> 100" by auto
  have "y = round64 (of_nat a / of_nat m)" "z = round64 (y * 100)"
    using y(1) z(1) by (auto simp: to_double_def Let_def split: if_splits)
  moreover have "\<bar>round64 (of_nat a / of_nat m) - of_nat a / of_nat m\<bar> \<le> (1 / 2 ^ 30 :: rat)"
  proof (rule round64_abs_error)
    show "0 \<le> (of_nat a / of_nat m :: rat)" using q(1) by simp
    show "(of_nat a / of_nat m :: rat) \<le> 2 ^ 22" by (rule order_trans [OF q(2)]) simp
  qed
  moreover have "\<bar>round64 (y * 100) - y * 100\<bar> \<le> 1 / 2 ^ 30"
    using y by (intro round64_abs_error) simp_all
  moreover have "100 * (1 / 2 ^ 30) + 1 / 2 ^ 30 \<le> (1 / 2 ^ 20 :: rat)" by simp
  ultimately have "\<bar>z - 100 * (of_nat a / of_nat m)\<bar> \<le> 1 / 2 ^ 20" by linarith
  then show ?thesis using m y am z by (simp add: m_def)
qed

lemma ten_or_more:
  assumes "7 \<le> length ns"
  shows "\<exists>n0 n1 n2 n3 n4 n5 n6 ms. ns = n0 # n1 # n2 # n3 # n4 # n5 # n6 # ms"
  using assms by (auto simp: Suc_le_length_iff numeral_eq_Suc)

lemma utilization_Ok:
  assumes "7 \<le> length ns" "all_ticks ns < 2 ^ 53" "cpu_at ms c" "ticks_grow ms ns"
  shows "\<exists>x c'. get_and_update_cpu_utilization (Some (print_stat ns rest)) c = (Fin x, c')
    \<and> cpu_at ns c' \<and> 0 \<le> x \<and> x \<le> 100
    \<and> \<bar>x - 100 * of_nat ((user_ticks ns - user_ticks ms) + (sys_ticks ns - sys_ticks ms))
        / of_nat (max 1 (all_ticks ns - all_ticks ms))\<bar> \<le> 1 / 2 ^ 20"
proof -
  obtain n0 n1 n2 n3 n4 n5 n6 more where ns: "ns = n0 # n1 # n2 # n3 # n4 # n5 # n6 # more"
    using ten_or_more [OF assms(1)] by blast
  have T: "all_ticks ns = n0 + n1 + (n2 + n5 + n6) + n3 + n4" "user_ticks ns = n0 + n1"
    "sys_ticks ns = n2 + n5 + n6" by (simp_all add: all_ticks_def user_ticks_def sys_ticks_def ns)
  have lt: "n0 < 2 ^ 53" "n1 < 2 ^ 53" "n2 < 2 ^ 53" "n3 < 2 ^ 53" "n4 < 2 ^ 53" "n5 < 2 ^ 53" "n6 < 2 ^ 53"
    using assms(2) T(1) by simp_all
  note rd = read_double_counter [where tail = "newline # rest" and c = newline and u = rest,
      OF _ refl newline_space]
  have first: "read_double (Some (CHR '' '' # print_counters (n0 # ks) @ newline # rest)) (Fin 0)
      = (Fin (of_nat n0), Some (print_counters ks @ newline # rest))" for ks
    using rd [OF lt(1), of ks "Fin 0"] read_double_blank by simp
  have g: "ms ! 0 \<le> n0" "ms ! 1 \<le> n1" "ms ! 2 \<le> n2" "ms ! 3 \<le> n3" "ms ! 4 \<le> n4" "ms ! 5 \<le> n5" "ms ! 6 \<le> n6"
    using assms(4) by (auto simp: ticks_grow_def ns dest: spec [of _ "0 :: nat"] spec [of _ "1 :: nat"]
      spec [of _ "2 :: nat"] spec [of _ "3 :: nat"] spec [of _ "4 :: nat"] spec [of _ "5 :: nat"] spec [of _ "6 :: nat"])
  have le: "user_ticks ms \<le> user_ticks ns" "sys_ticks ms \<le> sys_ticks ns" "all_ticks ms \<le> all_ticks ns"
    "(user_ticks ns - user_ticks ms) + (sys_ticks ns - sys_ticks ms) \<le> all_ticks ns - all_ticks ms"
    using g by (simp_all add: all_ticks_def user_ticks_def sys_ticks_def ns)
  have sums: "Fin (of_nat n0) + Fin (of_nat n1) = Fin (of_nat (user_ticks ns))"
    "Fin (of_nat n2) + Fin (of_nat n5) + Fin (of_nat n6) = Fin (of_nat (sys_ticks ns))"
    "Fin (of_nat (user_ticks ns)) + Fin (of_nat (sys_ticks ns)) + Fin (of_nat n3) + Fin (of_nat n4)
       = Fin (of_nat (all_ticks ns))"
    using assms(2) T by (simp_all add: Fin_plus_nat del: plus_double.simps of_nat_add)
  have small: "user_ticks ns < 2 ^ 53" "sys_ticks ns < 2 ^ 53" using assms(2) T by simp_all
  have deltas: "Fin (of_nat (user_ticks ns)) - last_cpu_user_total c = Fin (of_nat (user_ticks ns - user_ticks ms))"
    "Fin (of_nat (sys_ticks ns)) - last_cpu_sys_total c = Fin (of_nat (sys_ticks ns - sys_ticks ms))"
    "Fin (of_nat (all_ticks ns)) - last_cpu_total c = Fin (of_nat (all_ticks ns - all_ticks ms))"
    using assms(2,3) le small by (simp_all add: cpu_at_def Fin_minus_nat)
  have db: "all_ticks ns - all_ticks ms < 2 ^ 53" using assms(2) by simp
  have dsum: "Fin (of_nat (user_ticks ns - user_ticks ms)) + Fin (of_nat (sys_ticks ns - sys_ticks ms))
      = Fin (of_nat ((user_ticks ns - user_ticks ms) + (sys_ticks ns - sys_ticks ms)))"
    using le(4) db by (intro Fin_plus_nat) simp
  obtain x where x: "divide (Fin (of_nat ((user_ticks ns - user_ticks ms) + (sys_ticks ns - sys_ticks ms))))
      (d_max (Fin 1) (Fin (of_nat (all_ticks ns - all_ticks ms)))) * Fin 100 = Fin x" "0 \<le> x" "x \<le> 100"
    "\<bar>x - 100 * of_nat ((user_ticks ns - user_ticks ms) + (sys_ticks ns - sys_ticks ms))
        / of_nat (max 1 (all_ticks ns - all_ticks ms))\<bar> \<le> 1 / 2 ^ 20"
    using percentage [OF le(4) db] by blast
  define c' where "c' = \<lparr>last_cpu_user_total = Fin (of_nat (user_ticks ns)),
      last_cpu_sys_total = Fin (of_nat (sys_ticks ns)), last_cpu_total = Fin (of_nat (all_ticks ns))\<rparr>"
  have "get_and_update_cpu_utilization (Some (print_stat ns rest)) c = (d_max (Fin 0) (Fin x), c')"
    unfolding get_and_update_cpu_utilization_def option.case read_cpu_label prod.case
    by (simp only: ns first rd lt prod.case sums [unfolded ns] deltas [unfolded ns] dsum [unfolded ns]
        x(1) [unfolded ns] Let_def option.distinct if_False refl not_True_eq_False c'_def simp_thms)
  moreover have "d_max (Fin 0) (Fin x) = Fin x" using x(2) by (auto simp: d_max_def less_double_def)
  moreover have "cpu_at ns c'" by (simp add: cpu_at_def c'_def)
  ultimately show ?thesis using x by auto
qed


subsection \<open>The energy of a second\<close>

definition freq_in_table :: "PowerModel \<Rightarrow> int \<Rightarrow> bool" where
  "freq_in_table pm freq \<longleftrightarrow> (\<exists>f \<in> fst ` set (cpu_freq_power_coeffs pm). freq \<le> f)"

definition freq_file_ok :: "PowerModel \<Rightarrow> string option \<Rightarrow> bool" where
  "freq_file_ok pm file \<longleftrightarrow>
     (case read_int file 0 of (khz, s) \<Rightarrow> s \<noteq> None \<longrightarrow> freq_in_table pm (c_div khz 1000))"

lemma get_cpu_freq_in_table:
  assumes "power_model pm" "freq_file_ok pm file"
  shows "freq_in_table pm (get_cpu_freq pm file utilization)"
proof -
  have "freq_in_table pm (min_cpu_freq pm)"
    unfolding freq_in_table_def
    by (rule bexI [of _ "min_cpu_freq pm"]) (simp_all add: power_model.first_mem [OF assms(1)] del: image_iff)
  then show ?thesis
    using assms(2) by (auto simp: get_cpu_freq_def freq_file_ok_def split: prod.splits)
qed

lemma cpu_energy_Ok:
  assumes "power_model pm" "freq_in_table pm freq" "0 \<le> x" "x \<le> 100"
  shows "\<exists>n. cpu_energy pm freq (Fin x) = Ok n \<and> 0 \<le> n \<and> n \<le> 1600"
proof -
  obtain c where c: "cpu_power_coeff pm freq = Ok (Fin c)" "0 < c" "c \<le> 16"
    using power_model.coeff_total [OF assms(1)] assms(2) by (auto simp: freq_in_table_def)
  have "c * x \<le> 16 * 100" using c assms(3,4) by (intro mult_mono) simp_all
  then have "of_int 0 \<le> c * x" "c * x \<le> of_int 1600" using c assms(3) by simp_all
  from d_to_int_rounded [OF this] obtain n where
    "d_to_int (to_double (c * x)) = Ok n" "0 \<le> n" "n \<le> 1600" by (auto simp: in_int_def)
  then show ?thesis using c(1) by (simp add: cpu_energy_def del: d_to_int.simps)
qed

subsection \<open>Properties\<close>

text \<open>
  C35: while the kernel's counters grow, the utilization is the percentage of
  the new ticks that are user or system ticks, to a millionth, and between 0 and 100, also when no
  tick has passed; the totals of the line read are kept for the next call.
\<close>

theorem cpu_utilization_exact:
  assumes "7 \<le> length ns" "all_ticks ns < 2 ^ 53" "cpu_at ms c" "ticks_grow ms ns"
  shows "\<exists>x c'. get_and_update_cpu_utilization (Some (print_stat ns rest)) c = (Fin x, c')
    \<and> cpu_at ns c' \<and> 0 \<le> x \<and> x \<le> 100
    \<and> \<bar>x - 100 * of_nat ((user_ticks ns - user_ticks ms) + (sys_ticks ns - sys_ticks ms))
        / of_nat (max 1 (all_ticks ns - all_ticks ms))\<bar> \<le> 1 / 2 ^ 20"
  by (rule utilization_Ok [OF assms])

lemma cpu_utilization_exact_witness:
  "\<exists>x c'. get_and_update_cpu_utilization (Some (print_stat [30, 0, 20, 40, 5, 3, 2] ''cpu0'')) cpu_vars_init
     = (Fin x, c') \<and> \<bar>x - 55\<bar> \<le> 1 / 2 ^ 20"
proof -
  have "cpu_at [0, 0, 0, 0, 0, 0, 0] cpu_vars_init"
    by (simp add: cpu_at_def cpu_vars_init_def user_ticks_def sys_ticks_def all_ticks_def)
  moreover have "ticks_grow [0, 0, 0, 0, 0, 0, 0] [30, 0, 20, 40, 5, 3, 2]"
    by (auto simp: ticks_grow_def numeral_eq_Suc less_Suc_eq)
  ultimately show ?thesis
    using cpu_utilization_exact [of "[30, 0, 20, 40, 5, 3, 2]" "[0, 0, 0, 0, 0, 0, 0]" cpu_vars_init "''cpu0''"]
    by (auto simp: user_ticks_def sys_ticks_def all_ticks_def)
qed

end
