(* ===== verification/Consumption.thy ===== *)
theory Consumption
  imports Estimate Cpu
begin

text \<open>
  The consumption statistics of \<^verbatim>\<open>libpowertutor.cpp\<close>: the energy charged per component
  since the last reset, the bytes of the cellular interface, and the functions that report them.

  \<open>power_tutor\<close> extends the record of the estimates with everything else the handset keeps.
  A registered callback is the application's code: it is a number here, and a call of it is recorded
  with its argument. The statistics carry the state of \<open>stats_lock\<close>, because \<open>reset_stats\<close>
  calls other functions while it holds the lock: taking a lock that the same thread holds never
  returns, which is the fault \<open>Self_deadlock\<close>.

  \<open>stats_inv\<close> is the invariant: the total is the sum of the components.
\<close>

subsection \<open>State\<close>

record stats_vars =
  stats_lock :: bool
  last_reset :: timeval
  last_update :: timeval
  energy_consumed_mJ :: "EnergyComponent \<Rightarrow> int"
  mobile_data_consumed_bytes :: int

definition stats_vars_init :: stats_vars where
  "stats_vars_init =
     \<lparr>stats_lock = False, last_reset = timerclear, last_update = timerclear,
      energy_consumed_mJ = (\<lambda>_. 0), mobile_data_consumed_bytes = 0\<rparr>"

record power_tutor = library +
  lib_cpu :: cpu_vars
  lib_stats :: stats_vars
  mobile_activity_callback :: "nat option"
  callback_calls :: "(nat \<times> remote_power_state) list"

definition power_tutor_init :: power_tutor where
  "power_tutor_init =
     \<lparr>lib_mobile = mobile_vars_init, lib_remote = remote_vars_init, lib_wifi = wifi_vars_init,
      lib_mocked = (\<lambda>_. None), lib_cpu = cpu_vars_init, lib_stats = stats_vars_init,
      mobile_activity_callback = None, callback_calls = []\<rparr>"

definition acquire_stats_lock :: "stats_vars \<Rightarrow> stats_vars result" where
  "acquire_stats_lock st =
     (if stats_lock st then Fault Self_deadlock else Ok (st\<lparr>stats_lock := True\<rparr>))"

definition release_stats_lock :: "stats_vars \<Rightarrow> stats_vars" where
  "release_stats_lock st = st\<lparr>stats_lock := False\<rparr>"

subsection \<open>update_consumption_stats\<close>

definition add_energy ::
  "EnergyComponent \<Rightarrow> int \<Rightarrow> (EnergyComponent \<Rightarrow> int) \<Rightarrow> (EnergyComponent \<Rightarrow> int) result" where
  "add_energy i n energy = bind_r (c_int (energy i + n)) (\<lambda>sum. Ok (energy(i := sum)))"

text \<open>The loop that fills the total, and the loop that charges all components.\<close>

fun total_loop ::
  "EnergyComponent list \<Rightarrow> (EnergyComponent \<Rightarrow> int) \<Rightarrow> (EnergyComponent \<Rightarrow> int) result" where
  "total_loop [] this_second = Ok this_second"
| "total_loop (i # is) this_second =
     bind_r (add_energy ALL_ENERGY_COMPONENTS (this_second i) this_second) (total_loop is)"

fun charge_loop ::
  "EnergyComponent list \<Rightarrow> (EnergyComponent \<Rightarrow> int) \<Rightarrow> (EnergyComponent \<Rightarrow> int)
   \<Rightarrow> (EnergyComponent \<Rightarrow> int) result" where
  "charge_loop [] this_second energy = Ok energy"
| "charge_loop (i # is) this_second energy =
     bind_r (add_energy i (this_second i) energy) (charge_loop is this_second)"

definition consumption_this_second ::
  "build \<Rightarrow> PowerModel \<Rightarrow> env \<Rightarrow> power_tutor \<Rightarrow> nat
   \<Rightarrow> ((EnergyComponent \<Rightarrow> int) \<times> power_tutor) result" where
  "consumption_this_second b pm e s k =
     (let this_second = (\<lambda>_. 0) in
      bind_r (wifi_packet_rate b (lib_remote s) (lib_wifi s)) (\<lambda>packet_rate.
      bind_r (wifi_high_state pm packet_rate 0) (\<lambda>high.
      bind_r
        (if high then
           bind_r (wifi_channel_rate_component b (lib_wifi s)) (\<lambda>component.
           bind_r (c_int (WIFI_HIGH_POWER_BASE pm + component)) (\<lambda>power.
           add_energy NETWORKING power this_second))
         else add_energy NETWORKING (WIFI_LOW_POWER pm) this_second) (\<lambda>this_second.
      bind_r (get_mobile_state b s) (\<lambda>state.
      bind_r (add_energy NETWORKING (power_coeff pm state) this_second) (\<lambda>this_second.
      case get_and_update_cpu_utilization (proc_stat e k) (lib_cpu s) of (utilization, cpu) \<Rightarrow>
      let cpu_freq = get_cpu_freq pm (scaling_cur_freq e k) utilization in
      bind_r (cpu_energy pm cpu_freq utilization) (\<lambda>energy.
      bind_r (add_energy CPU energy this_second) (\<lambda>this_second.
      bind_r (total_loop [CPU, NETWORKING] this_second) (\<lambda>this_second.
      Ok (this_second, s\<lparr>lib_cpu := cpu\<rparr>))))))))))"

definition update_consumption_stats ::
  "build \<Rightarrow> PowerModel \<Rightarrow> env \<Rightarrow> power_tutor \<Rightarrow> nat \<Rightarrow> (power_tutor \<times> nat) result" where
  "update_consumption_stats b pm e s k =
     (let now = clock e k; k = Suc k in
      bind_r (TIMEDIFF (last_update (lib_stats s)) now) (\<lambda>diff.
      if tv_sec diff \<le> 0 then Ok (s, k)
      else
        let s = s\<lparr>lib_stats := (lib_stats s)\<lparr>last_update := now\<rparr>\<rparr> in
        bind_r (consumption_this_second b pm e s k) (\<lambda>(this_second, s).
        bind_r (acquire_stats_lock (lib_stats s)) (\<lambda>st.
        bind_r (charge_loop [CPU, NETWORKING, ALL_ENERGY_COMPONENTS] this_second (energy_consumed_mJ st))
          (\<lambda>energy.
        bind_r (c_int (mobile_last_delta_bytes (lib_mobile s) DOWN
                       + mobile_last_delta_bytes (lib_mobile s) UP)) (\<lambda>delta.
        bind_r (c_int (mobile_data_consumed_bytes st + delta)) (\<lambda>bytes.
        Ok (s\<lparr>lib_stats := release_stats_lock
                (st\<lparr>energy_consumed_mJ := energy, mobile_data_consumed_bytes := bytes\<rparr>)\<rparr>, k))))))))"

subsection \<open>Reports\<close>

definition energy_consumed_since_reset_by_component ::
  "EnergyComponent \<Rightarrow> stats_vars \<Rightarrow> int result" where
  "energy_consumed_since_reset_by_component component st =
     bind_r (acquire_stats_lock st) (\<lambda>st. Ok (energy_consumed_mJ st component))"

definition energy_consumed_since_reset :: "stats_vars \<Rightarrow> int result" where
  "energy_consumed_since_reset st =
     energy_consumed_since_reset_by_component ALL_ENERGY_COMPONENTS st"

definition mobile_bytes_consumed_since_reset :: "stats_vars \<Rightarrow> int result" where
  "mobile_bytes_consumed_since_reset st =
     bind_r (acquire_stats_lock st) (\<lambda>st. Ok (mobile_data_consumed_bytes st))"

definition average_power_consumption_since_reset_by_component ::
  "env \<Rightarrow> EnergyComponent \<Rightarrow> stats_vars \<Rightarrow> nat \<Rightarrow> (int \<times> nat) result" where
  "average_power_consumption_since_reset_by_component e component st k =
     bind_r (acquire_stats_lock st) (\<lambda>st.
     let begin_time = last_reset st; now = clock e k; k = Suc k in
     bind_r (TIMEDIFF begin_time now) (\<lambda>diff.
     let seconds_since_reset =
           d_of_int (tv_sec diff) + divide (d_of_int (tv_usec diff)) (Fin 1000000) in
     bind_r (d_to_int (divide (d_of_int (energy_consumed_mJ st component)) seconds_since_reset)) (\<lambda>n.
     Ok (n, k))))"

definition average_power_consumption_since_reset ::
  "env \<Rightarrow> stats_vars \<Rightarrow> nat \<Rightarrow> (int \<times> nat) result" where
  "average_power_consumption_since_reset e st k =
     average_power_consumption_since_reset_by_component e ALL_ENERGY_COMPONENTS st k"

subsection \<open>The charge of a second\<close>

lemma wifi_high_state_zero:
  assumes "in_int rate"
  shows "wifi_high_state pm rate 0 = Ok (WIFI_PACKET_RATE_THRESHOLD pm < rate)"
proof -
  have "in_int 0" by (simp add: in_int_def)
  then show ?thesis
    using assms by (simp add: wifi_high_state_def size_of_int_def int_of_size_def wifi_mtu_1448)
qed

lemma add_energy_Ok [simp]: "in_int (a i + n) \<Longrightarrow> add_energy i n a = Ok (a(i := a i + n))"
  by (simp add: add_energy_def)

definition second_charge ::
  "PowerModel \<Rightarrow> int \<Rightarrow> int \<Rightarrow> MobileState \<Rightarrow> int \<Rightarrow> EnergyComponent \<Rightarrow> int" where
  "second_charge pm rate chan state cpu i =
     (let networking = (if WIFI_PACKET_RATE_THRESHOLD pm < rate then WIFI_HIGH_POWER_BASE pm + chan
                        else WIFI_LOW_POWER pm) + power_coeff pm state
      in case i of CPU \<Rightarrow> cpu | NETWORKING \<Rightarrow> networking | ALL_ENERGY_COMPONENTS \<Rightarrow> cpu + networking)"

text \<open>What a second costs in state \<open>s\<close>, in which the CPU has used \<open>cpu\<close> millijoules.\<close>

definition charge_of :: "PowerModel \<Rightarrow> power_tutor \<Rightarrow> int \<Rightarrow> (EnergyComponent \<Rightarrow> int) \<Rightarrow> bool" where
  "charge_of pm s cpu this_second \<longleftrightarrow> 0 \<le> cpu \<and> cpu \<le> 1600
     \<and> (\<exists>chan. wifi_channel_rate_component Handset_build (lib_wifi s) = Ok chan
         \<and> this_second = second_charge pm
             (wifi_packet_rates (lib_wifi s) DOWN + wifi_packet_rates (lib_wifi s) UP) chan
             (mobile_state (lib_mobile s)) cpu)"

lemma channel_component_build:
  "ANDROID b \<Longrightarrow> wifi_channel_rate_component b w = wifi_channel_rate_component Handset_build w"
  by (simp add: wifi_channel_rate_component_def power_model_is_remote_def)

lemma state_power_range:
  assumes "power_model pm"
  shows "0 < power_coeff pm s" "power_coeff pm s \<le> 1000"
  using power_model.power_coeff_range [OF assms] by simp_all

lemma second_charge_range:
  assumes "power_model pm" "\<bar>chan\<bar> \<le> 2 ^ 18" "0 \<le> cpu" "cpu \<le> 1600"
  shows "\<bar>second_charge pm rate chan state cpu i\<bar> \<le> 2 ^ 19"
  using assms(2-4) state_power_range [OF assms(1), of state] power_model.wifi_powers [OF assms(1)]
  by (cases i) (auto simp: second_charge_def Let_def)

lemma charge_of_total:
  "charge_of pm s cpu this_second \<Longrightarrow>
    this_second ALL_ENERGY_COMPONENTS = this_second CPU + this_second NETWORKING"
  by (auto simp: charge_of_def second_charge_def Let_def)

lemma charge_of_range:
  assumes "power_model pm" "charge_of pm s cpu this_second" "in_int (wifi_data_rates (lib_wifi s) UP)"
  shows "\<bar>this_second i\<bar> \<le> 2 ^ 19" "0 \<le> this_second CPU" "this_second CPU \<le> 1600"
    "- 1 \<le> wifi_data_rates (lib_wifi s) UP \<Longrightarrow> 0 < this_second NETWORKING"
    "wifi_data_rates (lib_wifi s) UP \<le> 15000000 \<Longrightarrow> this_second NETWORKING \<le> 3000"
proof -
  obtain chan where c: "wifi_channel_rate_component Handset_build (lib_wifi s) = Ok chan"
    "this_second = second_charge pm
       (wifi_packet_rates (lib_wifi s) DOWN + wifi_packet_rates (lib_wifi s) UP) chan
       (mobile_state (lib_mobile s)) cpu" "0 \<le> cpu" "cpu \<le> 1600"
    using assms(2) by (auto simp: charge_of_def)
  with channel_component_Ok [OF assms(3), of Handset_build]
  have chan: "\<bar>chan\<bar> \<le> 2 ^ 18" "- 1 \<le> wifi_data_rates (lib_wifi s) UP \<longrightarrow> 0 \<le> chan"
    "wifi_data_rates (lib_wifi s) UP \<le> 15000000 \<longrightarrow> chan \<le> 1000" by auto
  show "\<bar>this_second i\<bar> \<le> 2 ^ 19" unfolding c(2) using assms(1) chan(1) c(3,4) by (rule second_charge_range)
  show "0 \<le> this_second CPU" "this_second CPU \<le> 1600"
    using c by (simp_all add: second_charge_def Let_def)
  note p = state_power_range [OF assms(1), of "mobile_state (lib_mobile s)"] power_model.wifi_powers [OF assms(1)]
  show "- 1 \<le> wifi_data_rates (lib_wifi s) UP \<Longrightarrow> 0 < this_second NETWORKING"
    "wifi_data_rates (lib_wifi s) UP \<le> 15000000 \<Longrightarrow> this_second NETWORKING \<le> 3000"
    using chan(2,3) p by (auto simp: c(2) second_charge_def Let_def)
qed

text \<open>The CPU's files at reading \<open>k\<close>: what \<open>cpu_energy_Ok\<close> asks of them.\<close>

definition cpu_files_ok :: "PowerModel \<Rightarrow> env \<Rightarrow> nat \<Rightarrow> cpu_vars \<Rightarrow> bool" where
  "cpu_files_ok pm e k c \<longleftrightarrow> freq_file_ok pm (scaling_cur_freq e k)
     \<and> (case get_and_update_cpu_utilization (proc_stat e k) c of
          (Fin x, _) \<Rightarrow> 0 \<le> x \<and> x \<le> 100 | _ \<Rightarrow> False)"

definition rates_fit :: "wifi_vars \<Rightarrow> bool" where
  "rates_fit w \<longleftrightarrow> in_int (wifi_data_rates w UP)
     \<and> in_int (wifi_packet_rates w DOWN + wifi_packet_rates w UP)"

lemma wifi_inv_rates_fit: "wifi_inv t w \<Longrightarrow> rates_fit w"
  by (auto simp: wifi_inv_def wifi_unknown_def wifi_known_def rates_fit_def rates_ok_def in_int_def)

lemma consumption_this_second_Ok:
  assumes "power_model pm" "ANDROID b" "rates_fit (lib_wifi s)" "cpu_files_ok pm e k (lib_cpu s)"
  shows "\<exists>this_second cpu cpu_mJ. consumption_this_second b pm e s k = Ok (this_second, s\<lparr>lib_cpu := cpu\<rparr>)
    \<and> charge_of pm s cpu_mJ this_second
    \<and> cpu = snd (get_and_update_cpu_utilization (proc_stat e k) (lib_cpu s))"
proof -
  let ?w = "lib_wifi s" and ?rate = "wifi_packet_rates (lib_wifi s) DOWN + wifi_packet_rates (lib_wifi s) UP"
  let ?state = "mobile_state (lib_mobile s)"
  have remote: "power_model_is_remote b = False" using assms(2) by (simp add: power_model_is_remote_def)
  have rate: "wifi_packet_rate b (lib_remote s) ?w = Ok ?rate"
    "wifi_high_state pm ?rate 0 = Ok (WIFI_PACKET_RATE_THRESHOLD pm < ?rate)"
    using assms(3) remote wifi_high_state_zero by (simp_all add: wifi_packet_rate_def rates_fit_def)
  obtain chan where chan: "wifi_channel_rate_component b ?w = Ok chan" "\<bar>chan\<bar> \<le> 2 ^ 18"
    using channel_component_Ok [of ?w b] assms(3) by (auto simp: rates_fit_def)
  obtain x cpu where x: "get_and_update_cpu_utilization (proc_stat e k) (lib_cpu s) = (Fin x, cpu)"
    "0 \<le> x" "x \<le> 100"
    using assms(4) by (auto simp: cpu_files_ok_def split: prod.splits double.splits)
  have "freq_in_table pm (get_cpu_freq pm (scaling_cur_freq e k) (Fin x))"
    using assms(1,4) by (intro get_cpu_freq_in_table) (simp_all add: cpu_files_ok_def)
  from cpu_energy_Ok [OF assms(1) this x(2,3)] obtain n where
    n: "cpu_energy pm (get_cpu_freq pm (scaling_cur_freq e k) (Fin x)) (Fin x) = Ok n" "0 \<le> n" "n \<le> 1600"
    by blast
  define this_second where "this_second = second_charge pm ?rate chan ?state n"
  note p = state_power_range [OF assms(1), of ?state] power_model.wifi_powers [OF assms(1)]
  have fit: "in_int (WIFI_HIGH_POWER_BASE pm + chan)" "in_int (WIFI_LOW_POWER pm)"
    "in_int (WIFI_HIGH_POWER_BASE pm + chan + power_coeff pm ?state)" "in_int n"
    "in_int (WIFI_LOW_POWER pm + power_coeff pm ?state)"
    "in_int (n + (WIFI_HIGH_POWER_BASE pm + chan + power_coeff pm ?state))"
    "in_int (n + (WIFI_LOW_POWER pm + power_coeff pm ?state))"
    using chan(2) n(2,3) p by (auto simp: in_int_def abs_le_iff)
  have "consumption_this_second b pm e s k = Ok (this_second, s\<lparr>lib_cpu := cpu\<rparr>)"
  proof (cases "WIFI_PACKET_RATE_THRESHOLD pm < ?rate")
    case True
    then show ?thesis
      using fit rate chan(1) x(1) n(1) remote
      by (simp add: consumption_this_second_def get_mobile_state_def this_second_def second_charge_def
          Let_def fun_eq_iff split: EnergyComponent.splits)
  next
    case False
    then show ?thesis
      using fit rate x(1) n(1) remote
      by (simp add: consumption_this_second_def get_mobile_state_def this_second_def second_charge_def
          Let_def fun_eq_iff split: EnergyComponent.splits)
  qed
  moreover have "charge_of pm s n this_second"
    using chan(1) n(2,3) channel_component_build [OF assms(2)] by (simp add: charge_of_def this_second_def)
  ultimately show ?thesis using x(1) by auto
qed

subsection \<open>One update of the statistics\<close>

definition stats_inv :: "int \<Rightarrow> stats_vars \<Rightarrow> bool" where
  "stats_inv t st \<longleftrightarrow> \<not> stats_lock st \<and> stamp_ok t (last_reset st) \<and> stamp_ok t (last_update st)
     \<and> tv_us (last_reset st) \<le> tv_us (last_update st)
     \<and> energy_consumed_mJ st ALL_ENERGY_COMPONENTS
         = energy_consumed_mJ st CPU + energy_consumed_mJ st NETWORKING"

lemma stats_inv_mono: "stats_inv t st \<Longrightarrow> t \<le> t' \<Longrightarrow> stats_inv t' st"
  by (auto simp: stats_inv_def intro: stamp_ok_mono)

definition new_bytes :: "mobile_vars \<Rightarrow> int" where
  "new_bytes m = mobile_last_delta_bytes m DOWN + mobile_last_delta_bytes m UP"

text \<open>Room in the \<open>int\<close> variables for one more charge.\<close>

definition stats_room :: "power_tutor \<Rightarrow> bool" where
  "stats_room s \<longleftrightarrow> (\<forall>i. \<bar>energy_consumed_mJ (lib_stats s) i\<bar> + 2 ^ 19 < 2 ^ 31)
     \<and> in_int (new_bytes (lib_mobile s))
     \<and> in_int (mobile_data_consumed_bytes (lib_stats s) + new_bytes (lib_mobile s))"

text \<open>The state after a charge.\<close>

definition charged ::
  "power_tutor \<Rightarrow> timeval \<Rightarrow> cpu_vars \<Rightarrow> (EnergyComponent \<Rightarrow> int) \<Rightarrow> power_tutor" where
  "charged s now cpu this_second =
     s\<lparr>lib_cpu := cpu,
       lib_stats := (lib_stats s)\<lparr>last_update := now,
         energy_consumed_mJ := (\<lambda>i. energy_consumed_mJ (lib_stats s) i + this_second i),
         mobile_data_consumed_bytes :=
           mobile_data_consumed_bytes (lib_stats s) + new_bytes (lib_mobile s),
         stats_lock := False\<rparr>\<rparr>"

lemma charged_sel [simp]:
  "lib_mobile (charged s t cpu n) = lib_mobile s" "lib_remote (charged s t cpu n) = lib_remote s"
  "lib_wifi (charged s t cpu n) = lib_wifi s" "lib_mocked (charged s t cpu n) = lib_mocked s"
  "lib_cpu (charged s t cpu n) = cpu"
  "mobile_activity_callback (charged s t cpu n) = mobile_activity_callback s"
  "callback_calls (charged s t cpu n) = callback_calls s"
  "last_reset (lib_stats (charged s t cpu n)) = last_reset (lib_stats s)"
  "last_update (lib_stats (charged s t cpu n)) = t"
  "energy_consumed_mJ (lib_stats (charged s t cpu n)) i = energy_consumed_mJ (lib_stats s) i + n i"
  "mobile_data_consumed_bytes (lib_stats (charged s t cpu n))
     = mobile_data_consumed_bytes (lib_stats s) + new_bytes (lib_mobile s)"
  "stats_lock (lib_stats (charged s t cpu n)) = False"
  by (simp_all add: charged_def)

lemma all_components_added:
  "energy(CPU := energy CPU + n CPU, NETWORKING := energy NETWORKING + n NETWORKING,
     ALL_ENERGY_COMPONENTS := energy ALL_ENERGY_COMPONENTS + n ALL_ENERGY_COMPONENTS)
   = (\<lambda>i. energy i + n i)"
  by (auto simp: fun_eq_iff intro: EnergyComponent.exhaust)

lemma update_consumption_step:
  fixes e k s
  defines "us \<equiv> silent_us e (last_update (lib_stats s)) k"
  assumes "power_model pm" "ANDROID b" "steady e" "rates_fit (lib_wifi s)"
    and "cpu_files_ok pm e (Suc k) (lib_cpu s)" "stats_inv (tv_us (clock e k)) (lib_stats s)" "stats_room s"
  shows "\<exists>s'. update_consumption_stats b pm e s k = Ok (s', Suc k)
    \<and> stats_inv (tv_us (clock e (Suc k))) (lib_stats s')
    \<and> (if us < 1000000 then s' = s
       else \<exists>cpu_mJ this_second. charge_of pm s cpu_mJ this_second
         \<and> s' = charged s (clock e k)
             (snd (get_and_update_cpu_utilization (proc_stat e (Suc k)) (lib_cpu s))) this_second)"
proof -
  let ?st = "lib_stats s"
  have st: "stamp_ok (tv_us (clock e k)) (last_update ?st)" "\<not> stats_lock ?st"
    using assms(7) by (simp_all add: stats_inv_def)
  obtain d where d: "TIMEDIFF (last_update ?st) (clock e k) = Ok d" "valid_tv d" "tv_us d = us"
    using TIMEDIFF_Ok [of "last_update ?st" "clock e k"] assms(4) st(1)
    by (auto simp: stamp_ok_def us_def silent_us_def)
  have early: "tv_sec d \<le> 0 \<longleftrightarrow> us < 1000000" using d(2,3) by (auto simp: valid_tv_def tv_us_def)
  note inv = stats_inv_mono [OF assms(7) steady_mono [OF assms(4), of k "Suc k"]]
  show ?thesis
  proof (cases "us < 1000000")
    case True
    then show ?thesis
      using d(1) early inv by (simp add: update_consumption_stats_def Let_def)
  next
    case False
    let ?s = "s\<lparr>lib_stats := ?st\<lparr>last_update := clock e k\<rparr>\<rparr>"
    let ?cpu = "snd (get_and_update_cpu_utilization (proc_stat e (Suc k)) (lib_cpu s))"
    obtain this_second n where c: "consumption_this_second b pm e ?s (Suc k)
        = Ok (this_second, ?s\<lparr>lib_cpu := ?cpu\<rparr>)" "charge_of pm ?s n this_second"
      using consumption_this_second_Ok [OF assms(2,3), of ?s e "Suc k"] assms(5,6) by auto
    have c': "charge_of pm s n this_second" using c(2) by (simp add: charge_of_def)
    have fit: "in_int (energy_consumed_mJ ?st i + this_second i)" for i
    proof -
      have "\<bar>this_second i\<bar> \<le> 2 ^ 19" "\<bar>energy_consumed_mJ ?st i\<bar> + 2 ^ 19 < 2 ^ 31"
        using charge_of_range(1) [OF assms(2) c', of i] assms(5,8)
        by (simp_all add: rates_fit_def stats_room_def)
      then show ?thesis unfolding in_int_def by linarith
    qed
    have run: "update_consumption_stats b pm e s k = Ok (charged s (clock e k) ?cpu this_second, Suc k)"
      using d(1) early False c(1) fit assms(8) st(2)
      by (simp add: update_consumption_stats_def Let_def acquire_stats_lock_def release_stats_lock_def
          charged_def stats_room_def new_bytes_def all_components_added)
    have "stats_inv (tv_us (clock e (Suc k))) (lib_stats (charged s (clock e k) ?cpu this_second))"
      using inv charge_of_total [OF c'] st(1) stamp_ok_clock [OF assms(4), of k "Suc k"]
      by (auto simp: charged_def stats_inv_def stamp_ok_def)
    then show ?thesis using run c' False by auto
  qed
qed

subsection \<open>The average power\<close>

lemma seconds_near:
  assumes "valid_tv d" "tv_us d < 2 ^ 40"
  shows "\<exists>D. convert_to_seconds d = Fin D \<and> 0 \<le> D \<and> \<bar>D - of_int (tv_us d) / 1000000\<bar> \<le> 2 / 2 ^ 30"
proof -
  let ?u = "(of_int (tv_usec d) :: rat) / 1000000"
  have sec: "0 \<le> tv_sec d" "tv_sec d < 2 ^ 21" "0 \<le> tv_usec d" "tv_usec d < 1000000"
    using assms by (auto simp: valid_tv_def tv_us_def)
  have "(of_int (tv_usec d) :: rat) \<le> 1000000" using sec(4) by (metis less_imp_le of_int_le_iff of_int_numeral)
  then have u: "of_int 0 \<le> ?u" "?u \<le> of_int 1" using sec(3) by simp_all
  from to_double_range [OF u] obtain y where y: "to_double ?u = Fin y" "0 \<le> y" "y \<le> 1" by auto
  then have "y = round64 ?u" by (auto simp: to_double_def Let_def split: if_splits)
  moreover have "\<bar>round64 ?u - ?u\<bar> \<le> 1 / 2 ^ 30"
    using u by (intro round64_abs_error) simp_all
  ultimately have ey: "\<bar>y - ?u\<bar> \<le> 1 / 2 ^ 30" by simp
  have "(of_int (tv_sec d) :: rat) \<le> 2 ^ 21" using sec(2) by (metis less_imp_le of_int_le_iff of_int_numeral of_int_power)
  then have "of_int (tv_sec d) + y \<le> 2 ^ 22" using y(3) by simp
  with y(2) sec(1) obtain c where c: "Fin (of_int (tv_sec d)) + Fin y = Fin c"
    "\<bar>c - (of_int (tv_sec d) + y)\<bar> \<le> 1 / 2 ^ 30" "0 \<le> c"
    using d_plus_Fin [of "of_int (tv_sec d)" y] by auto
  have eq: "convert_to_seconds d = Fin c"
    using sec y(1) c(1) by (simp add: convert_to_seconds_def d_of_int_Fin)
  have "(of_int (tv_us d) :: rat) / 1000000 = of_int (tv_sec d) + ?u"
    by (simp add: tv_us_def field_simps)
  moreover have "1 / 2 ^ 30 + 1 / 2 ^ 30 = (2 / 2 ^ 30 :: rat)" by simp
  ultimately have "\<bar>c - of_int (tv_us d) / 1000000\<bar> \<le> 2 / 2 ^ 30"
    using ey c(2) by linarith
  then show ?thesis using eq c(3) by auto
qed

lemma in_int_abs: "in_int x \<Longrightarrow> \<bar>x\<bar> < 2 ^ 53"
  by (auto simp: in_int_def)

lemma in_int_between:
  "e \<le> f \<Longrightarrow> f \<le> c \<Longrightarrow> c \<le> 2147483647 \<Longrightarrow> - 2147483648 \<le> e \<Longrightarrow> in_int f \<and> in_int c"
  by (simp add: in_int_def)

lemma int_quotient:
  assumes "in_int E" "1 \<le> D"
  shows "\<exists>n. d_to_int (divide (d_of_int E) (Fin D)) = Ok n \<and> \<bar>of_int n - of_int E / D\<bar> < 1"
proof -
  let ?x = "of_int E / D"
  have E: "- (2 ^ 31) \<le> E" "E < 2 ^ 31" using assms(1) by (simp_all add: in_int_def)
  then have dE: "divide (d_of_int E) (Fin D) = to_double ?x"
    using assms(2) by (simp add: d_of_int_Fin abs_less_iff)
  have "\<bar>?x\<bar> = of_int \<bar>E\<bar> / D" using assms(2) by (simp add: abs_divide)
  also have "\<dots> \<le> of_int \<bar>E\<bar>" using assms(2) by (simp add: divide_le_eq mult_left_le mult_le_cancel_left1)
  finally have x: "\<bar>?x\<bar> \<le> of_int \<bar>E\<bar>" .
  have fc: "of_int \<lfloor>?x\<rfloor> \<le> ?x" "?x \<le> of_int \<lceil>?x\<rceil>" by simp_all
  have lo: "(of_int (- \<bar>E\<bar>) :: rat) \<le> ?x" and hi: "?x \<le> of_int \<bar>E\<bar>"
    using abs_le_D1 [OF x] abs_le_D2 [OF x] by (simp_all only: of_int_minus minus_le_iff)
  have b: "- \<bar>E\<bar> \<le> \<lfloor>?x\<rfloor>" "\<lceil>?x\<rceil> \<le> \<bar>E\<bar>" "\<lfloor>?x\<rfloor> \<le> \<lceil>?x\<rceil>"
    using lo hi by (simp_all only: le_floor_iff ceiling_le_iff floor_le_ceiling)
  have fit: "in_int \<lfloor>?x\<rfloor>" "in_int \<lceil>?x\<rceil>"
  proof -
    have "\<lceil>?x\<rceil> \<le> 2147483647"
    proof (cases "E < 0")
      case True
      then have "?x \<le> 0" using assms(2) by (simp add: divide_nonpos_pos)
      then have "\<lceil>?x\<rceil> \<le> 0" by (simp only: ceiling_le_iff of_int_0)
      then show ?thesis by simp
    next
      case False
      then have "\<bar>E\<bar> \<le> 2147483647" using E by simp
      with b(2) show ?thesis by (rule order_trans)
    qed
    moreover have "- 2147483648 \<le> - \<bar>E\<bar>" using E by simp
    ultimately show "in_int \<lfloor>?x\<rfloor>" "in_int \<lceil>?x\<rceil>" using in_int_between [OF b(1,3)] by blast+
  qed
  then have "\<bar>\<lfloor>?x\<rfloor>\<bar> < 2 ^ 53" "\<bar>\<lceil>?x\<rceil>\<bar> < 2 ^ 53"
    by (simp_all only: in_int_abs)
  from to_double_range [OF fc this] obtain y where
    y: "to_double ?x = Fin y" "of_int \<lfloor>?x\<rfloor> \<le> y" "y \<le> of_int \<lceil>?x\<rceil>" by blast
  then obtain n where n: "d_to_int (Fin y) = Ok n" "\<lfloor>?x\<rfloor> \<le> n" "n \<le> \<lceil>?x\<rceil>"
    using d_to_int_between [of "\<lfloor>?x\<rfloor>" "Fin y" "\<lceil>?x\<rceil>"] fit by (auto simp del: d_to_int.simps)
  then have "of_int \<lfloor>?x\<rfloor> \<le> (of_int n :: rat)" "(of_int n :: rat) \<le> of_int \<lceil>?x\<rceil>"
    by (simp_all only: of_int_le_iff)
  then have "\<bar>of_int n - ?x\<bar> < 1" by linarith
  then show ?thesis using n(1) y(1) dE by (simp del: d_to_int.simps)
qed

lemma average_power_Ok:
  assumes "steady e" "stats_inv (tv_us (clock e k)) st" "in_int (energy_consumed_mJ st c)"
    and "1000000 \<le> silent_us e (last_reset st) k" "silent_us e (last_reset st) k < 2 ^ 40"
  shows "\<exists>n D. average_power_consumption_since_reset_by_component e c st k = Ok (n, Suc k)
    \<and> \<bar>of_int n - of_int (energy_consumed_mJ st c) / D\<bar> < 1
    \<and> 1 \<le> D \<and> \<bar>D - of_int (silent_us e (last_reset st) k) / (1000000 :: rat)\<bar> \<le> 2 / 2 ^ 30"
proof -
  have st: "stamp_ok (tv_us (clock e k)) (last_reset st)" "\<not> stats_lock st"
    using assms(2) by (simp_all add: stats_inv_def)
  obtain d where d: "TIMEDIFF (last_reset st) (clock e k) = Ok d" "valid_tv d"
    "tv_us d = silent_us e (last_reset st) k"
    using TIMEDIFF_Ok [of "last_reset st" "clock e k"] assms(1) st(1)
    by (auto simp: stamp_ok_def silent_us_def)
  obtain D where D: "convert_to_seconds d = Fin D" "\<bar>D - of_int (tv_us d) / 1000000\<bar> \<le> 2 / 2 ^ 30"
    using seconds_near [OF d(2)] d(3) assms(5) by auto
  have D1: "1 \<le> D" using seconds_ge_iff [OF d(2), of 1] D(1) d(3) assms(4) by simp
  obtain n where n: "d_to_int (divide (d_of_int (energy_consumed_mJ st c)) (Fin D)) = Ok n"
    "\<bar>of_int n - of_int (energy_consumed_mJ st c) / D\<bar> < 1"
    using int_quotient [OF assms(3) D1] by blast
  have "average_power_consumption_since_reset_by_component e c st k = Ok (n, Suc k)"
    using d(1) D(1) n(1) st(2)
    by (simp add: average_power_consumption_since_reset_by_component_def acquire_stats_lock_def Let_def
        convert_to_seconds_def del: d_to_int.simps divide_double.simps)
  then show ?thesis using n(2) D D1 d(3) by auto
qed

subsection \<open>Properties\<close>

lemma power_tutor_init_sel [simp]:
  "lib_mobile power_tutor_init = mobile_vars_init" "lib_remote power_tutor_init = remote_vars_init"
  "lib_wifi power_tutor_init = wifi_vars_init" "lib_cpu power_tutor_init = cpu_vars_init"
  "lib_stats power_tutor_init = stats_vars_init" "lib_mocked power_tutor_init = (\<lambda>_. None)"
  "mobile_activity_callback power_tutor_init = None" "callback_calls power_tutor_init = []"
  by (simp_all add: power_tutor_init_def)

lemma stats_inv_init: "0 \<le> t \<Longrightarrow> stats_inv t stats_vars_init"
  by (simp add: stats_inv_def stats_vars_init_def stamp_ok_def)

lemma cpu_files_ticking [simp]: "cpu_files_ok pm (ticking n) k c"
  by (simp add: cpu_files_ok_def ticking_def freq_file_ok_def read_int_def
      get_and_update_cpu_utilization_def)

text \<open>
  C6: \<open>update_consumption_stats\<close> does nothing before a second has passed
  since its last charge. Otherwise it charges, without a fault, exactly one second of power however
  long ago that was: the WiFi power of the state the packet rate implies and the power of the
  cellular state to NETWORKING, the CPU energy (at most 1600 mJ) to CPU, and their sum to the total,
  which therefore stays the sum of the components; it adds the bytes of the last cellular sample.
\<close>

theorem consumption_charged:
  assumes "power_model pm" "ANDROID b" "steady e" "wifi_inv t (lib_wifi s)"
    and "cpu_files_ok pm e (Suc k) (lib_cpu s)" "stats_inv (tv_us (clock e k)) (lib_stats s)" "stats_room s"
  shows "\<exists>s' cpu_mJ this_second. update_consumption_stats b pm e s k = Ok (s', Suc k)
    \<and> stats_inv (tv_us (clock e (Suc k))) (lib_stats s')
    \<and> (if tv_us (clock e k) - tv_us (last_update (lib_stats s)) < 1000000 then s' = s
       else charge_of pm s cpu_mJ this_second
         \<and> (\<forall>i. energy_consumed_mJ (lib_stats s') i = energy_consumed_mJ (lib_stats s) i + this_second i)
         \<and> mobile_data_consumed_bytes (lib_stats s')
             = mobile_data_consumed_bytes (lib_stats s) + new_bytes (lib_mobile s)
         \<and> last_update (lib_stats s') = clock e k \<and> last_reset (lib_stats s') = last_reset (lib_stats s))"
proof -
  obtain s' where s': "update_consumption_stats b pm e s k = Ok (s', Suc k)"
    "stats_inv (tv_us (clock e (Suc k))) (lib_stats s')"
    "if silent_us e (last_update (lib_stats s)) k < 1000000 then s' = s
     else \<exists>cpu_mJ this_second. charge_of pm s cpu_mJ this_second
       \<and> s' = charged s (clock e k)
           (snd (get_and_update_cpu_utilization (proc_stat e (Suc k)) (lib_cpu s))) this_second"
    using update_consumption_step [OF assms(1-3) wifi_inv_rates_fit [OF assms(4)] assms(5-7)] by blast
  then show ?thesis
    by (cases "silent_us e (last_update (lib_stats s)) k < 1000000") (auto simp: silent_us_def, blast)
qed

lemma consumption_charged_witness:
  "\<exists>s'. update_consumption_stats Handset_build nexus_one (ticking 3) power_tutor_init 1 = Ok (s', 2)
    \<and> energy_consumed_mJ (lib_stats s') NETWORKING = 44 \<and> mobile_data_consumed_bytes (lib_stats s') = 0"
proof -
  have room: "stats_room power_tutor_init"
    by (simp add: stats_room_def stats_vars_init_def new_bytes_def mobile_vars_init_def in_int_def)
  have "wifi_inv 0 (lib_wifi power_tutor_init)" "stats_inv (tv_us (clock (ticking 3) 1)) (lib_stats power_tutor_init)"
    by (simp_all add: wifi_inv_init stats_inv_init tv_us_def)
  from consumption_charged [OF nexus_one_ok _ _ this(1) _ this(2) room, of Handset_build]
  show ?thesis
    by (auto simp: charge_of_def second_charge_def stats_vars_init_def tv_us_def timerclear_def
        wifi_vars_init_def mobile_vars_init_def new_bytes_def numeral_2_eq_2)
qed

text \<open>
  C36: from a second after a reset on, the average power returns and is
  within one milliwatt of the energy divided by the seconds since the reset, which it knows to
  \<open>2 / 2 ^ 30\<close> seconds.
\<close>

theorem average_power_accurate:
  assumes "steady e" "stats_inv (tv_us (clock e k)) st" "in_int (energy_consumed_mJ st c)"
    and "us = tv_us (clock e k) - tv_us (last_reset st)" "1000000 \<le> us" "us < 2 ^ 40"
  shows "\<exists>n D. average_power_consumption_since_reset_by_component e c st k = Ok (n, Suc k)
    \<and> \<bar>of_int n - of_int (energy_consumed_mJ st c) / D\<bar> < 1
    \<and> \<bar>D - of_int us / (1000000 :: rat)\<bar> \<le> 2 / 2 ^ 30"
  using average_power_Ok [OF assms(1-3)] assms(4-6) by (auto simp: silent_us_def)

lemma average_power_accurate_witness:
  "\<exists>n D. average_power_consumption_since_reset_by_component (ticking 3) CPU
      (stats_vars_init\<lparr>last_reset := clock (ticking 3) 0, last_update := clock (ticking 3) 0,
                      energy_consumed_mJ := (\<lambda>_. 300)(ALL_ENERGY_COMPONENTS := 600)\<rparr>) 1 = Ok (n, 2)
    \<and> \<bar>of_int n - 300 / D\<bar> < 1 \<and> \<bar>D - (3 :: rat)\<bar> \<le> 2 / 2 ^ 30"
proof -
  let ?st = "stats_vars_init\<lparr>last_reset := clock (ticking 3) 0, last_update := clock (ticking 3) 0,
                      energy_consumed_mJ := (\<lambda>_. 300)(ALL_ENERGY_COMPONENTS := 600)\<rparr>"
  have "stats_inv (tv_us (clock (ticking 3) 1)) ?st"
    by (simp add: stats_inv_def stats_vars_init_def stamp_ok_def valid_tv_def tv_us_def)
  from average_power_accurate [OF _ this, of CPU 3000000] show ?thesis
    by (auto simp: tv_us_def in_int_def numeral_2_eq_2)
qed

text \<open>
  At the very microsecond of the reset the average power divides by
  zero and converts the infinite or undefined quotient to \<open>int\<close>, which is undefined behaviour.
\<close>

theorem average_power_at_reset:
  assumes "valid_tv (last_reset st)" "clock e k = last_reset st" "\<not> stats_lock st"
    and "in_int (energy_consumed_mJ st c)"
  shows "average_power_consumption_since_reset_by_component e c st k = Fault Float_to_int"
proof -
  have "\<bar>energy_consumed_mJ st c\<bar> < 2 ^ 53" using assms(4) by (rule in_int_abs)
  then have "d_of_int (energy_consumed_mJ st c) = Fin (of_int (energy_consumed_mJ st c))"
    by (rule d_of_int_Fin)
  moreover have "TIMEDIFF (last_reset st) (last_reset st) = Ok \<lparr>tv_sec = 0, tv_usec = 0\<rparr>"
    using assms(1) by (simp add: TIMEDIFF_def in_long_def valid_tv_def)
  moreover have "d_of_int 0 = Fin 0" by (simp add: d_of_int_Fin)
  ultimately show ?thesis
    using assms(2,3)
    by (simp add: average_power_consumption_since_reset_by_component_def acquire_stats_lock_def)
qed

lemma average_power_at_reset_witness:
  "average_power_consumption_since_reset_by_component (ticking 3) ALL_ENERGY_COMPONENTS
     (stats_vars_init\<lparr>last_reset := clock (ticking 3) 0\<rparr>) 0 = Fault Float_to_int"
  by (rule average_power_at_reset) (simp_all add: stats_vars_init_def valid_tv_def in_int_def)

end
