(* ===== verification/Update.thy ===== *)
theory Update
  imports Consumption
begin

text \<open>
  What drives the components: \<open>update_energy_stats\<close>, the update thread that calls it every
  100 ms, \<open>reset_stats\<close>, the initialisation of the library, and the registration of the
  activity callback.

  \<open>sample_networks\<close> is the part of \<open>update_energy_stats\<close> before the consumption
  statistics, and \<open>sample_networks_Ok\<close> what it does. \<open>library_inv\<close> is the invariant of the
  whole library. The theory \<open>Session\<close> follows the update thread over time.
\<close>

subsection \<open>The callback\<close>

definition get_activity_callback :: "power_tutor \<Rightarrow> nat option" where
  "get_activity_callback s = mobile_activity_callback s"

definition register_mobile_activity_callback ::
  "build \<Rightarrow> nat option \<Rightarrow> power_tutor \<Rightarrow> power_tutor" where
  "register_mobile_activity_callback b callback s =
     (if ANDROID b then s\<lparr>mobile_activity_callback := callback\<rparr> else s)"

text \<open>The body of \<open>if (fire_callback)\<close>.\<close>

definition notify_activity :: "build \<Rightarrow> env \<Rightarrow> power_tutor \<Rightarrow> nat \<Rightarrow> (power_tutor \<times> nat) result" where
  "notify_activity b e s k = (case get_activity_callback s of
     None \<Rightarrow> Ok (s, k)
   | Some callback \<Rightarrow>
       bind_r (get_mobile_state b s) (\<lambda>state.
       bind_r (get_mobile_queue_len b e s k) (\<lambda>((down, up), s, k).
       bind_r (wifi_packet_rate b (lib_remote s) (lib_wifi s)) (\<lambda>rate.
       Ok (s\<lparr>callback_calls := callback_calls s @
               [(callback, \<lparr>mobile_state_rps = int_of_state state,
                           mobile_queue_len = (\<lambda>d. case d of DOWN \<Rightarrow> down | UP \<Rightarrow> up),
                           wifi_packet_rate_rps = rate\<rparr>)]\<rparr>, k)))))"

subsection \<open>update_energy_stats\<close>

text \<open>The two calls that sample the interfaces, each with its reading of the counters.\<close>

definition update_wifi_call ::
  "build \<Rightarrow> PowerModel \<Rightarrow> env \<Rightarrow> bool \<Rightarrow> power_tutor \<Rightarrow> nat
   \<Rightarrow> (int \<times> bool \<times> power_tutor \<times> nat) result" where
  "update_wifi_call b pm e fire_callback s k =
     (case get_net_dev_stats b e k (wifi_iface pm) (\<lambda>_. 0) (\<lambda>_. 0) (lib_mocked s) of
        (stats, mocked) \<Rightarrow>
      bind_r (update_wifi_estimated_rates e stats fire_callback (lib_wifi s) k)
        (\<lambda>(rc, fire_callback, w, k).
      Ok (rc, fire_callback, s\<lparr>lib_mocked := mocked, lib_wifi := w\<rparr>, k)))"

definition update_mobile_call ::
  "build \<Rightarrow> PowerModel \<Rightarrow> env \<Rightarrow> bool \<Rightarrow> power_tutor \<Rightarrow> nat
   \<Rightarrow> (int \<times> bool \<times> power_tutor \<times> nat) result" where
  "update_mobile_call b pm e fire_callback s k =
     (case get_net_dev_stats b e k MOBILE_IFACE (\<lambda>_. 0) (\<lambda>_. 0) (lib_mocked s) of
        ((rc, bytes, _), mocked) \<Rightarrow>
      bind_r (update_mobile_state pm e (rc, bytes) fire_callback (lib_mobile s) k)
        (\<lambda>(rc, fire_callback, m, k).
      Ok (rc, fire_callback, s\<lparr>lib_mocked := mocked, lib_mobile := m\<rparr>, k)))"

definition sample_networks ::
  "build \<Rightarrow> PowerModel \<Rightarrow> env \<Rightarrow> power_tutor \<Rightarrow> nat \<Rightarrow> (power_tutor \<times> nat) result" where
  "sample_networks b pm e s k =
     bind_r (update_wifi_call b pm e False s k) (\<lambda>(_, fire_callback, s, k).
     bind_r (update_mobile_call b pm e fire_callback s k) (\<lambda>(_, fire_callback, s, k).
     if fire_callback then notify_activity b e s k else Ok (s, k)))"

definition update_energy_stats ::
  "build \<Rightarrow> PowerModel \<Rightarrow> env \<Rightarrow> power_tutor \<Rightarrow> nat \<Rightarrow> (power_tutor \<times> nat) result" where
  "update_energy_stats b pm e s k =
     (if ANDROID b then
        bind_r (sample_networks b pm e s k) (\<lambda>(s, k). update_consumption_stats b pm e s k)
      else
        bind_r (update_remote_power_model pm e (lib_remote s) k) (\<lambda>(r, k).
        Ok (s\<lparr>lib_remote := r\<rparr>, k)))"

subsection \<open>Reset, initialisation, update thread\<close>

text \<open>The assignments of \<open>reset_stats\<close> before its call of \<open>update_energy_stats\<close>.\<close>

definition reset_variables :: "build \<Rightarrow> env \<Rightarrow> power_tutor \<Rightarrow> nat \<Rightarrow> power_tutor \<times> nat" where
  "reset_variables b e s k =
     (let st = (lib_stats s)\<lparr>last_reset := clock e k\<rparr>; k = Suc k;
          st = st\<lparr>last_update := last_reset st, energy_consumed_mJ := (\<lambda>_. 0),
                  mobile_data_consumed_bytes := 0\<rparr>;
          m = (lib_mobile s)
            \<lparr>mobile_state := MOBILE_POWER_STATE_IDLE,
             last_mobile_activity := timerclear,
             last_mobile_sample_time := timerclear,
             last_mobile_state_change := timerclear,
             mobile_last_bytes := (\<lambda>_. - 1),
             mobile_last_delta_bytes := (\<lambda>_. 0),
             time_in_mobile_state := (\<lambda>_. timerclear)
               (MOBILE_POWER_STATE_IDLE := \<lparr>tv_sec = 1, tv_usec = 0\<rparr>),
             idle_durations_per_state := (\<lambda>_. Fin 0),
             idle_duration_update_counts := (\<lambda>_. 1)\<rparr>;
          w = (lib_wifi s)\<lparr>wifi_data_rates := (\<lambda>_. - 1), wifi_packet_rates := (\<lambda>_. - 1)\<rparr>;
          (w, k) =
            (if ANDROID b
             then (w\<lparr>wifi_last_bytes := (\<lambda>_. - 1), wifi_last_packets := (\<lambda>_. - 1),
                     last_wifi_observation := clock e k\<rparr>, Suc k)
             else (w, k));
          mocked = (if b = Simulation_build then (\<lambda>_. None) else lib_mocked s);
          m = m\<lparr>last_mobile_state_change := clock e k\<rparr>; k = Suc k;
          m = m\<lparr>last_mobile_sample_time := clock e k\<rparr>; k = Suc k;
          m = m\<lparr>last_mobile_activity := clock e k\<rparr>; k = Suc k
      in (s\<lparr>lib_stats := st, lib_mobile := m, lib_wifi := w, lib_mocked := mocked\<rparr>, k))"

definition reset_stats ::
  "build \<Rightarrow> PowerModel \<Rightarrow> env \<Rightarrow> power_tutor \<Rightarrow> nat \<Rightarrow> (power_tutor \<times> nat) result" where
  "reset_stats b pm e s k =
     bind_r (acquire_stats_lock (lib_stats s)) (\<lambda>st.
     case reset_variables b e (s\<lparr>lib_stats := st\<rparr>) k of (s, k) \<Rightarrow>
     bind_r (update_energy_stats b pm e s k) (\<lambda>(s, k).
     Ok (s\<lparr>lib_stats := release_stats_lock (lib_stats s)\<rparr>, k)))"

text \<open>
  \<open>mocktime_usleep\<close> moves the clock of the mock library, which only the later readings show.
\<close>

definition libpowertutor_init_mocking ::
  "build \<Rightarrow> PowerModel \<Rightarrow> env \<Rightarrow> power_tutor \<Rightarrow> nat \<Rightarrow> (power_tutor \<times> nat) result" where
  "libpowertutor_init_mocking b pm e s k =
     bind_r (reset_stats b pm e s k) (\<lambda>(s, k). update_energy_stats b pm e s k)"

text \<open>
  The update thread: the list holds the time \<open>gettimeofday\<close> returns in each iteration, one
  iteration for every test of \<open>running\<close> that succeeds. \<open>pthread_cond_timedwait\<close> only waits;
  the deadlines are the second result.
\<close>

fun NetworkStatsUpdateThread ::
  "build \<Rightarrow> PowerModel \<Rightarrow> env \<Rightarrow> timeval list \<Rightarrow> power_tutor \<Rightarrow> nat
   \<Rightarrow> (timespec list \<times> power_tutor \<times> nat) result" where
  "NetworkStatsUpdateThread b pm e [] s k = Ok ([], s, k)"
| "NetworkStatsUpdateThread b pm e (tv # tvs) s k =
     bind_r (update_energy_stats b pm e s k) (\<lambda>(s, k).
     bind_r (abs_time tv \<lparr>ts_sec = 0, ts_nsec = 100 * 1000 * 1000\<rparr>) (\<lambda>wait_time.
     bind_r (NetworkStatsUpdateThread b pm e tvs s k) (\<lambda>(wait_times, s, k).
     Ok (wait_time # wait_times, s, k))))"

text \<open>
  \<open>libpowertutor_init\<close>: the model of the Nexus One, a reset, and the update thread unless this
  is the simulation; \<open>created\<close> is the return code of \<open>pthread_create\<close>. The results are the
  model in use, the array of models, whether the thread runs, the variables and the clock position.
\<close>

definition libpowertutor_init ::
  "build \<Rightarrow> (PowerModelType \<Rightarrow> PowerModel) \<Rightarrow> model_array \<Rightarrow> env \<Rightarrow> int \<Rightarrow> power_tutor \<Rightarrow> nat
   \<Rightarrow> (PowerModel \<times> model_array \<times> bool \<times> power_tutor \<times> nat) result" where
  "libpowertutor_init b fresh powerModels e created s k =
     bind_r (PowerModel_get fresh 1 powerModels) (\<lambda>(powerModel, powerModels).
     case powerModel of None \<Rightarrow> Fault Null_pointer
     | Some pm \<Rightarrow>
         bind_r (reset_stats b pm e s k) (\<lambda>(s, k).
         Ok (pm, powerModels, b \<noteq> Simulation_build \<and> created = 0, s, k)))"

subsection \<open>Reading the counters\<close>

text \<open>
  What is asked of the source of counters in each build: the kernel's file has no minus sign, a
  simulation keeps its counters in range, and the packet counters of the WiFi interface fit an
  \<open>int\<close> when added up.
\<close>

definition counters_ok :: "build \<Rightarrow> PowerModel \<Rightarrow> env \<Rightarrow> mocked_stats \<Rightarrow> bool" where
  "counters_ok b pm e mocked \<longleftrightarrow>
     (if b = Simulation_build then
        mocked_ok mocked \<and> (\<forall>st. mocked (wifi_iface pm) = Some st \<longrightarrow> small_counts (stats_packets st))
      else \<forall>k. proc_ok (proc_net_dev e k) \<and> (\<forall>bytes packets.
        get_net_dev_stats_from_proc (wifi_iface pm) (proc_net_dev e k) (\<lambda>_. 0) (\<lambda>_. 0)
          = (0, bytes, packets) \<longrightarrow> small_counts packets))"

lemma small_counts_zero [simp]: "small_counts (\<lambda>_. 0)"
  by (simp add: small_counts_def)

lemma read_counters:
  assumes "counters_ok b pm e mocked"
    and "get_net_dev_stats b e k iface x y mocked = ((rc, bytes, packets), mocked')"
  shows "rc = 0 \<or> rc = - 1" "rc = 0 \<Longrightarrow> counts_ok bytes" "counters_ok b pm e mocked'"
proof -
  have "(rc = 0 \<or> rc = - 1) \<and> (rc = 0 \<longrightarrow> counts_ok bytes) \<and> counters_ok b pm e mocked'"
  proof (cases "b = Simulation_build")
    case True
    then have m: "mocked_ok mocked" "get_mocked_net_dev_stats iface mocked = ((rc, bytes, packets), mocked')"
      using assms by (simp_all add: counters_ok_def get_net_dev_stats_def)
    have "small_counts (stats_packets st)" if "mocked' (wifi_iface pm) = Some st" for st
      using that m(2) assms(1) True
      by (auto simp: get_mocked_net_dev_stats_def counters_ok_def Let_def split: if_splits)
    then show ?thesis
      using mock.rc_range [OF m(1), of iface] mock.still_ok [OF m(1), of iface] m(2) True
        mock.counts_range [OF m(1), of iface bytes packets mocked']
      by (auto simp: counters_ok_def)
  next
    case False
    then have p: "proc_ok (proc_net_dev e k)" "mocked' = mocked"
      "get_net_dev_stats_from_proc iface (proc_net_dev e k) x y = (rc, bytes, packets)"
      using assms by (simp_all add: counters_ok_def get_net_dev_stats_def)
    then show ?thesis
      using proc.rc_range [OF p(1), of iface x y] assms(1)
        proc.counts_range [OF p(1), of iface x y bytes packets "proc_net_dev e k"]
      by auto
  qed
  then show "rc = 0 \<or> rc = - 1" "rc = 0 \<Longrightarrow> counts_ok bytes" "counters_ok b pm e mocked'" by auto
qed

lemma read_wifi_packets:
  assumes "counters_ok b pm e mocked"
    and "get_net_dev_stats b e k (wifi_iface pm) (\<lambda>_. 0) (\<lambda>_. 0) mocked = ((0, bytes, packets), mocked')"
  shows "small_counts packets"
  using assms
  by (auto simp: counters_ok_def get_net_dev_stats_def get_mocked_net_dev_stats_def Let_def
      split: if_splits)

subsection \<open>The parts of an update\<close>

lemma update_wifi_call_Ok:
  assumes "steady e" "wifi_inv (tv_us (clock e k)) (lib_wifi s)" "counters_ok b pm e (lib_mocked s)"
  shows "\<exists>rc bytes packets mocked fire' w j.
      get_net_dev_stats b e k (wifi_iface pm) (\<lambda>_. 0) (\<lambda>_. 0) (lib_mocked s) = ((rc, bytes, packets), mocked)
    \<and> update_wifi_call b pm e fire s k = Ok (rc, fire', s\<lparr>lib_mocked := mocked, lib_wifi := w\<rparr>, j)
    \<and> k \<le> j \<and> j \<le> Suc k \<and> wifi_inv (tv_us (clock e j)) w \<and> counters_ok b pm e mocked
    \<and> (if rc = 0 then update_wifi_estimated_rates e (0, bytes, packets) fire (lib_wifi s) k = Ok (0, fire', w, j)
       else w = lib_wifi s \<and> j = k \<and> fire' = fire)"
proof -
  obtain rc bytes packets mocked where
    r: "get_net_dev_stats b e k (wifi_iface pm) (\<lambda>_. 0) (\<lambda>_. 0) (lib_mocked s) = ((rc, bytes, packets), mocked)"
    by (metis surj_pair)
  note c = read_counters [OF assms(3) r]
  show ?thesis
  proof (cases "rc = 0")
    case True
    then have "small_counts packets" using read_wifi_packets [OF assms(3)] r by simp
    from update_wifi_step [OF assms(1,2) c(2) [OF True] this, of 0 fire] obtain fire' w where
      "update_wifi_estimated_rates e (0, bytes, packets) fire (lib_wifi s) k = Ok (0, fire', w, Suc k)"
      "wifi_inv (tv_us (clock e (Suc k))) w" by auto
    then show ?thesis
      using r True c(3)
      by (intro exI [of _ rc] exI [of _ bytes] exI [of _ packets] exI [of _ mocked] exI [of _ fire']
          exI [of _ w] exI [of _ "Suc k"]) (simp add: update_wifi_call_def)
  next
    case False
    then have "rc = - 1" using c(1) by simp
    then show ?thesis
      using r c(3) assms(2)
      by (intro exI [of _ rc] exI [of _ bytes] exI [of _ packets] exI [of _ mocked] exI [of _ fire]
          exI [of _ "lib_wifi s"] exI [of _ k])
         (simp add: update_wifi_call_def update_wifi_estimated_rates_def)
  qed
qed

lemma update_mobile_call_Ok:
  assumes "power_model pm" "steady e" "mobile_inv (tv_us (clock e k)) (lib_mobile s)"
    and "counters_ok b pm e (lib_mocked s)"
    and "\<forall>st. idle_duration_update_counts (lib_mobile s) st < 2 ^ 31 - 1"
  shows "\<exists>rc bytes packets mocked fire' m j.
      get_net_dev_stats b e k MOBILE_IFACE (\<lambda>_. 0) (\<lambda>_. 0) (lib_mocked s) = ((rc, bytes, packets), mocked)
    \<and> update_mobile_call b pm e fire s k = Ok (rc, fire', s\<lparr>lib_mocked := mocked, lib_mobile := m\<rparr>, j)
    \<and> k \<le> j \<and> j \<le> k + 5 \<and> mobile_inv (tv_us (clock e j)) m \<and> counters_ok b pm e mocked
    \<and> (if rc = 0 then k < j \<and> updated_from pm e bytes (lib_mobile s) k m j \<and> counts_ok bytes
       else m = lib_mobile s \<and> j = k \<and> fire' = fire)"
proof -
  obtain rc bytes packets mocked where
    r: "get_net_dev_stats b e k MOBILE_IFACE (\<lambda>_. 0) (\<lambda>_. 0) (lib_mocked s) = ((rc, bytes, packets), mocked)"
    by (metis surj_pair)
  note c = read_counters [OF assms(4) r]
  show ?thesis
  proof (cases "rc = 0")
    case True
    from update_mobile_state_step [OF assms(1-3) c(2) [OF True] assms(5), of 0 fire] obtain fire' m j where
      "update_mobile_state pm e (0, bytes) fire (lib_mobile s) k = Ok (0, fire', m, j)" "k < j" "j \<le> k + 5"
      "mobile_inv (tv_us (clock e j)) m" "updated_from pm e bytes (lib_mobile s) k m j" by auto
    then show ?thesis
      using r True c
      by (intro exI [of _ rc] exI [of _ bytes] exI [of _ packets] exI [of _ mocked] exI [of _ fire']
          exI [of _ m] exI [of _ j]) (simp add: update_mobile_call_def)
  next
    case False
    then have "rc = - 1" using c(1) by simp
    then show ?thesis
      using r c(3) assms(3)
      by (intro exI [of _ rc] exI [of _ bytes] exI [of _ packets] exI [of _ mocked] exI [of _ fire]
          exI [of _ "lib_mobile s"] exI [of _ k])
         (simp add: update_mobile_call_def update_mobile_state_def)
  qed
qed

lemma queue_len_returns:
  assumes "steady e" "mobile_inv (tv_us (clock e k)) (lib_mobile s)" "ANDROID b"
    and "counters_ok b pm e (lib_mocked s)"
  shows "\<exists>q mocked. get_mobile_queue_len b e s k = Ok (q, s\<lparr>lib_mocked := mocked\<rparr>, Suc k)
    \<and> counters_ok b pm e mocked"
proof -
  let ?m = "lib_mobile s"
  obtain rc bytes packets mocked where
    r: "get_net_dev_stats b e k MOBILE_IFACE (\<lambda>_. - 1) (\<lambda>_. 0) (lib_mocked s) = ((rc, bytes, packets), mocked)"
    by (metis surj_pair)
  note c = read_counters [OF assms(4) r]
  have st: "stamp_ok (tv_us (clock e k)) (last_mobile_sample_time ?m)"
    "mobile_last_bytes ?m = (\<lambda>_. - 1) \<or> counts_ok (mobile_last_bytes ?m)"
    using assms(2) by (simp_all add: mobile_inv_def)
  obtain d where d: "TIMEDIFF (last_mobile_sample_time ?m) (clock e k) = Ok d"
    using TIMEDIFF_Ok [of "last_mobile_sample_time ?m" "clock e k"] assms(1) st(1) by (auto simp: stamp_ok_def)
  have "in_int (bytes d - mobile_last_bytes ?m d)" if "rc = 0" "mobile_last_bytes ?m DOWN \<noteq> - 1" for d
    using counts_okD [OF c(2) [OF that(1)], of d] st(2) that(2) counts_okD [of "mobile_last_bytes ?m" d]
    by (auto intro: in_int_diff)
  then show ?thesis
    using assms(3) r d c(3)
    by (auto simp: get_mobile_queue_len_def power_model_is_remote_def Let_def)
qed

lemma notify_activity_Ok:
  assumes "steady e" "mobile_inv (tv_us (clock e k)) (lib_mobile s)" "ANDROID b"
    and "counters_ok b pm e (lib_mocked s)" "rates_fit (lib_wifi s)"
  shows "\<exists>mocked calls j. notify_activity b e s k = Ok (s\<lparr>lib_mocked := mocked, callback_calls := calls\<rparr>, j)
    \<and> k \<le> j \<and> j \<le> Suc k \<and> counters_ok b pm e mocked"
proof (cases "mobile_activity_callback s")
  case None
  then show ?thesis
    using assms(4)
    by (intro exI [of _ "lib_mocked s"] exI [of _ "callback_calls s"] exI [of _ k])
       (simp add: notify_activity_def get_activity_callback_def)
next
  case (Some callback)
  obtain q mocked where "get_mobile_queue_len b e s k = Ok (q, s\<lparr>lib_mocked := mocked\<rparr>, Suc k)"
    "counters_ok b pm e mocked"
    using queue_len_returns [OF assms(1-4)] by blast
  with Some show ?thesis
    using assms(3,5)
    by (cases q) (auto simp: notify_activity_def get_activity_callback_def get_mobile_state_def
        power_model_is_remote_def wifi_packet_rate_def rates_fit_def)
qed

text \<open>
  What the two samplings have done: from the variables before and the reading of the counters to the
  variables after.
\<close>

definition wifi_result ::
  "build \<Rightarrow> PowerModel \<Rightarrow> env \<Rightarrow> mocked_stats \<Rightarrow> wifi_vars \<Rightarrow> nat \<Rightarrow> wifi_vars \<Rightarrow> nat \<Rightarrow> bool" where
  "wifi_result b pm e mocked w k w' i \<longleftrightarrow>
     (case fst (get_net_dev_stats b e k (wifi_iface pm) (\<lambda>_. 0) (\<lambda>_. 0) mocked) of (rc, bytes, packets) \<Rightarrow>
      if rc = 0 then \<exists>fire fire'. update_wifi_estimated_rates e (0, bytes, packets) fire w k = Ok (0, fire', w', i)
      else w' = w \<and> i = k)"

definition mobile_result ::
  "build \<Rightarrow> PowerModel \<Rightarrow> env \<Rightarrow> mocked_stats \<Rightarrow> mobile_vars \<Rightarrow> nat \<Rightarrow> mobile_vars \<Rightarrow> nat \<Rightarrow> bool" where
  "mobile_result b pm e mocked m k m' j \<longleftrightarrow>
     (case fst (get_net_dev_stats b e k MOBILE_IFACE (\<lambda>_. 0) (\<lambda>_. 0) mocked) of (rc, bytes, packets) \<Rightarrow>
      if rc = 0 then k < j \<and> updated_from pm e bytes m k m' j \<and> counts_ok bytes else m' = m \<and> j = k)"

lemma sample_networks_Ok:
  assumes "power_model pm" "ANDROID b" "steady e"
    and "wifi_inv (tv_us (clock e k)) (lib_wifi s)" "mobile_inv (tv_us (clock e k)) (lib_mobile s)"
    and "counters_ok b pm e (lib_mocked s)"
    and "\<forall>st. idle_duration_update_counts (lib_mobile s) st < 2 ^ 31 - 1"
  shows "\<exists>w i m i' mocked mocked' calls j. sample_networks b pm e s k
      = Ok (s\<lparr>lib_wifi := w, lib_mobile := m, lib_mocked := mocked', callback_calls := calls\<rparr>, j)
    \<and> k \<le> i \<and> i \<le> Suc k \<and> i \<le> i' \<and> i' \<le> i + 5 \<and> i' \<le> j \<and> j \<le> Suc i'
    \<and> wifi_inv (tv_us (clock e j)) w \<and> mobile_inv (tv_us (clock e j)) m
    \<and> counters_ok b pm e mocked \<and> counters_ok b pm e mocked'
    \<and> wifi_result b pm e (lib_mocked s) (lib_wifi s) k w i
    \<and> mobile_result b pm e mocked (lib_mobile s) i m i'"
proof -
  from update_wifi_call_Ok [OF assms(3,4,6), of False] obtain rc bytes packets mocked fire w i where
    W: "get_net_dev_stats b e k (wifi_iface pm) (\<lambda>_. 0) (\<lambda>_. 0) (lib_mocked s) = ((rc, bytes, packets), mocked)"
      "update_wifi_call b pm e False s k = Ok (rc, fire, s\<lparr>lib_mocked := mocked, lib_wifi := w\<rparr>, i)"
      "k \<le> i" "i \<le> Suc k" "wifi_inv (tv_us (clock e i)) w" "counters_ok b pm e mocked"
      "if rc = 0 then update_wifi_estimated_rates e (0, bytes, packets) False (lib_wifi s) k = Ok (0, fire, w, i)
       else w = lib_wifi s \<and> i = k \<and> fire = False"
    by blast
  let ?s1 = "s\<lparr>lib_mocked := mocked, lib_wifi := w\<rparr>"
  have m1: "mobile_inv (tv_us (clock e i)) (lib_mobile ?s1)"
    using mobile_inv_mono [OF assms(5) steady_mono [OF assms(3) W(3)]] by simp
  have c1: "counters_ok b pm e (lib_mocked ?s1)"
    "\<forall>st. idle_duration_update_counts (lib_mobile ?s1) st < 2 ^ 31 - 1" using W(6) assms(7) by simp_all
  from update_mobile_call_Ok [OF assms(1,3) m1 c1, of fire] obtain rc' bytes' packets' mocked2 fire' m i' where
    M: "get_net_dev_stats b e i MOBILE_IFACE (\<lambda>_. 0) (\<lambda>_. 0) (lib_mocked ?s1) = ((rc', bytes', packets'), mocked2)"
      "update_mobile_call b pm e fire ?s1 i = Ok (rc', fire', ?s1\<lparr>lib_mocked := mocked2, lib_mobile := m\<rparr>, i')"
      "i \<le> i'" "i' \<le> i + 5" "mobile_inv (tv_us (clock e i')) m" "counters_ok b pm e mocked2"
      "if rc' = 0 then i < i' \<and> updated_from pm e bytes' (lib_mobile ?s1) i m i' \<and> counts_ok bytes'
       else m = lib_mobile ?s1 \<and> i' = i \<and> fire' = fire"
    by blast
  let ?s2 = "s\<lparr>lib_wifi := w, lib_mocked := mocked2, lib_mobile := m\<rparr>"
  have run: "sample_networks b pm e s k = (if fire' then notify_activity b e ?s2 i' else Ok (?s2, i'))"
    using W(2) M(2) by (simp add: sample_networks_def)
  from notify_activity_Ok [OF assms(3), of i' ?s2 b pm] M(5,6) assms(2) wifi_inv_rates_fit [OF W(5)]
  obtain mocked3 calls j where N: "notify_activity b e ?s2 i' = Ok (?s2\<lparr>lib_mocked := mocked3, callback_calls := calls\<rparr>, j)"
    "i' \<le> j" "j \<le> Suc i'" "counters_ok b pm e mocked3" by auto
  have res: "wifi_result b pm e (lib_mocked s) (lib_wifi s) k w i"
    "mobile_result b pm e mocked (lib_mobile s) i m i'"
    using W(1,7) M(1,7) by (auto simp: wifi_result_def mobile_result_def split: if_splits)
  have later: "wifi_inv (tv_us (clock e j')) w" "mobile_inv (tv_us (clock e j')) m" if "i' \<le> j'" for j'
    using wifi_inv_mono [OF W(5) steady_mono [OF assms(3)], of j'] M(3) that
      mobile_inv_mono [OF M(5) steady_mono [OF assms(3)], of j'] by simp_all
  show ?thesis
  proof (cases fire')
    case True
    then show ?thesis
      using run N W(3,4,6) M(3,4) res later [OF N(2)]
      by (intro exI [of _ w] exI [of _ i] exI [of _ m] exI [of _ i'] exI [of _ mocked] exI [of _ mocked3]
          exI [of _ calls] exI [of _ j]) simp
  next
    case False
    have "?s2 = s\<lparr>lib_wifi := w, lib_mobile := m, lib_mocked := mocked2, callback_calls := callback_calls s\<rparr>"
      by (rule power_tutor.equality) simp_all
    with False show ?thesis
      using run W(3,4,6) M(3,4,6) res later [of i']
      by (intro exI [of _ w] exI [of _ i] exI [of _ m] exI [of _ i'] exI [of _ mocked] exI [of _ mocked2]
          exI [of _ "callback_calls s"] exI [of _ i']) simp
  qed
qed

subsection \<open>The invariant of the library\<close>

definition library_inv :: "build \<Rightarrow> PowerModel \<Rightarrow> env \<Rightarrow> int \<Rightarrow> power_tutor \<Rightarrow> bool" where
  "library_inv b pm e t s \<longleftrightarrow> wifi_inv t (lib_wifi s) \<and> mobile_inv t (lib_mobile s)
     \<and> stats_inv t (lib_stats s) \<and> counters_ok b pm e (lib_mocked s)"

lemma counters_ok_none: "counters_ok b pm e (\<lambda>_. None) \<Longrightarrow> b \<noteq> Simulation_build \<Longrightarrow> counters_ok b pm e mocked"
  by (simp add: counters_ok_def)

lemma counters_ok_simulation [simp]: "counters_ok Simulation_build pm e (\<lambda>_. None)"
  by (simp add: counters_ok_def mocked_ok_def)

subsection \<open>Resets\<close>

lemma reset_variables_handset:
  assumes "steady e" "ANDROID b" "counters_ok b pm e (\<lambda>_. None)"
  shows "\<exists>s'. reset_variables b e s k = (s', k + 5)
    \<and> mobile_inv (tv_us (clock e (k + 5))) (lib_mobile s') \<and> wifi_inv (tv_us (clock e (k + 5))) (lib_wifi s')
    \<and> counters_ok b pm e (lib_mocked s') \<and> lib_cpu s' = lib_cpu s
    \<and> mobile_state (lib_mobile s') = MOBILE_POWER_STATE_IDLE \<and> wifi_unknown (lib_wifi s')
    \<and> last_wifi_observation (lib_wifi s') = clock e (k + 1)
    \<and> last_mobile_sample_time (lib_mobile s') = clock e (k + 3)
    \<and> mobile_last_bytes (lib_mobile s') = (\<lambda>_. - 1)
    \<and> mobile_last_delta_bytes (lib_mobile s') = (\<lambda>_. 0)
    \<and> (\<forall>st. idle_duration_update_counts (lib_mobile s') st = 1)
    \<and> lib_stats s' = \<lparr>stats_lock = stats_lock (lib_stats s), last_reset = clock e k, last_update = clock e k,
         energy_consumed_mJ = (\<lambda>_. 0), mobile_data_consumed_bytes = 0\<rparr>
    \<and> mobile_activity_callback s' = mobile_activity_callback s"
proof -
  note clk = stamp_ok_clock [OF assms(1)]
  have "(0 :: int) \<le> tv_us (clock e (k + 2))"
    using steady_valid [OF assms(1), of "k + 2"] by (simp add: valid_tv_def tv_us_def)
  then show ?thesis
    using assms(2) counters_ok_none [OF assms(3)] assms(3) clk
    by (auto simp: reset_variables_def Let_def mobile_inv_def ledger_ok_def norm_tv_def timerclear_def
        tracked_us_def tv_us_def wifi_inv_def wifi_unknown_def numeral_eq_Suc)
qed

lemma mobile_result_silent:
  assumes "mobile_result b pm e mocked m k m' j" "steady e" "mobile_state m = MOBILE_POWER_STATE_IDLE"
    and "silent_us e (last_mobile_sample_time m) k < 1000000"
  shows "mobile_state m' = MOBILE_POWER_STATE_IDLE" "mobile_last_bytes m' = mobile_last_bytes m"
    "mobile_last_delta_bytes m' = mobile_last_delta_bytes m \<or> mobile_last_delta_bytes m' = (\<lambda>_. 0)"
    "idle_duration_update_counts m' st \<le> idle_duration_update_counts m st + 1"
  using assms
  by (auto simp: mobile_result_def updated_from_def handset_next_def handset_mid_def mobile_event_def
      due_def Let_def split: if_splits prod.splits)

lemma wifi_result_early:
  assumes "wifi_result b pm e mocked w k w' i" "steady e" "wifi_inv (tv_us (clock e k)) w"
    and "silent_us e (last_wifi_observation w) k < 1000000" "counters_ok b pm e mocked"
  shows "w' = w"
proof -
  obtain rc bytes packets mocked' where
    r: "get_net_dev_stats b e k (wifi_iface pm) (\<lambda>_. 0) (\<lambda>_. 0) mocked = ((rc, bytes, packets), mocked')"
    by (metis surj_pair)
  show ?thesis
  proof (cases "rc = 0")
    case True
    then obtain fire fire' where "update_wifi_estimated_rates e (0, bytes, packets) fire w k = Ok (0, fire', w', i)"
      using assms(1) r by (auto simp: wifi_result_def)
    moreover have "counts_ok bytes" "small_counts packets"
      using read_counters(2) [OF assms(5) r True] read_wifi_packets [OF assms(5)] r True by simp_all
    ultimately show ?thesis
      using update_wifi_step [OF assms(2,3), of bytes packets 0 fire] assms(4) by auto
  next
    case False
    then show ?thesis using assms(1) r by (simp add: wifi_result_def)
  qed
qed

lemma reset_outcome:
  assumes "power_model pm" "ANDROID b" "steady e" "\<not> stats_lock (lib_stats s)"
    and "counters_ok b pm e (\<lambda>_. None)" "\<forall>i \<ge> k. cpu_files_ok pm e i (lib_cpu s)"
  shows "\<exists>j. k + 5 \<le> j \<and> j \<le> k + 12 \<and>
    (if tv_us (clock e j) - tv_us (clock e k) < 1000000
     then \<exists>s'. reset_stats b pm e s k = Ok (s', Suc j) \<and> library_inv b pm e (tv_us (clock e (Suc j))) s'
       \<and> lib_stats s' = stats_vars_init\<lparr>last_reset := clock e k, last_update := clock e k\<rparr>
       \<and> mobile_state (lib_mobile s') = MOBILE_POWER_STATE_IDLE \<and> wifi_unknown (lib_wifi s')
       \<and> mobile_last_bytes (lib_mobile s') = (\<lambda>_. - 1) \<and> mobile_last_delta_bytes (lib_mobile s') = (\<lambda>_. 0)
       \<and> (\<forall>st. idle_duration_update_counts (lib_mobile s') st \<le> 2) \<and> lib_cpu s' = lib_cpu s
       \<and> last_wifi_observation (lib_wifi s') = clock e (k + 1)
     else reset_stats b pm e s k = Fault Self_deadlock)"
proof -
  let ?s0 = "s\<lparr>lib_stats := (lib_stats s)\<lparr>stats_lock := True\<rparr>\<rparr>"
  obtain s1 where R: "reset_variables b e ?s0 k = (s1, k + 5)"
    "mobile_inv (tv_us (clock e (k + 5))) (lib_mobile s1)" "wifi_inv (tv_us (clock e (k + 5))) (lib_wifi s1)"
    "counters_ok b pm e (lib_mocked s1)" "lib_cpu s1 = lib_cpu s"
    "mobile_state (lib_mobile s1) = MOBILE_POWER_STATE_IDLE" "wifi_unknown (lib_wifi s1)"
    "last_wifi_observation (lib_wifi s1) = clock e (k + 1)"
    "last_mobile_sample_time (lib_mobile s1) = clock e (k + 3)"
    "mobile_last_bytes (lib_mobile s1) = (\<lambda>_. - 1)" "mobile_last_delta_bytes (lib_mobile s1) = (\<lambda>_. 0)"
    "\<forall>st. idle_duration_update_counts (lib_mobile s1) st = 1"
    "lib_stats s1 = \<lparr>stats_lock = True, last_reset = clock e k, last_update = clock e k,
         energy_consumed_mJ = (\<lambda>_. 0), mobile_data_consumed_bytes = 0\<rparr>"
    using reset_variables_handset [OF assms(3,2,5), of ?s0 k] by auto
  have counts: "\<forall>st. idle_duration_update_counts (lib_mobile s1) st < 2 ^ 31 - 1" using R(12) by simp
  from sample_networks_Ok [OF assms(1-3) R(3,2,4) counts] obtain w i m i' mocked mocked' calls j where
    S: "sample_networks b pm e s1 (k + 5)
        = Ok (s1\<lparr>lib_wifi := w, lib_mobile := m, lib_mocked := mocked', callback_calls := calls\<rparr>, j)"
      "k + 5 \<le> i" "i \<le> Suc (k + 5)" "i \<le> i'" "i' \<le> i + 5" "i' \<le> j" "j \<le> Suc i'"
      "wifi_inv (tv_us (clock e j)) w" "mobile_inv (tv_us (clock e j)) m"
      "counters_ok b pm e mocked" "counters_ok b pm e mocked'"
      "wifi_result b pm e (lib_mocked s1) (lib_wifi s1) (k + 5) w i"
      "mobile_result b pm e mocked (lib_mobile s1) i m i'" by blast
  let ?s2 = "s1\<lparr>lib_wifi := w, lib_mobile := m, lib_mocked := mocked', callback_calls := calls\<rparr>"
  have j: "k + 5 \<le> j" "j \<le> k + 12" using S(2-7) by linarith+
  have reset: "reset_stats b pm e s k = bind_r (update_consumption_stats b pm e ?s2 j)
      (\<lambda>(s, k). Ok (s\<lparr>lib_stats := release_stats_lock (lib_stats s)\<rparr>, k))"
    using assms(2,4) R(1) S(1) by (simp add: reset_stats_def acquire_stats_lock_def update_energy_stats_def)
  obtain d where d: "TIMEDIFF (clock e k) (clock e j) = Ok d" "valid_tv d"
    "tv_us d = tv_us (clock e j) - tv_us (clock e k)"
    using TIMEDIFF_Ok [OF steady_valid [OF assms(3)] steady_valid [OF assms(3)] steady_mono [OF assms(3)], of k j] j
    by auto
  have early: "tv_sec d \<le> 0 \<longleftrightarrow> tv_us d < 1000000" using d(2) by (auto simp: valid_tv_def tv_us_def)
  show ?thesis
  proof (cases "tv_us (clock e j) - tv_us (clock e k) < 1000000")
    case True
    have c: "update_consumption_stats b pm e ?s2 j = Ok (?s2, Suc j)"
      using d(1) early True d(3) R(13) by (simp add: update_consumption_stats_def)
    let ?s' = "?s2\<lparr>lib_stats := release_stats_lock (lib_stats ?s2)\<rparr>"
    have sil: "silent_us e (clock e a) a' < 1000000" if "k \<le> a" "a' \<le> j" for a a'
      using steady_mono [OF assms(3) that(1)] steady_mono [OF assms(3) that(2)] True by (simp add: silent_us_def)
    have wq: "w = lib_wifi s1"
      using wifi_result_early [OF S(12) assms(3) R(3) _ R(4)] sil [of "k + 1" "k + 5"] R(8) j(1) by simp
    have mq: "mobile_state m = MOBILE_POWER_STATE_IDLE" "mobile_last_bytes m = (\<lambda>_. - 1)"
      "mobile_last_delta_bytes m = (\<lambda>_. 0)" "idle_duration_update_counts m st \<le> 2" for st
      using mobile_result_silent [OF S(13) assms(3) R(6)] sil [of "k + 3" i] R(9-12) S(4,6) by fastforce+
    have up: "tv_us (clock e j) \<le> tv_us (clock e (Suc j))" using steady_mono [OF assms(3)] by simp
    have "library_inv b pm e (tv_us (clock e (Suc j))) ?s'"
      using wifi_inv_mono [OF S(8) up] mobile_inv_mono [OF S(9) up] S(11) R(13)
        stamp_ok_clock [OF assms(3), of k "Suc j"] j
      by (simp add: library_inv_def stats_inv_def release_stats_lock_def)
    then show ?thesis
      using True j reset c R(5,7,8,13) wq mq
      by (intro exI [of _ j]) (auto simp: release_stats_lock_def stats_vars_init_def)
  next
    case False
    let ?s3 = "?s2\<lparr>lib_stats := (lib_stats ?s2)\<lparr>last_update := clock e j\<rparr>\<rparr>"
    have "cpu_files_ok pm e (Suc j) (lib_cpu ?s3)" "rates_fit (lib_wifi ?s3)"
      using assms(6) R(5) wifi_inv_rates_fit [OF S(8)] j(1) by simp_all
    from consumption_this_second_Ok [OF assms(1,2) this(2,1)] obtain n cpu where
      "consumption_this_second b pm e ?s3 (Suc j) = Ok (n, ?s3\<lparr>lib_cpu := cpu\<rparr>)" by blast
    then have "update_consumption_stats b pm e ?s2 j = Fault Self_deadlock"
      using d(1,3) early False R(13) by (simp add: update_consumption_stats_def acquire_stats_lock_def Let_def)
    then show ?thesis using False j reset by (intro exI [of _ j]) simp
  qed
qed

subsection \<open>A cellular reading that fails\<close>

lemma failed_reading:
  assumes "power_model pm" "steady e" "library_inv Handset_build pm e (tv_us (clock e k)) s"
    and "\<forall>k. fst (get_net_dev_stats_from_proc MOBILE_IFACE (proc_net_dev e k) (\<lambda>_. 0) (\<lambda>_. 0)) \<noteq> 0"
    and "\<forall>st. idle_duration_update_counts (lib_mobile s) st < 2 ^ 31 - 1"
    and "\<forall>i. cpu_files_ok pm e i (lib_cpu s)" "stats_room s"
    and "1000000 \<le> tv_us (clock e k) - tv_us (last_update (lib_stats s))"
  shows "\<exists>s' j. update_energy_stats Handset_build pm e s k = Ok (s', j) \<and> lib_mobile s' = lib_mobile s
    \<and> mobile_data_consumed_bytes (lib_stats s')
        = mobile_data_consumed_bytes (lib_stats s) + new_bytes (lib_mobile s)"
proof -
  have A: "ANDROID Handset_build" by simp
  have I: "wifi_inv (tv_us (clock e k)) (lib_wifi s)" "mobile_inv (tv_us (clock e k)) (lib_mobile s)"
    "counters_ok Handset_build pm e (lib_mocked s)" "stats_inv (tv_us (clock e k)) (lib_stats s)"
    using assms(3) by (simp_all add: library_inv_def)
  from sample_networks_Ok [OF assms(1) A assms(2) I(1-3) assms(5)] obtain w i m i' mocked mocked' calls j where
    S: "sample_networks Handset_build pm e s k
        = Ok (s\<lparr>lib_wifi := w, lib_mobile := m, lib_mocked := mocked', callback_calls := calls\<rparr>, j)"
      "k \<le> i" "i \<le> i'" "i' \<le> j" "wifi_inv (tv_us (clock e j)) w"
      "mobile_result Handset_build pm e mocked (lib_mobile s) i m i'" by blast
  have m: "m = lib_mobile s"
    using S(6) spec [OF assms(4), of i]
    by (auto simp: mobile_result_def get_net_dev_stats_def split: prod.splits if_splits)
  let ?s2 = "s\<lparr>lib_wifi := w, lib_mobile := m, lib_mocked := mocked', callback_calls := calls\<rparr>"
  have kj: "k \<le> j" using S(2-4) by linarith
  note up = steady_mono [OF assms(2) kj]
  have pre: "rates_fit (lib_wifi ?s2)" "cpu_files_ok pm e (Suc j) (lib_cpu ?s2)"
    "stats_inv (tv_us (clock e j)) (lib_stats ?s2)" "stats_room ?s2"
    using wifi_inv_rates_fit [OF S(5)] assms(6,7) stats_inv_mono [OF I(4) up] m
    by (simp_all add: stats_room_def)
  from update_consumption_step [OF assms(1) A assms(2) pre] obtain s' where
    "update_consumption_stats Handset_build pm e ?s2 j = Ok (s', Suc j)"
    "if silent_us e (last_update (lib_stats ?s2)) j < 1000000 then s' = ?s2
     else \<exists>cpu_mJ n. charge_of pm ?s2 cpu_mJ n \<and> s' = charged ?s2 (clock e j)
       (snd (get_and_update_cpu_utilization (proc_stat e (Suc j)) (lib_cpu ?s2))) n"
    by blast
  then show ?thesis
    using S(1) up assms(8) m
    by (intro exI [of _ s'] exI [of _ "Suc j"]) (auto simp: update_energy_stats_def silent_us_def)
qed

subsection \<open>Properties\<close>




lemma counters_ok_ticking [simp]: "counters_ok Handset_build pm (ticking n) mocked"
proof -
  have "fst (get_net_dev_stats_from_proc iface (proc_net_dev (ticking n) k) x y) \<noteq> 0" for iface k x y
    by (simp add: ticking_def get_net_dev_stats_from_proc_def skip_line_def getline_def parse_lines.simps)
  then have "get_net_dev_stats_from_proc iface (proc_net_dev (ticking n) k) x y = (0, bytes, packets) \<Longrightarrow> P"
    for iface k x y bytes packets P by (metis fst_conv)
  moreover have "proc_ok (proc_net_dev (ticking n) k)" for k by (simp add: ticking_def proc_ok_def)
  ultimately show ?thesis by (auto simp: counters_ok_def)
qed


end
