(* ===== verification/Session.thy ===== *)
theory Session
  imports Update
begin

text \<open>
  The update thread of a handset over time. \<open>kernel_ok\<close> and \<open>ticks_ok\<close> say what the
  kernel's files hold; \<open>session_ok\<close> is the invariant that ties the variables to them: the last
  WiFi and cellular counters are those of an earlier reading, the CPU totals those of an earlier line,
  the bytes consumed are covered by the counters and the energy by the time since the reset.
  \<open>handset_step\<close> is one update, \<open>thread_run\<close> any number of them.
\<close>

subsection \<open>The kernel's files\<close>

text \<open>
  What a handset can rely on: the kernel prints both interfaces with counters that only grow, the
  WiFi interface sends at most 7 bytes per microsecond (a little more than the 54 Mbit/s of
  802.11g), the ticks of the CPU only grow, and the CPU runs at a frequency of the table. The
  file with the ticks may also be unreadable.
\<close>

definition bytes_at :: "string \<Rightarrow> env \<Rightarrow> nat \<Rightarrow> Direction \<Rightarrow> int" where
  "bytes_at iface e k = fst (snd (get_net_dev_stats_from_proc iface (proc_net_dev e k) (\<lambda>_. 0) (\<lambda>_. 0)))"

definition readable :: "string \<Rightarrow> env \<Rightarrow> bool" where
  "readable iface e \<longleftrightarrow> (\<forall>k. \<exists>bytes packets.
     get_net_dev_stats_from_proc iface (proc_net_dev e k) (\<lambda>_. 0) (\<lambda>_. 0) = (0, bytes, packets)
     \<and> small_counts bytes \<and> small_counts packets)"

definition kernel_ok :: "PowerModel \<Rightarrow> env \<Rightarrow> bool" where
  "kernel_ok pm e \<longleftrightarrow> steady e \<and> (\<forall>k. proc_ok (proc_net_dev e k))
     \<and> readable MOBILE_IFACE e \<and> readable (wifi_iface pm) e
     \<and> (\<forall>i j d. i \<le> j \<longrightarrow> bytes_at MOBILE_IFACE e i d \<le> bytes_at MOBILE_IFACE e j d)
     \<and> (\<forall>i j. i \<le> j \<longrightarrow> bytes_at (wifi_iface pm) e i UP \<le> bytes_at (wifi_iface pm) e j UP
         \<and> bytes_at (wifi_iface pm) e j UP - bytes_at (wifi_iface pm) e i UP
             \<le> 7 * (tv_us (clock e j) - tv_us (clock e i)))
     \<and> (\<forall>k. freq_file_ok pm (scaling_cur_freq e k))"

definition ticks_ok :: "env \<Rightarrow> (nat \<Rightarrow> nat list) \<Rightarrow> bool" where
  "ticks_ok e ticks \<longleftrightarrow> (\<forall>k. (proc_stat e k = None \<or> (\<exists>rest. proc_stat e k = Some (print_stat (ticks k) rest)))
     \<and> 7 \<le> length (ticks k) \<and> all_ticks (ticks k) < 2 ^ 53 \<and> (\<forall>j \<ge> k. ticks_grow (ticks k) (ticks j)))"

definition cpu_tracked :: "(nat \<Rightarrow> nat list) \<Rightarrow> nat \<Rightarrow> cpu_vars \<Rightarrow> bool" where
  "cpu_tracked ticks k c \<longleftrightarrow> cpu_at [0, 0, 0, 0, 0, 0, 0] c \<or> (\<exists>i \<le> k. cpu_at (ticks i) c)"

lemma cpu_tracked_step:
  assumes "ticks_ok e ticks" "cpu_tracked ticks k c" "k \<le> j" "freq_file_ok pm (scaling_cur_freq e j)"
  shows "cpu_files_ok pm e j c"
    and "cpu_tracked ticks j (snd (get_and_update_cpu_utilization (proc_stat e j) c))"
proof -
  have t: "7 \<le> length (ticks j)" "all_ticks (ticks j) < 2 ^ 53" "\<And>i. i \<le> j \<Longrightarrow> ticks_grow (ticks i) (ticks j)"
    using assms(1) by (auto simp: ticks_ok_def)
  obtain ms where ms: "cpu_at ms c" "ticks_grow ms (ticks j)"
  proof -
    have "ticks_grow [0, 0, 0, 0, 0, 0, 0] (ticks j)"
      by (auto simp: ticks_grow_def numeral_eq_Suc less_Suc_eq)
    then show ?thesis using that assms(2,3) t(3) by (auto simp: cpu_tracked_def intro: order_trans)
  qed
  have "cpu_files_ok pm e j c \<and> cpu_tracked ticks j (snd (get_and_update_cpu_utilization (proc_stat e j) c))"
  proof (cases "proc_stat e j")
    case None
    then show ?thesis
      using assms(2-4) by (auto simp: cpu_files_ok_def get_and_update_cpu_utilization_def cpu_tracked_def
          intro: order_trans)
  next
    case (Some f)
    then obtain rest where f: "f = print_stat (ticks j) rest"
      using spec [OF assms(1) [unfolded ticks_ok_def], of j] by auto
    then show ?thesis
      using utilization_Ok [OF t(1,2) ms, of rest] assms(4) Some
      by (auto simp: cpu_files_ok_def cpu_tracked_def)
  qed
  then show "cpu_files_ok pm e j c"
    "cpu_tracked ticks j (snd (get_and_update_cpu_utilization (proc_stat e j) c))" by auto
qed

lemma calc_rate_bounded:
  assumes "valid_tv dur" "1000000 \<le> tv_us dur" "0 \<le> a" "a \<le> c" "c < 2 ^ 31" "c - a \<le> 7 * tv_us dur"
    and "calc_rate a c (convert_to_seconds dur) = Ok r"
  shows "0 \<le> r" "r \<le> 14000000"
proof -
  obtain D where D: "convert_to_seconds dur = Fin D" using seconds_Fin [OF assms(1)] by auto
  have sec: "1 \<le> tv_sec dur" "tv_us dur < (tv_sec dur + 1) * 1000000" "tv_sec dur * 1000000 \<le> tv_us dur"
    "tv_sec dur < 2 ^ 40" using assms(1,2) by (auto simp: valid_tv_def tv_us_def)
  have D1: "1 \<le> D" using seconds_ge_iff [OF assms(1), of 1] D assms(2) by simp
  have "c - a \<le> 14000000 * tv_sec dur" using assms(6) sec(1,2) by (simp add: tv_us_def)
  then have "(of_int (c - a) :: rat) \<le> of_int (14000000 * tv_sec dur)" by (simp only: of_int_le_iff)
  moreover have "(of_int (tv_sec dur) :: rat) \<le> D"
  proof -
    have "Fin (of_int (tv_sec dur)) \<le> convert_to_seconds dur"
      using assms(1) sec(1,4) unfolding convert_to_seconds_def
      by (subst (1) d_of_int_Fin) (auto simp: valid_tv_def d_of_int_def intro!: d_plus_ge representable_of_int)
    then show ?thesis using D by simp
  qed
  ultimately have x: "0 \<le> of_int (c - a) / D" "of_int (c - a) / D \<le> 14000000"
    using D1 assms(4) by (simp_all add: divide_le_eq)
  then have "of_int 0 \<le> of_int (c - a) / D" "of_int (c - a) / D \<le> of_int 14000000" by simp_all
  from to_double_range [OF this] obtain y where
    y: "to_double (of_int (c - a) / D) = Fin y" "0 \<le> y" "y \<le> 14000000" by auto
  have "in_int (c - a)" "\<bar>c - a\<bar> < 2 ^ 53" using assms(3-5) by (auto simp: in_int_def)
  then have q: "calc_rate a c (Fin D) = d_to_int (Fin (of_int \<lceil>y\<rceil>))"
    using y(1) D1 by (simp add: calc_rate_def d_of_int_Fin del: d_to_int.simps)
  have c: "0 \<le> \<lceil>y\<rceil>" "\<lceil>y\<rceil> \<le> 14000000"
    using y(2,3) by (simp_all add: ceiling_le_iff less_ceiling_iff le_ceiling_iff)
  then have "d_to_int (Fin (of_int \<lceil>y\<rceil>)) = Ok \<lceil>y\<rceil>"
    by (simp add: d_trunc_def in_int_def)
  then have "r = \<lceil>y\<rceil>" using q assms(7) D by (simp del: d_to_int.simps)
  then show "0 \<le> r" "r \<le> 14000000" using c by simp_all
qed

definition wifi_tracked :: "PowerModel \<Rightarrow> env \<Rightarrow> nat \<Rightarrow> wifi_vars \<Rightarrow> bool" where
  "wifi_tracked pm e k w \<longleftrightarrow>
     (wifi_unknown w \<or> wifi_known w \<and> (\<exists>i \<le> k. wifi_last_bytes w = bytes_at (wifi_iface pm) e i
        \<and> last_wifi_observation w = clock e i))
     \<and> - 1 \<le> wifi_data_rates w UP \<and> wifi_data_rates w UP \<le> 15000000"

lemma wifi_tracked_mono: "wifi_tracked pm e k w \<Longrightarrow> k \<le> k' \<Longrightarrow> wifi_tracked pm e k' w"
  by (auto simp: wifi_tracked_def intro: order_trans)

lemma wifi_tracked_step:
  assumes "kernel_ok pm e" "wifi_inv (tv_us (clock e k)) w" "wifi_tracked pm e k w"
    and "wifi_result Handset_build pm e mocked w k w' i" "k \<le> i"
  shows "wifi_tracked pm e i w'"
proof -
  have st: "steady e" using assms(1) by (simp add: kernel_ok_def)
  obtain bytes packets where r: "get_net_dev_stats_from_proc (wifi_iface pm) (proc_net_dev e k) (\<lambda>_. 0) (\<lambda>_. 0)
      = (0, bytes, packets)" "small_counts bytes" "small_counts packets"
    using assms(1) unfolding kernel_ok_def readable_def by blast
  have b: "bytes = bytes_at (wifi_iface pm) e k" "counts_ok bytes" using r by (simp_all add: bytes_at_def small_counts_def)
  obtain fire fire' where u: "update_wifi_estimated_rates e (0, bytes, packets) fire w k = Ok (0, fire', w', i)"
    using assms(4) r(1) by (auto simp: wifi_result_def get_net_dev_stats_def)
  let ?us = "silent_us e (last_wifi_observation w) k"
  from update_wifi_step [OF st assms(2) b(2) r(3), of 0 fire] u have W:
    "?us < 1000000 \<longrightarrow> w' = w"
    "1000000 \<le> ?us \<longrightarrow> wifi_last_bytes w' = bytes \<and> wifi_last_packets w' = packets
        \<and> last_wifi_observation w' = clock e k
        \<and> (wifi_unknown w \<longrightarrow> wifi_data_rates w' = (\<lambda>_. - 1) \<and> wifi_packet_rates w' = (\<lambda>_. - 1))
        \<and> (wifi_known w \<longrightarrow> (\<exists>dur. valid_tv dur \<and> tv_us dur = ?us \<and> (\<forall>d.
            calc_rate (wifi_last_bytes w d) (bytes d) (convert_to_seconds dur) = Ok (wifi_data_rates w' d)
            \<and> calc_rate (wifi_last_packets w d) (packets d) (convert_to_seconds dur)
                = Ok (wifi_packet_rates w' d))))"
    "wifi_unknown w' \<or> wifi_known w'"
    by (auto simp: wifi_inv_def)
  show ?thesis
  proof (cases "?us < 1000000")
    case True
    then show ?thesis using W(1) wifi_tracked_mono [OF assms(3,5)] by simp
  next
    case False
    have k: "wifi_known w'" using W(2,3) False b(2) by (auto simp: wifi_unknown_def counts_ok_def)
    have "- 1 \<le> wifi_data_rates w' UP \<and> wifi_data_rates w' UP \<le> 15000000"
    proof (cases "wifi_unknown w")
      case True
      then show ?thesis using W(2) False by simp
    next
      case known: False
      then obtain l where l: "l \<le> k" "wifi_last_bytes w = bytes_at (wifi_iface pm) e l"
        "last_wifi_observation w = clock e l" "wifi_known w"
        using assms(3) by (auto simp: wifi_tracked_def)
      then obtain dur where dur: "valid_tv dur" "tv_us dur = ?us"
        "calc_rate (wifi_last_bytes w UP) (bytes UP) (convert_to_seconds dur) = Ok (wifi_data_rates w' UP)"
        using W(2) False by auto
      have "counts_ok (wifi_last_bytes w)" using l(4) by (simp add: wifi_known_def)
      then have "0 \<le> wifi_last_bytes w UP" "bytes UP < 2 ^ 31"
        using counts_okD [of "wifi_last_bytes w" UP] counts_okD [OF b(2), of UP] by auto
      moreover have "wifi_last_bytes w UP \<le> bytes UP" "bytes UP - wifi_last_bytes w UP \<le> 7 * tv_us dur"
        using assms(1) l(1) unfolding l(2,3) b(1) dur(2) silent_us_def kernel_ok_def by blast+
      ultimately have "0 \<le> wifi_data_rates w' UP" "wifi_data_rates w' UP \<le> 14000000"
        using calc_rate_bounded [OF dur(1) _ _ _ _ _ dur(3)] dur(2) False by simp_all
      then show ?thesis by simp
    qed
    then show ?thesis using k W(2) False b(1) assms(5) by (auto simp: wifi_tracked_def)
  qed
qed

text \<open>
  The bytes that are accounted never exceed the counters: \<open>bytes_budget\<close> holds between the
  sampling and the charge, \<open>mobile_tracked\<close> between two updates.
\<close>

definition bytes_budget :: "mobile_vars \<Rightarrow> int \<Rightarrow> bool" where
  "bytes_budget m consumed \<longleftrightarrow> 0 \<le> consumed \<and> 0 \<le> new_bytes m
     \<and> (if mobile_last_bytes m = (\<lambda>_. - 1) then mobile_last_delta_bytes m = (\<lambda>_. 0) \<and> consumed = 0
        else consumed + new_bytes m \<le> mobile_last_bytes m DOWN + mobile_last_bytes m UP)"

definition mobile_tracked :: "env \<Rightarrow> nat \<Rightarrow> mobile_vars \<Rightarrow> int \<Rightarrow> bool" where
  "mobile_tracked e k m consumed \<longleftrightarrow> 0 \<le> consumed
     \<and> (if mobile_last_bytes m = (\<lambda>_. - 1) then mobile_last_delta_bytes m = (\<lambda>_. 0) \<and> consumed = 0
        else (\<exists>i \<le> k. mobile_last_bytes m = bytes_at MOBILE_IFACE e i)
          \<and> consumed \<le> mobile_last_bytes m DOWN + mobile_last_bytes m UP)"

lemma bytes_at_ok:
  assumes "readable iface e"
  shows "counts_ok (bytes_at iface e k)" "bytes_at iface e k DOWN + bytes_at iface e k UP < 2 ^ 31"
proof -
  obtain b p where r: "get_net_dev_stats_from_proc iface (proc_net_dev e k) (\<lambda>_. 0) (\<lambda>_. 0) = (0, b, p)"
    "small_counts b" using assms unfolding readable_def by blast
  have "bytes_at iface e k = b" using r(1) by (simp add: bytes_at_def)
  then show "counts_ok (bytes_at iface e k)" "bytes_at iface e k DOWN + bytes_at iface e k UP < 2 ^ 31"
    using r(2) by (simp_all add: small_counts_def)
qed

lemma mobile_result_updated:
  assumes "kernel_ok pm e" "mobile_result Handset_build pm e mocked m k m' j"
  shows "updated_from pm e (bytes_at MOBILE_IFACE e k) m k m' j"
proof -
  obtain b p where r: "get_net_dev_stats_from_proc MOBILE_IFACE (proc_net_dev e k) (\<lambda>_. 0) (\<lambda>_. 0) = (0, b, p)"
    using assms(1) unfolding kernel_ok_def readable_def by blast
  then show ?thesis using assms(2) by (simp add: mobile_result_def get_net_dev_stats_def bytes_at_def)
qed

lemma mobile_tracked_step:
  assumes "kernel_ok pm e" "mobile_tracked e k m consumed" "k \<le> i"
    and "mobile_result Handset_build pm e mocked m i m' j" "i \<le> j"
  shows "bytes_budget m' consumed" "mobile_tracked e j m' (consumed + new_bytes m')"
    "mobile_tracked e j m' consumed" "idle_duration_update_counts m' st \<le> idle_duration_update_counts m st + 1"
proof -
  let ?b = "bytes_at MOBILE_IFACE e i"
  note u = mobile_result_updated [OF assms(1,4)]
  show "idle_duration_update_counts m' st \<le> idle_duration_update_counts m st + 1"
    using u by (simp add: updated_from_def Let_def)
  have b: "counts_ok ?b" using bytes_at_ok(1) assms(1) by (simp add: kernel_ok_def)
  have bs: "0 \<le> ?b DOWN" "0 \<le> ?b UP" using counts_okD [OF b] by auto
  have nu: "?b \<noteq> (\<lambda>_. - 1)"
  proof
    assume "?b = (\<lambda>_. - 1)"
    then have "?b DOWN = - 1" by simp
    then show False using bs(1) by simp
  qed
  have le: "mobile_last_bytes m d \<le> ?b d" if "mobile_last_bytes m \<noteq> (\<lambda>_. - 1)" for d
    using assms(1-3) that by (auto simp: mobile_tracked_def kernel_ok_def split: if_splits)
  have same: "mobile_last_bytes m' = mobile_last_bytes (handset_mid pm e ?b m i)"
    "mobile_last_delta_bytes m' = mobile_last_delta_bytes (handset_mid pm e ?b m i)"
    using u by (simp_all add: updated_from_def Let_def)
  have neg: "mobile_last_bytes m = (\<lambda>_. - 1) \<longleftrightarrow> mobile_last_bytes m DOWN = - 1"
  proof
    assume neg: "mobile_last_bytes m DOWN = - 1"
    show "mobile_last_bytes m = (\<lambda>_. - 1)"
    proof (rule ccontr)
      assume "mobile_last_bytes m \<noteq> (\<lambda>_. - 1)"
      then obtain l where "mobile_last_bytes m = bytes_at MOBILE_IFACE e l"
        using assms(2) by (auto simp: mobile_tracked_def)
      moreover have "0 \<le> bytes_at MOBILE_IFACE e l DOWN"
        using counts_okD [OF bytes_at_ok(1)] assms(1) by (simp add: kernel_ok_def)
      ultimately show False using neg by simp
    qed
  qed simp
  have "bytes_budget m' consumed \<and> (mobile_last_bytes m' = ?b
      \<or> mobile_last_bytes m' = mobile_last_bytes m)"
  proof (cases "due e ?b m i")
    case False
    then show ?thesis
      using assms(2) same
      by (auto simp: handset_mid_def mobile_event_def bytes_budget_def mobile_tracked_def new_bytes_def Let_def
          split: if_splits)
  next
    case True
    show ?thesis
    proof (cases "mobile_last_bytes m = (\<lambda>_. - 1)")
      case unknown: True
      then show ?thesis
        using True assms(2) same bs nu
        by (simp add: handset_mid_def mobile_event_def bytes_budget_def mobile_tracked_def new_bytes_def)
    next
      case False
      then have "\<not> mobile_last_bytes m DOWN = - 1" using neg by simp
      then show ?thesis
        using True False assms(2) same nu le [of DOWN] le [of UP]
        by (auto simp: handset_mid_def mobile_event_def bytes_budget_def mobile_tracked_def new_bytes_def
            bytes_since_def Let_def)
    qed
  qed
  then have B: "bytes_budget m' consumed"
    and L: "mobile_last_bytes m' = ?b \<or> mobile_last_bytes m' = mobile_last_bytes m" by auto
  have at: "\<exists>l \<le> j. mobile_last_bytes m' = bytes_at MOBILE_IFACE e l" if "mobile_last_bytes m' \<noteq> (\<lambda>_. - 1)"
  proof (cases "mobile_last_bytes m' = ?b")
    case True
    then show ?thesis using assms(5) by blast
  next
    case False
    with L that assms(2) obtain l where "l \<le> k" "mobile_last_bytes m' = bytes_at MOBILE_IFACE e l"
      by (auto simp: mobile_tracked_def)
    moreover from this have "l \<le> j" using assms(3,5) by linarith
    ultimately show ?thesis by blast
  qed
  have nb: "new_bytes m' = 0" if "mobile_last_delta_bytes m' = (\<lambda>_. 0)" using that by (simp add: new_bytes_def)
  show "bytes_budget m' consumed" by (rule B)
  show "mobile_tracked e j m' (consumed + new_bytes m')" "mobile_tracked e j m' consumed"
    using B at nb unfolding bytes_budget_def mobile_tracked_def by (cases "mobile_last_bytes m' = (\<lambda>_. - 1)"; force)+
qed

definition energy_tracked :: "stats_vars \<Rightarrow> bool" where
  "energy_tracked st \<longleftrightarrow> (\<forall>i. 0 \<le> energy_consumed_mJ st i
     \<and> energy_consumed_mJ st i * 1000000 \<le> 4600 * (tv_us (last_update st) - tv_us (last_reset st)))"

lemma charge_small:
  assumes "power_model pm" "charge_of pm s cpu n" "in_int (wifi_data_rates (lib_wifi s) UP)"
    and "- 1 \<le> wifi_data_rates (lib_wifi s) UP" "wifi_data_rates (lib_wifi s) UP \<le> 15000000"
  shows "0 \<le> n i \<and> n i \<le> 4600"
  using charge_of_range(2-5) [OF assms(1-3)] charge_of_total [OF assms(2)] assms(4,5)
  by (cases i) auto

lemma energy_tracked_charged:
  assumes "energy_tracked (lib_stats s)" "\<forall>i. 0 \<le> n i \<and> n i \<le> 4600"
    and "1000000 \<le> tv_us t - tv_us (last_update (lib_stats s))"
  shows "energy_tracked (lib_stats (charged s t cpu n))"
  unfolding energy_tracked_def charged_sel
proof
  fix i
  have "0 \<le> energy_consumed_mJ (lib_stats s) i" "0 \<le> n i" "n i \<le> 4600"
    "energy_consumed_mJ (lib_stats s) i * 1000000
       \<le> 4600 * (tv_us (last_update (lib_stats s)) - tv_us (last_reset (lib_stats s)))"
    using assms(1,2) by (simp_all add: energy_tracked_def)
  then show "0 \<le> energy_consumed_mJ (lib_stats s) i + n i
      \<and> (energy_consumed_mJ (lib_stats s) i + n i) * 1000000 \<le> 4600 * (tv_us t - tv_us (last_reset (lib_stats s)))"
    using assms(3) by (simp add: algebra_simps)
qed

text \<open>The state of a handset that has been running, with room for \<open>n\<close> more updates.\<close>

definition session_ok ::
  "PowerModel \<Rightarrow> env \<Rightarrow> (nat \<Rightarrow> nat list) \<Rightarrow> nat \<Rightarrow> nat \<Rightarrow> power_tutor \<Rightarrow> bool" where
  "session_ok pm e ticks n k s \<longleftrightarrow> library_inv Handset_build pm e (tv_us (clock e k)) s
     \<and> wifi_tracked pm e k (lib_wifi s)
     \<and> mobile_tracked e k (lib_mobile s) (mobile_data_consumed_bytes (lib_stats s))
     \<and> cpu_tracked ticks k (lib_cpu s) \<and> energy_tracked (lib_stats s)
     \<and> (\<forall>st. idle_duration_update_counts (lib_mobile s) st + int n < 2 ^ 31)"

text \<open>400000 seconds (four and a half days): the energy of that time fits an \<open>int\<close>.\<close>

definition within_session :: "env \<Rightarrow> stats_vars \<Rightarrow> bool" where
  "within_session e st \<longleftrightarrow> (\<forall>j. tv_us (clock e j) \<le> tv_us (last_reset st) + 400000 * 1000000)"

lemma mobile_tracked_mono: "mobile_tracked e k m c \<Longrightarrow> k \<le> k' \<Longrightarrow> mobile_tracked e k' m c"
  by (auto simp: mobile_tracked_def split: if_splits intro: order_trans)

lemma cpu_tracked_mono: "cpu_tracked ticks k c \<Longrightarrow> k \<le> k' \<Longrightarrow> cpu_tracked ticks k' c"
  by (auto simp: cpu_tracked_def intro: order_trans)

lemma session_room:
  assumes "kernel_ok pm e" "energy_tracked (lib_stats s)" "within_session e (lib_stats s)"
    and "stats_inv (tv_us (clock e j)) (lib_stats s)"
    and "bytes_budget (lib_mobile s) (mobile_data_consumed_bytes (lib_stats s))"
    and "mobile_tracked e j (lib_mobile s) c"
  shows "stats_room s"
proof -
  have "tv_us (last_update (lib_stats s)) \<le> tv_us (clock e j)"
    using assms(4) by (simp add: stats_inv_def stamp_ok_def)
  also have "\<dots> \<le> tv_us (last_reset (lib_stats s)) + 400000 * 1000000"
    using assms(3) by (simp add: within_session_def)
  finally have el: "tv_us (last_update (lib_stats s)) - tv_us (last_reset (lib_stats s)) \<le> 400000000000" by simp
  have E: "\<bar>energy_consumed_mJ (lib_stats s) i\<bar> + 2 ^ 19 < 2 ^ 31" for i
  proof -
    have "0 \<le> energy_consumed_mJ (lib_stats s) i" "energy_consumed_mJ (lib_stats s) i * 1000000
       \<le> 4600 * (tv_us (last_update (lib_stats s)) - tv_us (last_reset (lib_stats s)))"
      using assms(2) by (simp_all add: energy_tracked_def)
    with el show ?thesis by simp
  qed
  have B: "0 \<le> mobile_data_consumed_bytes (lib_stats s)" "0 \<le> new_bytes (lib_mobile s)"
    "mobile_data_consumed_bytes (lib_stats s) + new_bytes (lib_mobile s) < 2 ^ 31"
  proof -
    show "0 \<le> mobile_data_consumed_bytes (lib_stats s)" "0 \<le> new_bytes (lib_mobile s)"
      using assms(5) by (simp_all add: bytes_budget_def)
    show "mobile_data_consumed_bytes (lib_stats s) + new_bytes (lib_mobile s) < 2 ^ 31"
    proof (cases "mobile_last_bytes (lib_mobile s) = (\<lambda>_. - 1)")
      case True
      then show ?thesis using assms(5) by (simp add: bytes_budget_def new_bytes_def)
    next
      case False
      then obtain l where "mobile_last_bytes (lib_mobile s) = bytes_at MOBILE_IFACE e l"
        using assms(6) by (auto simp: mobile_tracked_def)
      moreover have "bytes_at MOBILE_IFACE e l DOWN + bytes_at MOBILE_IFACE e l UP < 2 ^ 31"
        using bytes_at_ok(2) assms(1) by (simp add: kernel_ok_def)
      ultimately show ?thesis using assms(5) False by (simp add: bytes_budget_def)
    qed
  qed
  show ?thesis using E B by (simp add: stats_room_def in_int_def)
qed

lemma handset_step:
  assumes "power_model pm" "kernel_ok pm e" "ticks_ok e ticks" "session_ok pm e ticks (Suc n) k s"
    and "within_session e (lib_stats s)"
  shows "\<exists>s' j. update_energy_stats Handset_build pm e s k = Ok (s', j) \<and> k < j
    \<and> session_ok pm e ticks n j s' \<and> last_reset (lib_stats s') = last_reset (lib_stats s)"
proof -
  let ?c = "mobile_data_consumed_bytes (lib_stats s)"
  have st: "steady e" using assms(2) by (simp add: kernel_ok_def)
  have I: "wifi_inv (tv_us (clock e k)) (lib_wifi s)" "mobile_inv (tv_us (clock e k)) (lib_mobile s)"
    "counters_ok Handset_build pm e (lib_mocked s)" "stats_inv (tv_us (clock e k)) (lib_stats s)"
    "wifi_tracked pm e k (lib_wifi s)" "mobile_tracked e k (lib_mobile s) ?c"
    "cpu_tracked ticks k (lib_cpu s)" "energy_tracked (lib_stats s)"
    "\<forall>st. idle_duration_update_counts (lib_mobile s) st + int (Suc n) < 2 ^ 31"
    using assms(4) unfolding session_ok_def library_inv_def by blast+
  have "idle_duration_update_counts (lib_mobile s) st < 2 ^ 31 - 1" for st
    using spec [OF I(9), of st] by simp
  then obtain w i m i' mocked mocked' calls j where
    S: "sample_networks Handset_build pm e s k
        = Ok (s\<lparr>lib_wifi := w, lib_mobile := m, lib_mocked := mocked', callback_calls := calls\<rparr>, j)"
      "k \<le> i" "i \<le> i'" "i' \<le> j"
      "wifi_inv (tv_us (clock e j)) w" "mobile_inv (tv_us (clock e j)) m"
      "counters_ok Handset_build pm e mocked'"
      "wifi_result Handset_build pm e (lib_mocked s) (lib_wifi s) k w i"
      "mobile_result Handset_build pm e mocked (lib_mobile s) i m i'"
    using sample_networks_Ok [OF assms(1) _ st I(1-3)] by auto
  let ?s2 = "s\<lparr>lib_wifi := w, lib_mobile := m, lib_mocked := mocked', callback_calls := calls\<rparr>"
  have kj: "k \<le> j" "i \<le> j" using S(2-4) by linarith+
  have W: "wifi_tracked pm e i w" using wifi_tracked_step [OF assms(2) I(1,5) S(8,2)] .
  note M = mobile_tracked_step [OF assms(2) I(6) S(2) S(9) S(3)]
  have up: "tv_us (clock e j) \<le> tv_us (clock e (Suc j))" "tv_us (clock e k) \<le> tv_us (clock e j)"
    using steady_mono [OF st] kj by simp_all
  note st_j = stats_inv_mono [OF I(4) up(2)]
  have room: "stats_room ?s2"
    using assms(2,5) I(8) st_j M(1) mobile_tracked_mono [OF M(3) S(4)]
    by (intro session_room [of pm e _ j ?c]) simp_all
  have freq: "freq_file_ok pm (scaling_cur_freq e (Suc j))" using assms(2) by (simp add: kernel_ok_def)
  note C = cpu_tracked_step [OF assms(3) I(7) le_SucI [OF kj(1)] freq]
  let ?cpu = "snd (get_and_update_cpu_utilization (proc_stat e (Suc j)) (lib_cpu s))"
  have pre: "rates_fit (lib_wifi ?s2)" "cpu_files_ok pm e (Suc j) (lib_cpu ?s2)"
    "stats_inv (tv_us (clock e j)) (lib_stats ?s2)"
    using wifi_inv_rates_fit [OF S(5)] C(1) st_j by simp_all
  have "ANDROID Handset_build" by simp
  from update_consumption_step [OF assms(1) this st pre room] obtain s' where
    U: "update_consumption_stats Handset_build pm e ?s2 j = Ok (s', Suc j)"
      "stats_inv (tv_us (clock e (Suc j))) (lib_stats s')"
      "if silent_us e (last_update (lib_stats ?s2)) j < 1000000 then s' = ?s2
       else \<exists>cpu_mJ n. charge_of pm ?s2 cpu_mJ n \<and> s' = charged ?s2 (clock e j)
         (snd (get_and_update_cpu_utilization (proc_stat e (Suc j)) (lib_cpu ?s2))) n"
    by blast
  have idle: "idle_duration_update_counts m st + int n < 2 ^ 31" for st
    using M(4) [of st] spec [OF I(9), of st] by simp
  have inv: "wifi_inv (tv_us (clock e (Suc j))) w" "mobile_inv (tv_us (clock e (Suc j))) m"
    "wifi_tracked pm e (Suc j) w" "mobile_tracked e (Suc j) m ?c" "mobile_tracked e (Suc j) m (?c + new_bytes m)"
    using wifi_inv_mono [OF S(5) up(1)] mobile_inv_mono [OF S(6) up(1)] wifi_tracked_mono [OF W]
      mobile_tracked_mono [OF M(3)] mobile_tracked_mono [OF M(2)] kj(2) S(4) by simp_all
  have run: "update_energy_stats Handset_build pm e s k = Ok (s', Suc j)"
    using S(1) U(1) by (simp add: update_energy_stats_def)
  have "session_ok pm e ticks n (Suc j) s' \<and> last_reset (lib_stats s') = last_reset (lib_stats s)"
  proof (cases "silent_us e (last_update (lib_stats s)) j < 1000000")
    case True
    then show ?thesis
      using U(2,3) inv idle S(7) I(8) cpu_tracked_mono [OF I(7)] kj(1)
      by (simp add: session_ok_def library_inv_def)
  next
    case False
    then obtain cpu_mJ n' where c: "charge_of pm ?s2 cpu_mJ n'" "s' = charged ?s2 (clock e j) ?cpu n'"
      using U(3) by auto
    have "0 \<le> n' i \<and> n' i \<le> 4600" for i
      using charge_small [OF assms(1) c(1)] W pre(1) by (simp add: wifi_tracked_def rates_fit_def)
    then have "energy_tracked (lib_stats s')"
      using energy_tracked_charged [of ?s2 n' "clock e j" ?cpu] I(8) False unfolding c(2) silent_us_def by simp
    then show ?thesis
      using U(2) inv idle S(7) C(2) by (simp add: session_ok_def library_inv_def c(2))
  qed
  then show ?thesis using run kj(1) by (intro exI [of _ s'] exI [of _ "Suc j"]) simp
qed

lemma thread_run:
  assumes "power_model pm" "kernel_ok pm e" "ticks_ok e ticks" "\<forall>tv \<in> set tvs. valid_tv tv"
    and "session_ok pm e ticks (length tvs + n) k s" "within_session e (lib_stats s)"
  shows "\<exists>waits s' j. NetworkStatsUpdateThread Handset_build pm e tvs s k = Ok (waits, s', j) \<and> k \<le> j
    \<and> map (\<lambda>w. ts_sec w * 1000000000 + ts_nsec w) waits = map (\<lambda>tv. tv_us tv * 1000 + 100000000) tvs
    \<and> session_ok pm e ticks n j s' \<and> last_reset (lib_stats s') = last_reset (lib_stats s)"
  using assms(4-6)
proof (induction tvs arbitrary: s k)
  case Nil
  then show ?case by simp
next
  case (Cons tv tvs)
  obtain s1 k1 where 1: "update_energy_stats Handset_build pm e s k = Ok (s1, k1)" "k < k1"
    "session_ok pm e ticks (length tvs + n) k1 s1" "last_reset (lib_stats s1) = last_reset (lib_stats s)"
    using handset_step [OF assms(1-3), of "length tvs + n" k s] Cons.prems by auto
  have w: "within_session e (lib_stats s1)" using Cons.prems(3) 1(4) by (simp add: within_session_def)
  obtain wait where wait: "abs_time tv \<lparr>ts_sec = 0, ts_nsec = 100000000\<rparr> = Ok wait"
    "ts_sec wait * 1000000000 + ts_nsec wait = tv_us tv * 1000 + 100000000"
    using abs_time_Ok [of tv "\<lparr>ts_sec = 0, ts_nsec = 100000000\<rparr>"] Cons.prems(1) by auto
  from Cons.IH [OF _ 1(3) w] Cons.prems(1) obtain waits s' j where
    "NetworkStatsUpdateThread Handset_build pm e tvs s1 k1 = Ok (waits, s', j)" "k1 \<le> j"
    "map (\<lambda>w. ts_sec w * 1000000000 + ts_nsec w) waits = map (\<lambda>tv. tv_us tv * 1000 + 100000000) tvs"
    "session_ok pm e ticks n j s'" "last_reset (lib_stats s') = last_reset (lib_stats s1)" by auto
  then show ?case using 1(1,2,4) wait by auto
qed


subsection \<open>After a reset\<close>

lemma kernel_counters: "kernel_ok pm e \<Longrightarrow> counters_ok Handset_build pm e mocked"
proof -
  assume k: "kernel_ok pm e"
  have "small_counts packets" if r: "get_net_dev_stats_from_proc (wifi_iface pm) (proc_net_dev e k) (\<lambda>_. 0) (\<lambda>_. 0)
      = (0, bytes, packets)" for k bytes packets
  proof -
    obtain b p where "get_net_dev_stats_from_proc (wifi_iface pm) (proc_net_dev e k) (\<lambda>_. 0) (\<lambda>_. 0) = (0, b, p)"
      "small_counts p" using k unfolding kernel_ok_def readable_def by blast
    then show ?thesis using r by simp
  qed
  then show ?thesis using k by (simp add: counters_ok_def kernel_ok_def)
qed

lemma session_after_reset:
  assumes "power_model pm" "kernel_ok pm e" "ticks_ok e ticks" "int n + 2 < 2 ^ 31"
    and "tv_us (clock e (k + 12)) - tv_us (clock e k) < 1000000"
    and "\<not> stats_lock (lib_stats s)" "cpu_tracked ticks k (lib_cpu s)"
  shows "\<exists>s' j. reset_stats Handset_build pm e s k = Ok (s', j) \<and> k < j \<and> session_ok pm e ticks n j s'
    \<and> last_reset (lib_stats s') = clock e k"
proof -
  have st: "steady e" and f: "\<And>i. freq_file_ok pm (scaling_cur_freq e i)"
    using assms(2) by (simp_all add: kernel_ok_def)
  have files: "\<forall>i \<ge> k. cpu_files_ok pm e i (lib_cpu s)"
    using cpu_tracked_step(1) [OF assms(3,7) _ f] by blast
  have A: "ANDROID Handset_build" by simp
  from reset_outcome [OF assms(1) A st assms(6) kernel_counters [OF assms(2)] files] obtain j where
    j: "k + 5 \<le> j" "j \<le> k + 12"
    and R: "if tv_us (clock e j) - tv_us (clock e k) < 1000000
     then \<exists>s'. reset_stats Handset_build pm e s k = Ok (s', Suc j)
       \<and> library_inv Handset_build pm e (tv_us (clock e (Suc j))) s'
       \<and> lib_stats s' = stats_vars_init\<lparr>last_reset := clock e k, last_update := clock e k\<rparr>
       \<and> mobile_state (lib_mobile s') = MOBILE_POWER_STATE_IDLE \<and> wifi_unknown (lib_wifi s')
       \<and> mobile_last_bytes (lib_mobile s') = (\<lambda>_. - 1) \<and> mobile_last_delta_bytes (lib_mobile s') = (\<lambda>_. 0)
       \<and> (\<forall>st. idle_duration_update_counts (lib_mobile s') st \<le> 2) \<and> lib_cpu s' = lib_cpu s
       \<and> last_wifi_observation (lib_wifi s') = clock e (k + 1)
     else reset_stats Handset_build pm e s k = Fault Self_deadlock" by blast
  have "tv_us (clock e j) - tv_us (clock e k) < 1000000" using steady_mono [OF st j(2)] assms(5) by simp
  with R obtain s' where s': "reset_stats Handset_build pm e s k = Ok (s', Suc j)"
    "library_inv Handset_build pm e (tv_us (clock e (Suc j))) s'"
    "lib_stats s' = stats_vars_init\<lparr>last_reset := clock e k, last_update := clock e k\<rparr>"
    "wifi_unknown (lib_wifi s')" "mobile_last_bytes (lib_mobile s') = (\<lambda>_. - 1)"
    "mobile_last_delta_bytes (lib_mobile s') = (\<lambda>_. 0)"
    "\<forall>st. idle_duration_update_counts (lib_mobile s') st \<le> 2" "lib_cpu s' = lib_cpu s" by auto
  have "idle_duration_update_counts (lib_mobile s') st + int n < 2 ^ 31" for st
    using spec [OF s'(7), of st] assms(4) by linarith
  moreover have "wifi_data_rates (lib_wifi s') UP = - 1" using s'(4) by (simp add: wifi_unknown_def)
  ultimately have "session_ok pm e ticks n (Suc j) s'"
    using s' j(1) cpu_tracked_mono [OF assms(7), of "Suc j"]
    by (simp add: session_ok_def wifi_tracked_def mobile_tracked_def energy_tracked_def stats_vars_init_def)
  then show ?thesis using s'(1,3) j(1) by (intro exI [of _ s'] exI [of _ "Suc j"]) simp
qed

end
