(* ===== verification/Locks.thy ===== *)
theory Locks
  imports Std_Map
begin

text \<open>
  The first part of \<^verbatim>\<open>pthread_util.h\<close>: the scoped lock and the map that is only touched
  under a lock.

  A mutex is a number, its address, and the state of all mutexes says which thread owns each. These
  are the mutexes of \<open>PTHREAD_MUTEX_INITIALIZER\<close>: locking one that is owned, also by the same
  thread, waits, and unlocking one of another thread is undefined behaviour. An operation that has to
  wait returns \<open>None\<close>; it is tried again in a later state.

  \<open>lock_step\<close> interleaves the scopes of any number of threads; \<open>locks_inv\<close> is its invariant.
\<close>

subsection \<open>Mutexes\<close>

type_synonym thread = nat

type_synonym mutexes = "nat \<Rightarrow> thread option"

definition pthread_mutex_lock :: "thread \<Rightarrow> nat \<Rightarrow> mutexes \<Rightarrow> (int \<times> mutexes) option" where
  "pthread_mutex_lock t m M = (case M m of None \<Rightarrow> Some (0, M(m := Some t)) | Some _ \<Rightarrow> None)"

definition pthread_mutex_unlock :: "thread \<Rightarrow> nat \<Rightarrow> mutexes \<Rightarrow> (int \<times> mutexes) result" where
  "pthread_mutex_unlock t m M =
     (if M m = Some t then Ok (0, M(m := None)) else Fault Not_owner)"

definition PTHREAD_ASSERT_SUCCESS :: "int \<Rightarrow> unit result" where
  "PTHREAD_ASSERT_SUCCESS rc = c_assert (rc = 0)"

subsection \<open>PthreadScopedLock\<close>

record PthreadScopedLock =
  mutex :: "nat option"

definition PthreadScopedLock_empty :: PthreadScopedLock where
  "PthreadScopedLock_empty = \<lparr>mutex = None\<rparr>"

definition PthreadScopedLock_acquire ::
  "thread \<Rightarrow> nat option \<Rightarrow> PthreadScopedLock \<Rightarrow> mutexes
   \<Rightarrow> (PthreadScopedLock \<times> mutexes) option result" where
  "PthreadScopedLock_acquire t mutex' l M =
     bind_r (c_assert (mutex l = None)) (\<lambda>_.
     case mutex' of
       None \<Rightarrow> Fault Assertion_failed
     | Some m \<Rightarrow>
         let l = l\<lparr>mutex := Some m\<rparr> in
         (case pthread_mutex_lock t m M of
            None \<Rightarrow> Ok None
          | Some (rc, M) \<Rightarrow> bind_r (PTHREAD_ASSERT_SUCCESS rc) (\<lambda>_. Ok (Some (l, M)))))"

definition PthreadScopedLock_new ::
  "thread \<Rightarrow> nat option \<Rightarrow> mutexes \<Rightarrow> (PthreadScopedLock \<times> mutexes) option result" where
  "PthreadScopedLock_new t mutex' M = PthreadScopedLock_acquire t mutex' \<lparr>mutex = None\<rparr> M"

definition PthreadScopedLock_release ::
  "thread \<Rightarrow> PthreadScopedLock \<Rightarrow> mutexes \<Rightarrow> (PthreadScopedLock \<times> mutexes) result" where
  "PthreadScopedLock_release t l M =
     (case mutex l of
        None \<Rightarrow> Fault Null_pointer
      | Some m \<Rightarrow>
          bind_r (pthread_mutex_unlock t m M) (\<lambda>(rc, M).
          bind_r (PTHREAD_ASSERT_SUCCESS rc) (\<lambda>_. Ok (l\<lparr>mutex := None\<rparr>, M))))"

definition PthreadScopedLock_delete :: "thread \<Rightarrow> PthreadScopedLock \<Rightarrow> mutexes \<Rightarrow> mutexes result" where
  "PthreadScopedLock_delete t l M =
     (if mutex l \<noteq> None then bind_r (PthreadScopedLock_release t l M) (\<lambda>(_, M). Ok M) else Ok M)"

lemmas scoped_lock_defs =
  PthreadScopedLock_new_def PthreadScopedLock_acquire_def PthreadScopedLock_release_def
  PthreadScopedLock_delete_def PthreadScopedLock_empty_def pthread_mutex_lock_def
  pthread_mutex_unlock_def PTHREAD_ASSERT_SUCCESS_def

lemma acquire_eq_Some:
  "PthreadScopedLock_acquire t (Some m) l M = Ok (Some (l', M')) \<longleftrightarrow>
     mutex l = None \<and> M m = None \<and> l' = l\<lparr>mutex := Some m\<rparr> \<and> M' = M(m := Some t)"
  by (auto simp: scoped_lock_defs res_simps split: option.splits)

lemma acquire_waits:
  "PthreadScopedLock_acquire t (Some m) l M = Ok None \<longleftrightarrow> mutex l = None \<and> M m \<noteq> None"
  by (auto simp: scoped_lock_defs res_simps split: option.splits)

lemma release_eq_Ok:
  "PthreadScopedLock_release t l M = Ok (l', M') \<longleftrightarrow>
     (\<exists>m. mutex l = Some m \<and> M m = Some t \<and> l' = l\<lparr>mutex := None\<rparr> \<and> M' = M(m := None))"
  by (auto simp: scoped_lock_defs res_simps split: option.splits if_splits)

lemma delete_eq_Ok:
  "PthreadScopedLock_delete t l M = Ok M' \<longleftrightarrow>
     (case mutex l of None \<Rightarrow> M' = M | Some m \<Rightarrow> M m = Some t \<and> M' = M(m := None))"
  by (auto simp: scoped_lock_defs res_simps split: option.splits if_splits)

subsection \<open>Threads with scopes\<close>

text \<open>
  Each thread has the scoped locks of its open scopes, the innermost first. It may open a scope with
  a lock or with an empty one, acquire or release any of its locks, and leave the innermost scope.
\<close>

record lock_state =
  owners :: mutexes
  scopes :: "thread \<Rightarrow> PthreadScopedLock list"

definition no_locks :: lock_state where
  "no_locks = \<lparr>owners = (\<lambda>_. None), scopes = (\<lambda>_. [])\<rparr>"

inductive lock_step :: "lock_state \<Rightarrow> lock_state \<Rightarrow> bool" where
  enter: "PthreadScopedLock_new t (Some m) (owners s) = Ok (Some (l, M)) \<Longrightarrow>
    lock_step s (s\<lparr>owners := M, scopes := (scopes s)(t := l # scopes s t)\<rparr>)"
| enter_empty:
    "lock_step s (s\<lparr>scopes := (scopes s)(t := PthreadScopedLock_empty # scopes s t)\<rparr>)"
| acquire: "scopes s t = outer @ l # inner \<Longrightarrow>
    PthreadScopedLock_acquire t (Some m) l (owners s) = Ok (Some (l', M)) \<Longrightarrow>
    lock_step s (s\<lparr>owners := M, scopes := (scopes s)(t := outer @ l' # inner)\<rparr>)"
| release: "scopes s t = outer @ l # inner \<Longrightarrow>
    PthreadScopedLock_release t l (owners s) = Ok (l', M) \<Longrightarrow>
    lock_step s (s\<lparr>owners := M, scopes := (scopes s)(t := outer @ l' # inner)\<rparr>)"
| leave: "scopes s t = l # outer \<Longrightarrow> PthreadScopedLock_delete t l (owners s) = Ok M \<Longrightarrow>
    lock_step s (s\<lparr>owners := M, scopes := (scopes s)(t := outer)\<rparr>)"

fun held :: "PthreadScopedLock list \<Rightarrow> nat list" where
  "held [] = []"
| "held (l # ls) = (case mutex l of None \<Rightarrow> held ls | Some m \<Rightarrow> m # held ls)"

lemma held_append [simp]: "held (xs @ ys) = held xs @ held ys"
  by (induction xs) (auto split: option.splits)

definition locks_inv :: "lock_state \<Rightarrow> bool" where
  "locks_inv s \<longleftrightarrow> (\<forall>t. distinct (held (scopes s t))
     \<and> (\<forall>m. m \<in> set (held (scopes s t)) \<longleftrightarrow> owners s m = Some t))"

lemma locks_inv_start: "locks_inv no_locks"
  by (simp add: locks_inv_def no_locks_def)

lemma locks_inv_update:
  assumes "locks_inv s" "distinct (held ls)" "\<And>m. m \<in> set (held ls) \<longleftrightarrow> M m = Some t"
    and "\<And>m u. u \<noteq> t \<Longrightarrow> M m = Some u \<longleftrightarrow> owners s m = Some u"
  shows "locks_inv (s\<lparr>owners := M, scopes := (scopes s)(t := ls)\<rparr>)"
  using assms by (simp add: locks_inv_def)

lemma locks_inv_step: "lock_step s s' \<Longrightarrow> locks_inv s \<Longrightarrow> locks_inv s'"
proof (induction rule: lock_step.induct)
  case (enter t m s l M)
  then have own: "distinct (held (scopes s t))" "\<And>m. owners s m = Some t \<longleftrightarrow> m \<in> set (held (scopes s t))"
    by (simp_all add: locks_inv_def)
  show ?case
    using enter own(2) [of m] by (intro locks_inv_update) (auto simp: PthreadScopedLock_new_def acquire_eq_Some own)
next
  case (enter_empty s t)
  then show ?case by (simp add: locks_inv_def PthreadScopedLock_empty_def)
next
  case (acquire s t outer l inner m l' M)
  then have own: "distinct (held (outer @ l # inner))"
    "\<And>m. owners s m = Some t \<longleftrightarrow> m \<in> set (held (outer @ l # inner))"
    by (metis locks_inv_def)+
  show ?case
    using acquire own(1) own(2) [of m] by (intro locks_inv_update) (auto simp: acquire_eq_Some own(2))
next
  case (release s t outer l inner l' M)
  then have own: "distinct (held (outer @ l # inner))"
    "\<And>m. owners s m = Some t \<longleftrightarrow> m \<in> set (held (outer @ l # inner))"
    by (metis locks_inv_def)+
  obtain m where m: "mutex l = Some m" "owners s m = Some t" "l' = l\<lparr>mutex := None\<rparr>" "M = (owners s)(m := None)"
    using release.hyps(2) by (auto simp: release_eq_Ok)
  show ?case
    unfolding m(3,4) using release.prems own(1) m(1)
    by (intro locks_inv_update) (auto simp: m(2) own(2) split: if_splits)
next
  case (leave s t l outer M)
  then have own: "distinct (held (l # outer))" "\<And>m. owners s m = Some t \<longleftrightarrow> m \<in> set (held (l # outer))"
    by (metis locks_inv_def)+
  show ?case
  proof (cases "mutex l")
    case None
    then show ?thesis
      using leave own(1) by (intro locks_inv_update) (auto simp: delete_eq_Ok own(2))
  next
    case (Some m)
    then have m: "owners s m = Some t" "M = (owners s)(m := None)"
      using leave.hyps(2) by (simp_all add: delete_eq_Ok)
    show ?thesis
      unfolding m(2) using leave.prems own(1) Some
      by (intro locks_inv_update) (auto simp: m(1) own(2) split: if_splits)
  qed
qed

lemma locks_inv_reachable: "lock_step\<^sup>*\<^sup>* no_locks s \<Longrightarrow> locks_inv s"
  by (induction rule: rtranclp_induct) (auto intro: locks_inv_start locks_inv_step)


subsection \<open>LockWrappedMap\<close>

text \<open>The scope of a lock: the body runs between the constructor and the destructor.\<close>

definition with_lock ::
  "thread \<Rightarrow> nat \<Rightarrow> ('s \<Rightarrow> 'r \<times> 's) \<Rightarrow> 's \<Rightarrow> mutexes \<Rightarrow> ('r \<times> 's \<times> mutexes) option result" where
  "with_lock t m body s M =
     bind_r (PthreadScopedLock_new t (Some m) M) (\<lambda>lock.
     case lock of
       None \<Rightarrow> Ok None
     | Some (l, M) \<Rightarrow>
         (case body s of (r, s) \<Rightarrow>
          bind_r (PthreadScopedLock_delete t l M) (\<lambda>M. Ok (Some (r, s, M)))))"

record ('k, 'v) LockWrappedMap =
  the_map :: "('k, 'v) std_map"
  membership_lock :: nat

definition LockWrappedMap_new :: "nat \<Rightarrow> ('k, 'v) LockWrappedMap" where
  "LockWrappedMap_new m = \<lparr>the_map = [], membership_lock = m\<rparr>"

definition LockWrappedMap_insert ::
  "thread \<Rightarrow> 'k::linorder \<Rightarrow> 'v \<Rightarrow> ('k, 'v) LockWrappedMap \<Rightarrow> mutexes
   \<Rightarrow> (bool \<times> ('k, 'v) LockWrappedMap \<times> mutexes) option result" where
  "LockWrappedMap_insert t key val w M =
     with_lock t (membership_lock w) (\<lambda>w.
       case map_insert key val (the_map w) of (inserted, m) \<Rightarrow> (inserted, w\<lparr>the_map := m\<rparr>)) w M"

text \<open>The second result is \<open>val\<close>, which keeps its value when the key is absent.\<close>

definition LockWrappedMap_find ::
  "thread \<Rightarrow> 'k::linorder \<Rightarrow> 'v \<Rightarrow> ('k, 'v) LockWrappedMap \<Rightarrow> mutexes
   \<Rightarrow> ((bool \<times> 'v) \<times> ('k, 'v) LockWrappedMap \<times> mutexes) option result" where
  "LockWrappedMap_find t key val w M =
     with_lock t (membership_lock w) (\<lambda>w.
       case map_find (the_map w) key of
         Some v \<Rightarrow> ((True, v), w)
       | None \<Rightarrow> ((False, val), w)) w M"

definition LockWrappedMap_erase ::
  "thread \<Rightarrow> 'k::linorder \<Rightarrow> ('k, 'v) LockWrappedMap \<Rightarrow> mutexes
   \<Rightarrow> (bool \<times> ('k, 'v) LockWrappedMap \<times> mutexes) option result" where
  "LockWrappedMap_erase t key w M =
     with_lock t (membership_lock w) (\<lambda>w.
       case map_erase_key key (the_map w) of (n, m) \<Rightarrow> (n = 1, w\<lparr>the_map := m\<rparr>)) w M"

lemma with_lock_free: "M m = None \<Longrightarrow> with_lock t m body s M = Ok (Some (fst (body s), snd (body s), M))"
  by (auto simp: with_lock_def scoped_lock_defs split_def fun_upd_idem)

lemma with_lock_taken: "M m \<noteq> None \<Longrightarrow> with_lock t m body s M = Ok None"
  by (auto simp: with_lock_def scoped_lock_defs)

text \<open>A call by some thread, and what it returns.\<close>

datatype ('k, 'v) map_call = Insert 'k 'v | Find 'k 'v | Erase 'k

datatype 'v map_reply = Changed bool | Found bool 'v

fun map_call_step ::
  "thread \<Rightarrow> ('k::linorder, 'v) map_call \<Rightarrow> ('k, 'v) LockWrappedMap \<Rightarrow> mutexes
   \<Rightarrow> ('v map_reply \<times> ('k, 'v) LockWrappedMap \<times> mutexes) option result" where
  "map_call_step t (Insert key val) w M =
     bind_r (LockWrappedMap_insert t key val w M) (\<lambda>r. Ok (map_option (apfst Changed) r))"
| "map_call_step t (Find key val) w M =
     bind_r (LockWrappedMap_find t key val w M) (\<lambda>r. Ok (map_option (apfst (case_prod Found)) r))"
| "map_call_step t (Erase key) w M =
     bind_r (LockWrappedMap_erase t key w M) (\<lambda>r. Ok (map_option (apfst Changed) r))"

text \<open>The specification: the same calls on a finite map.\<close>

fun abstract_call :: "('k, 'v) map_call \<Rightarrow> ('k \<rightharpoonup> 'v) \<Rightarrow> 'v map_reply \<times> ('k \<rightharpoonup> 'v)" where
  "abstract_call (Insert key val) m =
     (if m key = None then (Changed True, m(key \<mapsto> val)) else (Changed False, m))"
| "abstract_call (Find key val) m =
     (case m key of Some v \<Rightarrow> (Found True v, m) | None \<Rightarrow> (Found False val, m))"
| "abstract_call (Erase key) m = (Changed (m key \<noteq> None), m(key := None))"

lemma map_call_refines:
  assumes "map_ok (the_map w)" "M (membership_lock w) = None"
  shows "\<exists>r w'. map_call_step t c w M = Ok (Some (r, w', M)) \<and> membership_lock w' = membership_lock w
    \<and> map_ok (the_map w') \<and> abstract_call c (map_find (the_map w)) = (r, map_find (the_map w'))"
proof (cases c)
  case (Insert key val)
  then show ?thesis
    using assms om.ok_put [OF assms(1)] om.look_put [OF assms(1)]
    by (cases "map_find (the_map w) key")
       (auto simp: LockWrappedMap_insert_def with_lock_free map_insert_def)
next
  case (Find key val)
  then show ?thesis
    using assms
    by (cases "map_find (the_map w) key") (auto simp: LockWrappedMap_find_def with_lock_free)
next
  case (Erase key)
  then show ?thesis
    using assms om.ok_del [OF assms(1)] om.look_del [OF assms(1)]
    by (cases "map_find (the_map w) key")
       (auto simp: LockWrappedMap_erase_def with_lock_free map_erase_key_def fun_upd_idem)
qed

text \<open>A sequence of calls by any threads; it stops with \<open>None\<close> at a call that has to wait.\<close>

fun map_calls ::
  "(thread \<times> ('k::linorder, 'v) map_call) list \<Rightarrow> ('k, 'v) LockWrappedMap \<Rightarrow> mutexes
   \<Rightarrow> ('v map_reply list \<times> ('k, 'v) LockWrappedMap \<times> mutexes) option result" where
  "map_calls [] w M = Ok (Some ([], w, M))"
| "map_calls ((t, c) # cs) w M =
     bind_r (map_call_step t c w M) (\<lambda>r.
     case r of
       None \<Rightarrow> Ok None
     | Some (reply, w, M) \<Rightarrow>
         bind_r (map_calls cs w M) (\<lambda>rs. Ok (map_option (apfst (Cons reply)) rs)))"

fun abstract_calls :: "('k, 'v) map_call list \<Rightarrow> ('k \<rightharpoonup> 'v) \<Rightarrow> 'v map_reply list \<times> ('k \<rightharpoonup> 'v)" where
  "abstract_calls [] m = ([], m)"
| "abstract_calls (c # cs) m =
     (case abstract_call c m of (r, m) \<Rightarrow> case abstract_calls cs m of (rs, m) \<Rightarrow> (r # rs, m))"

subsection \<open>Properties\<close>

text \<open>
  C24: in every interleaving of scoped locks, entered, acquired, released and
  left in any order by any threads, no two live locks hold the same mutex, neither in one thread nor
  in two; a thread outside every scope owns no mutex; and leaving a scope never fails and frees
  what its lock held.
\<close>

theorem scoped_locks_exclude:
  assumes "lock_step\<^sup>*\<^sup>* no_locks s"
  shows "distinct (held (scopes s t)) \<and> (t \<noteq> u \<longrightarrow> set (held (scopes s t)) \<inter> set (held (scopes s u)) = {})
    \<and> (scopes s t = [] \<longrightarrow> (\<forall>m. owners s m \<noteq> Some t))
    \<and> (\<forall>l outer. scopes s t = l # outer \<longrightarrow> (\<exists>M. PthreadScopedLock_delete t l (owners s) = Ok M
        \<and> (\<forall>m. mutex l = Some m \<longrightarrow> M m = None)))"
proof -
  have inv: "distinct (held (scopes s v))" "m \<in> set (held (scopes s v)) \<longleftrightarrow> owners s m = Some v" for v m
    using locks_inv_reachable [OF assms] by (auto simp: locks_inv_def)
  have "\<exists>M. PthreadScopedLock_delete t l (owners s) = Ok M \<and> (\<forall>m. mutex l = Some m \<longrightarrow> M m = None)"
    if "scopes s t = l # outer" for l outer
  proof (cases "mutex l")
    case (Some m)
    then have "owners s m = Some t" using inv(2) [of m t] that by simp
    then show ?thesis using Some by (auto simp: delete_eq_Ok)
  qed (auto simp: delete_eq_Ok)
  moreover have "set (held (scopes s t)) \<inter> set (held (scopes s u)) = {}" if "t \<noteq> u"
    using that by (auto simp: inv(2))
  moreover have "owners s m \<noteq> Some t" if "scopes s t = []" for m
    using inv(2) [of m t] that by simp
  ultimately show ?thesis using inv(1) by blast
qed

lemma scoped_locks_exclude_witness:
  "\<exists>s. lock_step\<^sup>*\<^sup>* no_locks s \<and> scopes s 1 = [\<lparr>mutex = Some 7\<rparr>] \<and> set (held (scopes s 1)) \<inter> set (held (scopes s 2)) = {}
    \<and> owners s 7 = Some 1"
proof -
  let ?s = "no_locks\<lparr>owners := (\<lambda>_. None)(7 \<mapsto> 1), scopes := (\<lambda>_. [])(1 := [\<lparr>mutex = Some 7\<rparr>])\<rparr>"
  have "PthreadScopedLock_new 1 (Some 7) (owners no_locks) = Ok (Some (\<lparr>mutex = Some 7\<rparr>, (\<lambda>_. None)(7 \<mapsto> 1)))"
    by (simp add: scoped_lock_defs no_locks_def)
  from lock_step.enter [OF this] have "lock_step\<^sup>*\<^sup>* no_locks ?s" by (simp add: no_locks_def)
  from this scoped_locks_exclude [OF this, of 1 2] show ?thesis by (intro exI [of _ ?s]) simp
qed

text \<open>
  C25: any sequence of calls on a \<open>LockWrappedMap\<close> whose lock is free
  returns without a fault and without waiting, with the replies of the same calls on a finite map:
  inserting keeps the value of a key that is present and says so, a search leaves its output alone when
  the key is absent, erasing says whether the key was there. The lock is free afterwards; while
  another scope has it, a call waits.
\<close>

theorem locked_map_refines:
  assumes "map_ok (the_map w)"
  shows "if M (membership_lock w) = None
    then \<exists>replies w'. map_calls cs w M = Ok (Some (replies, w', M)) \<and> map_ok (the_map w')
      \<and> abstract_calls (map snd cs) (map_find (the_map w)) = (replies, map_find (the_map w'))
    else map_call_step t c w M = Ok None"
proof -
  have "\<exists>replies w'. map_calls cs w M = Ok (Some (replies, w', M)) \<and> map_ok (the_map w')
      \<and> abstract_calls (map snd cs) (map_find (the_map w)) = (replies, map_find (the_map w'))"
    if "M (membership_lock w) = None"
    using that assms
  proof (induction cs arbitrary: w)
    case (Cons tc cs)
    obtain t c where tc: "tc = (t, c)" by (cases tc)
    from map_call_refines [where t = t and c = c and M = M, OF Cons.prems(2,1)] obtain r w1 where
      1: "map_call_step t c w M = Ok (Some (r, w1, M))" "membership_lock w1 = membership_lock w" "map_ok (the_map w1)"
        "abstract_call c (map_find (the_map w)) = (r, map_find (the_map w1))" by blast
    from Cons.IH [of w1] Cons.prems(1) 1(2,3) obtain rs w2 where
      "map_calls cs w1 M = Ok (Some (rs, w2, M))" "map_ok (the_map w2)"
      "abstract_calls (map snd cs) (map_find (the_map w1)) = (rs, map_find (the_map w2))" by auto
    with 1 tc show ?case by auto
  qed simp
  moreover have "map_call_step t c w M = Ok None" if "M (membership_lock w) \<noteq> None"
    using that
    by (cases c) (simp_all add: LockWrappedMap_insert_def LockWrappedMap_find_def LockWrappedMap_erase_def
      with_lock_taken)
  ultimately show ?thesis by simp
qed

lemma locked_map_refines_witness:
  "\<exists>w'. map_calls [(1, Insert (3 :: int) ''a''), (2, Insert 3 ''b''), (1, Find 3 []), (2, Erase 3), (2, Find 3 ''z'')]
      (LockWrappedMap_new 0) (\<lambda>_. None)
    = Ok (Some ([Changed True, Changed False, Found True ''a'', Changed True, Found False ''z''], w', \<lambda>_. None))"
  using locked_map_refines [of "LockWrappedMap_new 0" "\<lambda>_. None"
      "[(1, Insert (3 :: int) ''a''), (2, Insert 3 ''b''), (1, Find 3 []), (2, Erase 3), (2, Find 3 ''z'')]"]
  by (auto simp: map_find_def LockWrappedMap_new_def)

end
