(* ===== verification/Threads.thy ===== *)
theory Threads
  imports Session Locks
begin

text \<open>
  The update thread and \<open>libpowertutor_fin\<close> side by side: both take \<open>update_thread_lock\<close>,
  the thread waits on a condition variable that the destructor signals, and \<open>running\<close> tells the
  thread to stop. (In a simulation there is no thread and the destructor does nothing.) An interleaving is a list of actions; \<open>shutdown_inv\<close> is the invariant.

  The sequential \<open>NetworkStatsUpdateThread\<close> of \<open>Update\<close> is the specification: whatever the
  interleaving, what has happened to the library is one of its runs.
\<close>

subsection \<open>The two threads\<close>

text \<open>
  Points of \<open>NetworkStatsUpdateThread\<close> and of \<open>libpowertutor_fin\<close>. \<open>Thread_woken\<close> is the end of
  \<open>pthread_cond_timedwait\<close>, which takes the lock again.
\<close>

datatype thread_point =
    Thread_enter | Thread_test | Thread_update | Thread_waiting | Thread_woken | Thread_leave | Thread_returned

datatype fin_point = Fin_not_called | Fin_enter | Fin_stop | Fin_signal | Fin_leave | Fin_returned

datatype holder = Update_thread | Finalizer

record shutdown =
  library_vars :: power_tutor
  position :: nat
  wait_times :: "timespec list"
  running :: bool
  update_thread_lock :: "holder option"
  thread_at :: thread_point
  fin_at :: fin_point

definition thread_created :: "power_tutor \<Rightarrow> nat \<Rightarrow> shutdown" where
  "thread_created s k =
     \<lparr>library_vars = s, position = k, wait_times = [], running = True, update_thread_lock = None,
      thread_at = Thread_enter, fin_at = Fin_not_called\<rparr>"

text \<open>
  A step of the update thread; a step that has to wait leaves everything as it is. The time is the one
  \<open>gettimeofday\<close> returns to \<open>abs_time\<close>.
\<close>

definition NetworkStatsUpdateThread_step ::
  "build \<Rightarrow> PowerModel \<Rightarrow> env \<Rightarrow> timeval \<Rightarrow> shutdown \<Rightarrow> shutdown result" where
  "NetworkStatsUpdateThread_step b pm e tv x = (case thread_at x of
     Thread_enter \<Rightarrow>
       Ok (if update_thread_lock x = None
           then x\<lparr>update_thread_lock := Some Update_thread, thread_at := Thread_test\<rparr> else x)
   | Thread_test \<Rightarrow> Ok (x\<lparr>thread_at := if running x then Thread_update else Thread_leave\<rparr>)
   | Thread_update \<Rightarrow>
       bind_r (update_energy_stats b pm e (library_vars x) (position x)) (\<lambda>(s, k).
       bind_r (abs_time tv \<lparr>ts_sec = 0, ts_nsec = 100 * 1000 * 1000\<rparr>) (\<lambda>wait_time.
       Ok (x\<lparr>library_vars := s, position := k, wait_times := wait_times x @ [wait_time],
             update_thread_lock := None, thread_at := Thread_waiting\<rparr>)))
   | Thread_waiting \<Rightarrow> Ok x
   | Thread_woken \<Rightarrow>
       Ok (if update_thread_lock x = None
           then x\<lparr>update_thread_lock := Some Update_thread, thread_at := Thread_test\<rparr> else x)
   | Thread_leave \<Rightarrow> Ok (x\<lparr>update_thread_lock := None, thread_at := Thread_returned\<rparr>)
   | Thread_returned \<Rightarrow> Ok x)"

definition libpowertutor_fin :: "shutdown \<Rightarrow> shutdown" where
  "libpowertutor_fin x = (case fin_at x of
     Fin_not_called \<Rightarrow> x\<lparr>fin_at := Fin_enter\<rparr>
   | Fin_enter \<Rightarrow>
       (if update_thread_lock x = None
        then x\<lparr>update_thread_lock := Some Finalizer, fin_at := Fin_stop\<rparr> else x)
   | Fin_stop \<Rightarrow> x\<lparr>running := False, fin_at := Fin_signal\<rparr>
   | Fin_signal \<Rightarrow>
       x\<lparr>thread_at := if thread_at x = Thread_waiting then Thread_woken else thread_at x,
         fin_at := Fin_leave\<rparr>
   | Fin_leave \<Rightarrow> x\<lparr>update_thread_lock := None, fin_at := Fin_returned\<rparr>
   | Fin_returned \<Rightarrow> x)"

text \<open>The wait also ends at its deadline.\<close>

definition deadline_passes :: "shutdown \<Rightarrow> shutdown" where
  "deadline_passes x = (if thread_at x = Thread_waiting then x\<lparr>thread_at := Thread_woken\<rparr> else x)"

datatype shutdown_action = Thread_runs timeval | Fin_runs | Deadline

fun shutdown_act :: "build \<Rightarrow> PowerModel \<Rightarrow> env \<Rightarrow> shutdown_action \<Rightarrow> shutdown \<Rightarrow> shutdown result" where
  "shutdown_act b pm e (Thread_runs tv) x = NetworkStatsUpdateThread_step b pm e tv x"
| "shutdown_act b pm e Fin_runs x = Ok (libpowertutor_fin x)"
| "shutdown_act b pm e Deadline x = Ok (deadline_passes x)"

fun shutdown_schedule ::
  "build \<Rightarrow> PowerModel \<Rightarrow> env \<Rightarrow> shutdown_action list \<Rightarrow> shutdown \<Rightarrow> shutdown result" where
  "shutdown_schedule b pm e [] x = Ok x"
| "shutdown_schedule b pm e (a # as) x = bind_r (shutdown_act b pm e a x) (shutdown_schedule b pm e as)"

subsection \<open>The invariant\<close>

fun thread_has_lock :: "thread_point \<Rightarrow> bool" where
  "thread_has_lock Thread_test = True"
| "thread_has_lock Thread_update = True"
| "thread_has_lock Thread_leave = True"
| "thread_has_lock _ = False"

fun fin_has_lock :: "fin_point \<Rightarrow> bool" where
  "fin_has_lock Fin_stop = True"
| "fin_has_lock Fin_signal = True"
| "fin_has_lock Fin_leave = True"
| "fin_has_lock _ = False"

fun stopped :: "fin_point \<Rightarrow> bool" where
  "stopped Fin_signal = True"
| "stopped Fin_leave = True"
| "stopped Fin_returned = True"
| "stopped _ = False"

definition shutdown_inv :: "shutdown \<Rightarrow> bool" where
  "shutdown_inv x \<longleftrightarrow>
     update_thread_lock x =
       (if thread_has_lock (thread_at x) then Some Update_thread
        else if fin_has_lock (fin_at x) then Some Finalizer else None)
     \<and> \<not> (thread_has_lock (thread_at x) \<and> fin_has_lock (fin_at x))
     \<and> running x = (\<not> stopped (fin_at x))
     \<and> \<not> (thread_at x = Thread_update \<and> stopped (fin_at x))"

lemma shutdown_inv_created: "shutdown_inv (thread_created s k)"
  by (simp add: shutdown_inv_def thread_created_def)

lemma fin_inv: "shutdown_inv x \<Longrightarrow> shutdown_inv (libpowertutor_fin x)"
  by (cases "fin_at x"; cases "thread_at x"; simp add: shutdown_inv_def libpowertutor_fin_def)

lemma deadline_inv: "shutdown_inv x \<Longrightarrow> shutdown_inv (deadline_passes x)"
  by (cases "thread_at x"; simp add: shutdown_inv_def deadline_passes_def)

text \<open>An update and the wait that follows it.\<close>

lemma update_step_Ok:
  assumes "thread_at x = Thread_update"
  shows "NetworkStatsUpdateThread_step b pm e tv x = Ok y \<longleftrightarrow>
    (\<exists>s k w. update_energy_stats b pm e (library_vars x) (position x) = Ok (s, k)
       \<and> abs_time tv \<lparr>ts_sec = 0, ts_nsec = 100 * 1000 * 1000\<rparr> = Ok w
       \<and> y = x\<lparr>library_vars := s, position := k, wait_times := wait_times x @ [w],
               update_thread_lock := None, thread_at := Thread_waiting\<rparr>)"
  using assms by (auto simp: NetworkStatsUpdateThread_step_def bind_r_eq_Ok)

lemma thread_inv:
  assumes "NetworkStatsUpdateThread_step b pm e tv x = Ok y" "shutdown_inv x"
  shows "shutdown_inv y"
proof (cases "thread_at x = Thread_update")
  case True
  then show ?thesis
    using assms update_step_Ok [OF True, of b pm e tv y]
    by (cases "fin_at x") (auto simp: shutdown_inv_def)
next
  case False
  then show ?thesis
    using assms
    by (cases "thread_at x"; cases "fin_at x")
       (auto simp: shutdown_inv_def NetworkStatsUpdateThread_step_def)
qed

lemma act_inv: "shutdown_act b pm e a x = Ok y \<Longrightarrow> shutdown_inv x \<Longrightarrow> shutdown_inv y"
  by (cases a) (auto intro: fin_inv deadline_inv thread_inv)

lemma schedule_inv: "shutdown_schedule b pm e as x = Ok y \<Longrightarrow> shutdown_inv x \<Longrightarrow> shutdown_inv y"
  by (induction as arbitrary: x) (auto simp: bind_r_eq_Ok intro: act_inv)


subsection \<open>The sequential thread\<close>

lemma NetworkStatsUpdateThread_append:
  "NetworkStatsUpdateThread b pm e (tvs @ tvs') s k =
     bind_r (NetworkStatsUpdateThread b pm e tvs s k) (\<lambda>(ws, s, k).
     bind_r (NetworkStatsUpdateThread b pm e tvs' s k) (\<lambda>(ws', s, k). Ok (ws @ ws', s, k)))"
proof (induction tvs arbitrary: s k)
  case Nil
  then show ?case by (cases "NetworkStatsUpdateThread b pm e tvs' s k") auto
next
  case (Cons tv tvs)
  show ?case by (simp add: Cons bind_r_assoc split_def)
qed

fun given_times :: "shutdown_action list \<Rightarrow> timeval list" where
  "given_times [] = []"
| "given_times (Thread_runs tv # as) = tv # given_times as"
| "given_times (_ # as) = given_times as"

text \<open>
  \<open>ran b pm e tvs s k x\<close>: what the update thread has done so far is the sequential run with the
  times \<open>tvs\<close>, from the variables \<open>s\<close> and the clock position \<open>k\<close>.
\<close>

definition ran ::
  "build \<Rightarrow> PowerModel \<Rightarrow> env \<Rightarrow> timeval list \<Rightarrow> power_tutor \<Rightarrow> nat \<Rightarrow> shutdown \<Rightarrow> bool" where
  "ran b pm e tvs s k x \<longleftrightarrow>
     NetworkStatsUpdateThread b pm e tvs s k = Ok (wait_times x, library_vars x, position x)"

lemma ran_created: "ran b pm e [] s k (thread_created s k)"
  by (simp add: ran_def thread_created_def)

lemma fin_silent [simp]:
  "wait_times (libpowertutor_fin x) = wait_times x" "library_vars (libpowertutor_fin x) = library_vars x"
  "position (libpowertutor_fin x) = position x"
  by (cases "fin_at x"; simp add: libpowertutor_fin_def)+

lemma deadline_silent [simp]:
  "wait_times (deadline_passes x) = wait_times x" "library_vars (deadline_passes x) = library_vars x"
  "position (deadline_passes x) = position x"
  by (simp_all add: deadline_passes_def)

lemma thread_silent:
  assumes "thread_at x \<noteq> Thread_update"
  shows "\<exists>y. NetworkStatsUpdateThread_step b pm e tv x = Ok y \<and> wait_times y = wait_times x
    \<and> library_vars y = library_vars x \<and> position y = position x"
  using assms by (cases "thread_at x") (auto simp: NetworkStatsUpdateThread_step_def)

text \<open>If the sequential runs return, so does every action, and what has been done is such a run.\<close>

lemma act_refines:
  assumes "\<And>tv. tv \<in> set (given_times [a]) \<Longrightarrow> \<exists>r. NetworkStatsUpdateThread b pm e (tvs @ [tv]) s k = Ok r"
    and "ran b pm e tvs s k x"
  shows "\<exists>y tvs'. shutdown_act b pm e a x = Ok y \<and> ran b pm e (tvs @ tvs') s k y
    \<and> set tvs' \<subseteq> set (given_times [a]) \<and> length tvs' \<le> 1"
proof (cases a)
  case (Thread_runs tv)
  show ?thesis
  proof (cases "thread_at x = Thread_update")
    case True
    obtain r where "NetworkStatsUpdateThread b pm e (tvs @ [tv]) s k = Ok r"
      using assms(1) [of tv] Thread_runs by auto
    then obtain s' k' w where
      u: "update_energy_stats b pm e (library_vars x) (position x) = Ok (s', k')"
        "abs_time tv \<lparr>ts_sec = 0, ts_nsec = 100 * 1000 * 1000\<rparr> = Ok w"
        "NetworkStatsUpdateThread b pm e (tvs @ [tv]) s k = Ok (wait_times x @ [w], s', k')"
      using assms(2) by (auto simp: ran_def NetworkStatsUpdateThread_append bind_r_eq_Ok)
    let ?y = "x\<lparr>library_vars := s', position := k', wait_times := wait_times x @ [w],
                update_thread_lock := None, thread_at := Thread_waiting\<rparr>"
    have "NetworkStatsUpdateThread_step b pm e tv x = Ok ?y"
      using True u(1,2) by (simp add: NetworkStatsUpdateThread_step_def)
    then show ?thesis
      using Thread_runs u(3) by (intro exI [of _ ?y] exI [of _ "[tv]"]) (simp add: ran_def)
  next
    case False
    from thread_silent [OF this, of b pm e tv] obtain y where
      "NetworkStatsUpdateThread_step b pm e tv x = Ok y" "wait_times y = wait_times x"
      "library_vars y = library_vars x" "position y = position x" by blast
    then show ?thesis
      using Thread_runs assms(2) by (intro exI [of _ y] exI [of _ "[]"]) (simp add: ran_def)
  qed
next
  case Fin_runs
  then show ?thesis
    using assms(2) by (intro exI [of _ "libpowertutor_fin x"] exI [of _ "[]"]) (simp add: ran_def)
next
  case Deadline
  then show ?thesis
    using assms(2) by (intro exI [of _ "deadline_passes x"] exI [of _ "[]"]) (simp add: ran_def)
qed

lemma given_times_Cons: "given_times (a # as) = given_times [a] @ given_times as"
  by (cases a) simp_all

lemma schedule_refines:
  assumes "\<And>tvs. set tvs \<subseteq> V \<Longrightarrow> length tvs \<le> n \<Longrightarrow> \<exists>r. NetworkStatsUpdateThread b pm e tvs s k = Ok r"
    and "ran b pm e tvs s k x" "set tvs \<subseteq> V" "set (given_times as) \<subseteq> V" "length tvs + length as \<le> n"
  shows "\<exists>y tvs'. shutdown_schedule b pm e as x = Ok y \<and> ran b pm e (tvs @ tvs') s k y
    \<and> set tvs' \<subseteq> set (given_times as) \<and> length tvs' \<le> length as"
  using assms(2-5)
proof (induction as arbitrary: x tvs)
  case Nil
  then show ?case by (intro exI [of _ x] exI [of _ "[]"]) simp
next
  case (Cons a as)
  have V: "set (given_times [a]) \<subseteq> V" "set (given_times as) \<subseteq> V" using Cons.prems(3) given_times_Cons [of a as] by auto
  have "\<exists>r. NetworkStatsUpdateThread b pm e (tvs @ [tv]) s k = Ok r" if "tv \<in> set (given_times [a])" for tv
    using assms(1) [of "tvs @ [tv]"] that V(1) Cons.prems(2,4) by auto
  from act_refines [OF this Cons.prems(1)] obtain x1 tvs1 where
    1: "shutdown_act b pm e a x = Ok x1" "ran b pm e (tvs @ tvs1) s k x1"
      "set tvs1 \<subseteq> set (given_times [a])" "length tvs1 \<le> 1" by blast
  have "set (tvs @ tvs1) \<subseteq> V" "length (tvs @ tvs1) + length as \<le> n"
    using 1(3,4) V(1) Cons.prems(2,4) by auto
  from Cons.IH [OF 1(2) this(1) V(2) this(2)] obtain y tvs2 where
    2: "shutdown_schedule b pm e as x1 = Ok y" "ran b pm e ((tvs @ tvs1) @ tvs2) s k y"
      "set tvs2 \<subseteq> set (given_times as)" "length tvs2 \<le> length as" by blast
  then show ?case
    using 1 given_times_Cons [of a as] by (intro exI [of _ y] exI [of _ "tvs1 @ tvs2"]) auto
qed


subsection \<open>After the destructor\<close>

lemma stopped_forever:
  assumes "shutdown_inv x" "fin_at x = Fin_returned" "shutdown_act b pm e a x = Ok y"
  shows "fin_at y = Fin_returned \<and> library_vars y = library_vars x \<and> position y = position x"
proof (cases a)
  case (Thread_runs tv)
  have "thread_at x \<noteq> Thread_update" using assms(1,2) by (auto simp: shutdown_inv_def)
  then show ?thesis
    using Thread_runs assms(2,3)
    by (cases "thread_at x") (auto simp: NetworkStatsUpdateThread_step_def)
next
  case Fin_runs
  then show ?thesis using assms(2,3) by (auto simp: libpowertutor_fin_def)
next
  case Deadline
  then show ?thesis using assms(2,3) by (auto simp: deadline_passes_def)
qed

lemma stopped_schedule:
  assumes "shutdown_inv x" "fin_at x = Fin_returned" "shutdown_schedule b pm e as x = Ok y"
  shows "library_vars y = library_vars x \<and> position y = position x"
  using assms
proof (induction as arbitrary: x)
  case (Cons a as)
  then obtain z where "shutdown_act b pm e a x = Ok z" "shutdown_schedule b pm e as z = Ok y"
    by (auto simp: bind_r_eq_Ok)
  with Cons.IH [of z] stopped_forever [OF Cons.prems(1,2)] act_inv [OF _ Cons.prems(1)] show ?case by auto
qed simp

lemma stopped_returns:
  assumes "shutdown_inv x" "fin_at x = Fin_returned"
  shows "\<exists>y. shutdown_schedule b pm e [Deadline, Thread_runs t1, Thread_runs t2, Thread_runs t3] x = Ok y
    \<and> thread_at y = Thread_returned"
  using assms
  by (cases "thread_at x") (auto simp: shutdown_inv_def NetworkStatsUpdateThread_step_def deadline_passes_def)

text \<open>
  C17: once \<open>libpowertutor_fin\<close> has returned, in whatever interleaving, the
  update thread never touches the library again, and it returns within three of its own steps after the
  end of a wait it may be in.
\<close>

theorem shutdown_stops_updates:
  assumes "shutdown_schedule b pm e as (thread_created s k) = Ok x" "fin_at x = Fin_returned"
  shows "(\<forall>bs y. shutdown_schedule b pm e bs x = Ok y \<longrightarrow> library_vars y = library_vars x \<and> position y = position x)
    \<and> (\<exists>y. shutdown_schedule b pm e [Deadline, Thread_runs t1, Thread_runs t2, Thread_runs t3] x = Ok y
        \<and> thread_at y = Thread_returned)"
  using stopped_schedule [OF schedule_inv [OF assms(1) shutdown_inv_created] assms(2)]
    stopped_returns [OF schedule_inv [OF assms(1) shutdown_inv_created] assms(2)]
  by blast

lemma shutdown_stops_updates_witness:
  "\<exists>x y. shutdown_schedule Handset_build nexus_one (ticking 1) [Thread_runs timerclear, Fin_runs, Thread_runs timerclear, Fin_runs] (thread_created power_tutor_init 0)
      = Ok x \<and> fin_at x = Fin_enter
   \<and> shutdown_schedule Handset_build nexus_one (ticking 1) [Fin_runs, Fin_runs, Fin_runs, Fin_runs, Fin_runs, Thread_runs timerclear]
      (thread_created power_tutor_init 0) = Ok y \<and> fin_at y = Fin_returned
   \<and> (\<exists>z. shutdown_schedule Handset_build nexus_one (ticking 1) [Deadline, Thread_runs timerclear, Thread_runs timerclear, Thread_runs timerclear] y = Ok z
        \<and> thread_at z = Thread_returned)"
proof -
  let ?as = "[Fin_runs, Fin_runs, Fin_runs, Fin_runs, Fin_runs, Thread_runs timerclear]"
  obtain y where "shutdown_schedule Handset_build nexus_one (ticking 1) ?as (thread_created power_tutor_init 0) = Ok y" "fin_at y = Fin_returned"
    by (simp add: thread_created_def libpowertutor_fin_def NetworkStatsUpdateThread_step_def)
  moreover from shutdown_stops_updates [OF this] have
    "\<exists>z. shutdown_schedule Handset_build nexus_one (ticking 1) [Deadline, Thread_runs timerclear, Thread_runs timerclear, Thread_runs timerclear] y = Ok z
      \<and> thread_at z = Thread_returned" by blast
  ultimately show ?thesis
    by (simp add: thread_created_def libpowertutor_fin_def NetworkStatsUpdateThread_step_def)
qed

end
