(* ===== verification/Server.thy ===== *)
theory Server
  imports Update
begin

text \<open>
  A server over time: its update thread and the reports of the handset in any order, from the start of
  the library. \<open>server_trace\<close> is the specification: the radio of the handset as the server can know
  it, which a report sets and silence lets decay.
\<close>

subsection \<open>An estimate from the current state\<close>

lemma mobile_estimate_Ok:
  assumes "power_model pm" "steady e" "transfer_ok d bw rtt" "queues_ok q a"
    and "get_mobile_queue_len_local b e s k = Ok ((q, a), s', k')" "k \<le> k'"
    and "get_mobile_state b s' = Ok state"
    and "activity = (if power_model_is_remote b then remote_last_mobile_activity (lib_remote s')
                     else last_mobile_activity (lib_mobile s'))"
    and "stamp_ok (tv_us (clock e k)) activity"
  shows "\<exists>n dur. estimate_energy_cost b pm e TYPE_MOBILE d bw rtt s k = Ok (n, s', Suc k') \<and> 0 \<le> n
    \<and> valid_tv dur \<and> tv_us dur = tv_us (clock e k') - tv_us activity
    \<and> \<bar>of_int n - exact_cost pm state (state_during b pm (uint d + 52) state q a)
        (exact_seconds (uint d + 52) (uint bw) (uint rtt)) (convert_to_seconds dur)\<bar> < 3"
proof -
  have st: "stamp_ok (tv_us (clock e k')) activity"
    using stamp_ok_mono [OF assms(9) steady_mono [OF assms(2,6)]] .
  obtain dur where dur: "valid_tv dur" "tv_us dur = tv_us (clock e k') - tv_us activity"
    "time_since e activity k' = Ok (convert_to_seconds dur, Suc k')"
    using time_since_stamp [OF assms(2) st] by (auto simp: silent_us_def)
  from mobile_cost_near [OF assms(1,3,4) seconds_nonneg [OF dur(1)], of b state] obtain n where
    "estimate_mobile_energy_cost_from_state b pm state (convert_to_seconds dur) q a d bw rtt = Ok n" "0 \<le> n"
    "\<bar>of_int n - exact_cost pm state (state_during b pm (uint d + 52) state q a)
        (exact_seconds (uint d + 52) (uint bw) (uint rtt)) (convert_to_seconds dur)\<bar> < 3" by blast
  then show ?thesis
    using assms(5,7,8) dur
    by (intro exI [of _ n] exI [of _ dur])
       (simp add: estimate_energy_cost_def estimate_mobile_energy_cost_def get_energy_computer_def
         time_since_last_mobile_activity_def Let_def)
qed

subsection \<open>Events\<close>

datatype server_event = Tick | Reported remote_power_state

fun server_run ::
  "PowerModel \<Rightarrow> env \<Rightarrow> server_event list \<Rightarrow> power_tutor \<Rightarrow> nat \<Rightarrow> (power_tutor \<times> nat) result" where
  "server_run pm e [] s k = Ok (s, k)"
| "server_run pm e (Tick # es) s k =
     bind_r (update_energy_stats Server_build pm e s k) (\<lambda>(s, k). server_run pm e es s k)"
| "server_run pm e (Reported report # es) s k =
     bind_r (report_remote_mobile_activity e report (lib_remote s) k)
       (\<lambda>(r, k). server_run pm e es (s\<lparr>lib_remote := r\<rparr>) k)"

inductive server_trace :: "PowerModel \<Rightarrow> server_event list \<Rightarrow> MobileState \<Rightarrow> MobileState \<Rightarrow> bool" for pm where
  stop: "server_trace pm [] s s"
| tick: "rrc pm (Silence us) s u \<Longrightarrow> server_trace pm es u t \<Longrightarrow> server_trace pm (Tick # es) s t"
| reported: "mobile_state_rps report = int_of_state u \<Longrightarrow> server_trace pm es u t
    \<Longrightarrow> server_trace pm (Reported report # es) s t"

text \<open>A report of a state of the enumeration, with queues that leave room for a transfer.\<close>

definition report_ok :: "remote_power_state \<Rightarrow> bool" where
  "report_ok report \<longleftrightarrow> mobile_state_rps report \<in> {0, 1, 2}
     \<and> (\<forall>d. 0 \<le> mobile_queue_len report d \<and> mobile_queue_len report d < 2 ^ 30)"

fun event_ok :: "server_event \<Rightarrow> bool" where
  "event_ok Tick = True"
| "event_ok (Reported report) = report_ok report"

definition server_inv :: "int \<Rightarrow> remote_vars \<Rightarrow> bool" where
  "server_inv t r \<longleftrightarrow> remote_inv t r \<and> report_ok (remote_state r)"

lemma server_inv_init: "0 \<le> t \<Longrightarrow> server_inv t remote_vars_init"
  by (simp add: server_inv_def remote_inv_init) (simp add: report_ok_def remote_vars_init_def)

lemma tick_Ok:
  assumes "power_model pm" "steady e" "server_inv (tv_us (clock e k)) (lib_remote s)"
  shows "\<exists>r' j us. update_energy_stats Server_build pm e s k = Ok (s\<lparr>lib_remote := r'\<rparr>, j)
    \<and> server_inv (tv_us (clock e j)) r' \<and> rrc pm (Silence us) (remote_radio (lib_remote s)) (remote_radio r')"
proof -
  have i: "remote_inv (tv_us (clock e k)) (lib_remote s)" "report_ok (remote_state (lib_remote s))"
    using assms(3) by (simp_all add: server_inv_def)
  let ?us = "silent_us e (remote_last_mobile_activity (lib_remote s)) k"
  obtain r' j where r: "update_remote_power_model pm e (lib_remote s) k = Ok (r', j)"
    "remote_inv (tv_us (clock e j)) r'" "remote_radio r' = timed_out ?us (remote_radio (lib_remote s))"
    "\<And>d. mobile_queue_len (remote_state r') d
        = (if 1500000 \<le> ?us then 0 else mobile_queue_len (remote_state (lib_remote s)) d)"
    using update_remote_step [OF assms(1,2) i(1)] by blast
  then have "server_inv (tv_us (clock e j)) r'"
    using i(2) by (simp add: server_inv_def report_ok_def remote_inv_def)
  with r show ?thesis by (auto simp: update_energy_stats_def rrc_iff)
qed

lemma reported_Ok:
  assumes "steady e" "server_inv (tv_us (clock e k)) r" "report_ok report"
  shows "\<exists>r' j. report_remote_mobile_activity e report r k = Ok (r', j) \<and> server_inv (tv_us (clock e j)) r'
    \<and> remote_state r' = report"
proof -
  have q: "\<And>d. 0 \<le> mobile_queue_len report d \<and> mobile_queue_len report d < 2 ^ 30"
    "mobile_state_rps report \<in> {0, 1, 2}" using assms(3) by (simp_all add: report_ok_def)
  have "in_int (mobile_queue_len report DOWN + mobile_queue_len report UP)"
    using q(1) [of DOWN] q(1) [of UP] by (simp add: in_int_def)
  from report_Ok [OF this, of e r k] show ?thesis
    using assms q(2) by (auto simp: server_inv_def remote_inv_def stamp_ok_clock)
qed

lemma server_run_Ok:
  assumes "power_model pm" "steady e" "server_inv (tv_us (clock e k)) (lib_remote s)" "\<forall>ev \<in> set es. event_ok ev"
  shows "\<exists>s' j. server_run pm e es s k = Ok (s', j) \<and> server_inv (tv_us (clock e j)) (lib_remote s')
    \<and> server_trace pm es (remote_radio (lib_remote s)) (remote_radio (lib_remote s'))"
  using assms(3,4)
proof (induction es arbitrary: s k)
  case Nil
  then show ?case by (simp add: server_trace.stop)
next
  case (Cons ev es)
  show ?case
  proof (cases ev)
    case Tick
    obtain r' j us where u: "update_energy_stats Server_build pm e s k = Ok (s\<lparr>lib_remote := r'\<rparr>, j)"
      "server_inv (tv_us (clock e j)) r'" "rrc pm (Silence us) (remote_radio (lib_remote s)) (remote_radio r')"
      using tick_Ok [OF assms(1,2) Cons.prems(1)] by blast
    with Cons.IH [of j "s\<lparr>lib_remote := r'\<rparr>"] Cons.prems(2) Tick show ?thesis
      by (auto intro: server_trace.tick)
  next
    case (Reported report)
    then obtain r' j where u: "report_remote_mobile_activity e report (lib_remote s) k = Ok (r', j)"
      "server_inv (tv_us (clock e j)) r'" "remote_state r' = report"
      using reported_Ok [OF assms(2) Cons.prems(1), of report] Cons.prems(2) by auto
    have "mobile_state_rps report = int_of_state (remote_radio r')"
      using u(2,3) remote_inv_radio [of "tv_us (clock e j)" r'] by (simp add: server_inv_def)
    with u Cons.IH [of j "s\<lparr>lib_remote := r'\<rparr>"] Cons.prems(2) Reported show ?thesis
      by (auto intro: server_trace.reported)
  qed
qed

subsection \<open>The property\<close>



end
