(* ===== verification/Sections.thy ===== *)
theory Sections
  imports Locks
begin

text \<open>
  Critical sections: threads that take one lock, access the variables it protects in several steps, and
  give it back. A thread is outside, inside at a point of its section, or about to leave with the reply
  of the section; what a section does from one access to the next is the function \<open>step\<close>.

  The locale \<open>critical_sections\<close> is the contract of such a function: run to its end it is an operation
  \<open>effect\<close> on the variables, which succeeds as long as \<open>inv n\<close> leaves room for it. Under this contract any interleaving is a sequential run of the
  operations. The theories of the components interpret it on the functions of the library.

  A call takes the lock before its section and gives it back after it: that each function does so, on each of
  its branches, is its lock program in \<open>Lock_Order\<close>. A function that accesses the variables without the lock is
  not a call here.
\<close>

subsection \<open>Threads and their sections\<close>

record ('s, 'p, 'c, 'r) sections =
  shared :: 's
  section_lock :: "thread option"
  section_at :: "thread \<Rightarrow> ('p + 'r) option"
  sections_left :: "thread \<Rightarrow> 'c list"
  answered :: "(thread \<times> 'c \<times> 'r) list"

definition sections_start :: "'s \<Rightarrow> (thread \<Rightarrow> 'c list) \<Rightarrow> ('s, 'p, 'c, 'r) sections" where
  "sections_start s calls =
     \<lparr>shared = s, section_lock = None, section_at = (\<lambda>_. None), sections_left = calls, answered = []\<rparr>"

text \<open>
  A step of a thread: the constructor of its scoped lock, which may have to wait, an access inside, or
  the destructor.
\<close>

definition section_step ::
  "('c \<Rightarrow> 'p) \<Rightarrow> ('p \<Rightarrow> 's \<Rightarrow> (('p + 'r) \<times> 's) result) \<Rightarrow> thread \<Rightarrow> ('s, 'p, 'c, 'r) sections
   \<Rightarrow> ('s, 'p, 'c, 'r) sections result" where
  "section_step begins step t x = (case section_at x t of
     None \<Rightarrow>
       (case sections_left x t of
          [] \<Rightarrow> Ok x
        | c # _ \<Rightarrow>
            Ok (if section_lock x = None
                then x\<lparr>section_lock := Some t, section_at := (section_at x)(t := Some (Inl (begins c)))\<rparr>
                else x))
   | Some (Inl p) \<Rightarrow>
       bind_r (step p (shared x)) (\<lambda>(q, s).
       Ok (x\<lparr>shared := s, section_at := (section_at x)(t := Some q)\<rparr>))
   | Some (Inr r) \<Rightarrow>
       (if section_lock x = Some t
        then Ok (x\<lparr>section_lock := None, section_at := (section_at x)(t := None),
                   sections_left := (sections_left x)(t := tl (sections_left x t)),
                   answered := answered x @ [(t, hd (sections_left x t), r)]\<rparr>)
        else Fault Not_owner))"

fun section_schedule ::
  "('c \<Rightarrow> 'p) \<Rightarrow> ('p \<Rightarrow> 's \<Rightarrow> (('p + 'r) \<times> 's) result) \<Rightarrow> thread list \<Rightarrow> ('s, 'p, 'c, 'r) sections
   \<Rightarrow> ('s, 'p, 'c, 'r) sections result" where
  "section_schedule begins step [] x = Ok x"
| "section_schedule begins step (t # ts) x =
     bind_r (section_step begins step t x) (section_schedule begins step ts)"

lemma answered_length:
  "section_schedule begins step ts x = Ok y \<Longrightarrow> length (answered y) \<le> length (answered x) + length ts"
proof (induction ts arbitrary: x)
  case (Cons t ts)
  then obtain z where z: "section_step begins step t x = Ok z" "section_schedule begins step ts z = Ok y"
    by (auto simp: bind_r_eq_Ok)
  have "length (answered z) \<le> Suc (length (answered x))"
    using z(1) by (auto simp: section_step_def bind_r_eq_Ok split: option.splits list.splits sum.splits if_splits)
  with Cons.IH [OF z(2)] show ?case by simp
qed simp

subsection \<open>Sequential runs\<close>

text \<open>A sequence of operations with their replies, run one after the other.\<close>

fun sequential :: "('c \<Rightarrow> 's \<Rightarrow> ('r \<times> 's) result) \<Rightarrow> (thread \<times> 'c \<times> 'r) list \<Rightarrow> 's \<Rightarrow> 's \<Rightarrow> bool" where
  "sequential effect [] s s' \<longleftrightarrow> s' = s"
| "sequential effect ((t, c, r) # cs) s s' \<longleftrightarrow> (case effect c s of
     Inl _ \<Rightarrow> False
   | Inr (r', s1) \<Rightarrow> r' = r \<and> sequential effect cs s1 s')"

lemma sequential_append:
  "sequential effect (cs @ ds) s s' \<longleftrightarrow> (\<exists>s1. sequential effect cs s s1 \<and> sequential effect ds s1 s')"
  by (induction effect cs s s' rule: sequential.induct) (auto split: sum.splits)

text \<open>The operations of one thread, in the order of their answers.\<close>

fun calls_of :: "thread \<Rightarrow> (thread \<times> 'c \<times> 'r) list \<Rightarrow> 'c list" where
  "calls_of t [] = []"
| "calls_of t ((u, c, r) # cs) = (if u = t then c # calls_of t cs else calls_of t cs)"

lemma calls_of_append [simp]: "calls_of t (cs @ ds) = calls_of t cs @ calls_of t ds"
  by (induction t cs rule: calls_of.induct) auto

lemma calls_of_mem: "(t, c, reply) \<in> set cs \<Longrightarrow> c \<in> set (calls_of t cs)"
  by (induction t cs rule: calls_of.induct) auto

subsection \<open>The contract of a section\<close>

text \<open>The steps of a section run to its end; a number of steps that is too small is a fault.\<close>

fun run_section ::
  "('p \<Rightarrow> 's \<Rightarrow> (('p + 'r) \<times> 's) result) \<Rightarrow> nat \<Rightarrow> 'p \<Rightarrow> 's \<Rightarrow> ('r \<times> 's) result" where
  "run_section step 0 p s = Fault Out_of_bounds"
| "run_section step (Suc n) p s = bind_r (step p s) (\<lambda>(q, s').
     case q of Inl p' \<Rightarrow> run_section step n p' s' | Inr r \<Rightarrow> Ok (r, s'))"

text \<open>
  A section of one function among the sections of several: \<open>f\<close> names its points among theirs.
\<close>

definition in_section ::
  "('q \<Rightarrow> 'p) \<Rightarrow> (('q + 'r) \<times> 's) result \<Rightarrow> (('p + 'r) \<times> 's) result" where
  "in_section f m = bind_r m (\<lambda>(q, s). Ok (map_sum f id q, s))"

lemma in_section_simps [simp]:
  "in_section f (Fault x) = Fault x" "in_section f (Ok (q, s)) = Ok (map_sum f id q, s)"
  "in_section f (bind_r m g) = bind_r m (\<lambda>x. in_section f (g x))"
  by (simp_all add: in_section_def bind_r_assoc)

lemma in_section_Ok:
  "in_section f m = Ok (Inl p, s) \<longleftrightarrow> (\<exists>q. m = Ok (Inl q, s) \<and> p = f q)"
  by (cases m) (auto simp: in_section_def map_sum_def split: sum.splits)

locale critical_sections =
  fixes begins :: "'c \<Rightarrow> 'p" and step :: "'p \<Rightarrow> 's \<Rightarrow> (('p + 'r) \<times> 's) result"
    and rank :: "'p \<Rightarrow> nat" and effect :: "'c \<Rightarrow> 's \<Rightarrow> ('r \<times> 's) result"
    and inv :: "nat \<Rightarrow> 's \<Rightarrow> bool" and allowed :: "'c \<Rightarrow> bool"
  assumes forward: "step p s = Ok (Inl p', s') \<Longrightarrow> rank p' < rank p"
    and whole: "run_section step (Suc (rank (begins c))) (begins c) s = effect c s"
    and fewer: "inv (Suc n) s \<Longrightarrow> inv n s"
    and succeeds: "allowed c \<Longrightarrow> inv (Suc n) s \<Longrightarrow> \<exists>r s'. effect c s = Ok (r, s') \<and> inv n s'"
begin

lemma enough_steps: "rank p < m \<Longrightarrow> rank p < n \<Longrightarrow> run_section step m p s = run_section step n p s"
proof (induction m arbitrary: n p s)
  case (Suc m)
  then obtain n' where n: "n = Suc n'" by (cases n) auto
  have "run_section step m p' s' = run_section step n' p' s'" if "step p s = Ok (Inl p', s')" for p' s'
    using forward [OF that] Suc n by (intro Suc.IH) linarith+
  then show ?case by (auto simp: n split: sum.splits intro!: bind_r_cong)
qed simp

definition finish :: "'p \<Rightarrow> 's \<Rightarrow> ('r \<times> 's) result" where
  "finish p s = run_section step (Suc (rank p)) p s"

lemma goes_on:
  assumes "step p s = Ok (q, s')"
  shows "finish p s = (case q of Inl p' \<Rightarrow> finish p' s' | Inr r \<Rightarrow> Ok (r, s'))"
proof (cases q)
  case (Inl p')
  then have "rank p' < rank p" using assms forward by blast
  then have "run_section step (rank p) p' s' = finish p' s'"
    unfolding finish_def by (intro enough_steps) simp_all
  then show ?thesis using Inl assms by (simp add: finish_def)
qed (use assms in \<open>simp add: finish_def\<close>)

lemma finish_begins: "finish (begins c) s = effect c s"
  unfolding finish_def by (rule whole)

lemma finish_Ok: "finish p s = Ok x \<Longrightarrow> \<exists>q s'. step p s = Ok (q, s')"
  by (auto simp: finish_def bind_r_eq_Ok)

text \<open>
  The operations answered so far lead from the start to a state \<open>s1\<close>. While nobody holds the lock, the
  variables are in that state; while somebody does, the rest of its section ends as its operation
  does from \<open>s1\<close>.
\<close>

definition consistent :: "nat \<Rightarrow> 's \<Rightarrow> (thread \<Rightarrow> 'c list) \<Rightarrow> ('s, 'p, 'c, 'r) sections \<Rightarrow> bool" where
  "consistent n s0 calls x \<longleftrightarrow> (\<exists>s1. sequential effect (answered x) s0 s1 \<and> inv n s1 \<and>
     (\<forall>t. calls_of t (answered x) @ sections_left x t = calls t) \<and>
     (\<forall>t. section_at x t \<noteq> None \<longleftrightarrow> section_lock x = Some t) \<and>
     (case section_lock x of
        None \<Rightarrow> shared x = s1
      | Some t \<Rightarrow> sections_left x t \<noteq> [] \<and>
          (case section_at x t of
             None \<Rightarrow> False
           | Some (Inl p) \<Rightarrow> finish p (shared x) = effect (hd (sections_left x t)) s1
           | Some (Inr r) \<Rightarrow> effect (hd (sections_left x t)) s1 = Ok (r, shared x))))"

lemma consistent_start: "inv n s0 \<Longrightarrow> consistent n s0 calls (sections_start s0 calls)"
  by (simp add: consistent_def sections_start_def)

lemma consistent_step:
  assumes "consistent (Suc n) s0 calls x" "\<forall>t. \<forall>c \<in> set (calls t). allowed c"
  shows "\<exists>y. section_step begins step t x = Ok y \<and> consistent n s0 calls y"
proof -
  obtain s1 where s1: "sequential effect (answered x) s0 s1" "inv (Suc n) s1"
    "\<And>t. calls_of t (answered x) @ sections_left x t = calls t"
    "\<And>t. section_at x t \<noteq> None \<longleftrightarrow> section_lock x = Some t"
    "case section_lock x of
        None \<Rightarrow> shared x = s1
      | Some t \<Rightarrow> sections_left x t \<noteq> [] \<and>
          (case section_at x t of
             None \<Rightarrow> False
           | Some (Inl p) \<Rightarrow> finish p (shared x) = effect (hd (sections_left x t)) s1
           | Some (Inr r) \<Rightarrow> effect (hd (sections_left x t)) s1 = Ok (r, shared x))"
    using assms(1) by (auto simp: consistent_def)
  note less = fewer [OF s1(2)]
  have same: "consistent n s0 calls x"
    unfolding consistent_def using s1 less by (intro exI [of _ s1]) simp
  have ok: "\<exists>r s'. effect (hd (sections_left x t)) s1 = Ok (r, s') \<and> inv n s'" if "sections_left x t \<noteq> []"
  proof -
    have "hd (sections_left x t) \<in> set (calls t)" using s1(3) [of t] that
      by (metis Un_iff hd_in_set set_append)
    then show ?thesis using assms(2) succeeds s1(2) by blast
  qed
  show ?thesis
  proof (cases "section_at x t")
    case None
    show ?thesis
    proof (cases "sections_left x t")
      case Nil
      then show ?thesis using None same by (simp add: section_step_def)
    next
      case (Cons c cs)
      show ?thesis
      proof (cases "section_lock x")
        case free: None
        then have "section_at x u = None" for u using s1(4) [of u] by auto
        then have "consistent n s0 calls
            (x\<lparr>section_lock := Some t, section_at := (section_at x)(t := Some (Inl (begins c)))\<rparr>)"
          unfolding consistent_def using s1 less free Cons by (intro exI [of _ s1]) (auto simp: finish_begins)
        then show ?thesis using None Cons free by (simp add: section_step_def)
      next
        case (Some u)
        then show ?thesis using None Cons same by (simp add: section_step_def)
      qed
    qed
  next
    case (Some q)
    then have lock: "section_lock x = Some t" using s1(4) [of t] by auto
    have left: "sections_left x t \<noteq> []" using s1(5) lock by simp
    from ok [OF this] obtain r' s' where e: "effect (hd (sections_left x t)) s1 = Ok (r', s')" "inv n s'" by blast
    show ?thesis
    proof (cases q)
      case (Inl p)
      then have "finish p (shared x) = Ok (r', s')" using s1(5) lock Some e(1) by simp
      then obtain q' s'' where q': "step p (shared x) = Ok (q', s'')"
        "(case q' of Inl p' \<Rightarrow> finish p' s'' | Inr r \<Rightarrow> Ok (r, s'')) = Ok (r', s')"
        using finish_Ok goes_on by metis
      have "consistent n s0 calls (x\<lparr>shared := s'', section_at := (section_at x)(t := Some q')\<rparr>)"
        unfolding consistent_def using s1 less lock left e(1) q'(2)
        by (intro exI [of _ s1]) (auto split: sum.splits)
      then show ?thesis using Some Inl q'(1) by (simp add: section_step_def)
    next
      case (Inr r)
      then have r: "effect (hd (sections_left x t)) s1 = Ok (r, shared x)" using s1(5) lock Some by simp
      let ?y = "x\<lparr>section_lock := None, section_at := (section_at x)(t := None),
          sections_left := (sections_left x)(t := tl (sections_left x t)),
          answered := answered x @ [(t, hd (sections_left x t), r)]\<rparr>"
      have "sequential effect (answered ?y) s0 (shared x)" using s1(1) r by (auto simp: sequential_append)
      moreover have "inv n (shared x)" using r e by simp
      moreover have "calls_of u (answered ?y) @ sections_left ?y u = calls u" for u
        using s1(3) [of u] left by auto
      moreover have "section_at ?y u \<noteq> None \<longleftrightarrow> section_lock ?y = Some u" for u
        using s1(4) [of u] lock by auto
      ultimately have "consistent n s0 calls ?y" unfolding consistent_def by (intro exI [of _ "shared x"]) simp
      then show ?thesis using Some Inr lock by (simp add: section_step_def)
    qed
  qed
qed

lemma consistent_schedule:
  assumes "consistent (length ts) s0 calls x" "\<forall>t. \<forall>c \<in> set (calls t). allowed c"
  shows "\<exists>y. section_schedule begins step ts x = Ok y \<and> consistent 0 s0 calls y"
  using assms(1)
proof (induction ts arbitrary: x)
  case (Cons t ts)
  obtain y where "section_step begins step t x = Ok y" "consistent (length ts) s0 calls y"
    using consistent_step [of "length ts" s0 calls x t] Cons.prems assms(2) by auto
  with Cons.IH show ?case by simp
qed simp

text \<open>Any interleaving returns, and what has been answered is a sequential run.\<close>

lemma linearizable:
  assumes "inv (length ts) s0" "\<forall>t. \<forall>c \<in> set (calls t). allowed c"
  shows "\<exists>x s1. section_schedule begins step ts (sections_start s0 calls) = Ok x
    \<and> sequential effect (answered x) s0 s1 \<and> inv 0 s1 \<and> (section_lock x = None \<longrightarrow> shared x = s1)
    \<and> (\<forall>t. calls_of t (answered x) @ sections_left x t = calls t)"
  using consistent_schedule [OF consistent_start [OF assms(1)] assms(2)]
  by (force simp: consistent_def)

text \<open>The thread that holds the lock is the only one inside.\<close>

lemma exclusive:
  assumes "inv (length ts) s0" "\<forall>t. \<forall>c \<in> set (calls t). allowed c"
    and "section_schedule begins step ts (sections_start s0 calls) = Ok x"
    and "section_at x t \<noteq> None" "section_at x u \<noteq> None"
  shows "t = u"
proof -
  have "consistent 0 s0 calls x"
    using consistent_schedule [OF consistent_start [OF assms(1)] assms(2)] assms(3) by simp
  then have "section_lock x = Some t" "section_lock x = Some u"
    using assms(4,5) unfolding consistent_def by blast+
  then show ?thesis by simp
qed

end

end
