(* ===== verification/Server_Threads.thy ===== *)
theory Server_Threads
  imports Server Sections
begin

text \<open>
  A server with any number of threads: the functions of \<^verbatim>\<open>libpowertutor.cpp\<close> that access the
  server's copy of the radio, each under \<open>remote_power_state_lock\<close>, cut into steps.
  They interpret the locale of \<open>Sections\<close>, so every interleaving is a sequential run of the
  operations of \<open>Remote\<close> and \<open>Estimate\<close>.

  The clock counts the readings under this lock. \<open>get_energy_computer\<close> is three sections, between
  which other threads may run.
\<close>

subsection \<open>The sections\<close>

datatype remote_call =
    Call_update | Call_report remote_power_state | Call_queues | Call_state | Call_idle | Call_packet_rate

datatype remote_reply =
    Reply_done | Reply_queues int int | Reply_state MobileState | Reply_idle double | Reply_packet_rate int

text \<open>Points of the functions: what a thread has in its local variables.\<close>

datatype update_point =
    Update_begins | Update_has_activity timeval | Update_has_idle double | Update_demoted double
  | Update_moved double

datatype report_point = Report_begins remote_power_state | Report_stored remote_power_state

datatype queues_point = Queues_begins | Queues_has_down int

datatype idle_point = Idle_begins | Idle_has_activity timeval

text \<open>The functions from one access to the next, in the order of the code.\<close>

fun update_remote_power_model_section ::
  "PowerModel \<Rightarrow> env \<Rightarrow> update_point \<Rightarrow> remote_vars \<times> nat
   \<Rightarrow> ((update_point + remote_reply) \<times> remote_vars \<times> nat) result" where
  "update_remote_power_model_section pm e Update_begins (r, k) =
     Ok (Inl (Update_has_activity (remote_last_mobile_activity r)), r, k)"
| "update_remote_power_model_section pm e (Update_has_activity activity) (r, k) =
     bind_r (time_since e activity k) (\<lambda>(idle_time, k). Ok (Inl (Update_has_idle idle_time), r, k))"
| "update_remote_power_model_section pm e (Update_has_idle idle_time) (r, k) =
     Ok (if mobile_state_rps (remote_state r) = int_of_state MOBILE_POWER_STATE_DCH then
           if idle_time \<ge> MOBILE_DCH_INACTIVITY_TIMER pm then
             (Inl (Update_demoted idle_time),
              r\<lparr>remote_state := (remote_state r)
                  \<lparr>mobile_state_rps := int_of_state MOBILE_POWER_STATE_FACH\<rparr>\<rparr>, k)
           else (Inl (Update_moved idle_time), r, k)
         else if mobile_state_rps (remote_state r) = int_of_state MOBILE_POWER_STATE_FACH then
           if idle_time \<ge> MOBILE_FACH_INACTIVITY_TIMER pm then
             (Inl (Update_moved idle_time),
              r\<lparr>remote_state := (remote_state r)
                  \<lparr>mobile_state_rps := int_of_state MOBILE_POWER_STATE_IDLE\<rparr>\<rparr>, k)
           else (Inl (Update_moved idle_time), r, k)
         else (Inl (Update_moved idle_time), r, k))"
| "update_remote_power_model_section pm e (Update_demoted idle_time) (r, k) =
     Ok (Inl (Update_moved idle_time), r\<lparr>remote_last_mobile_activity := clock e k\<rparr>, Suc k)"
| "update_remote_power_model_section pm e (Update_moved idle_time) (r, k) =
     Ok (Inr Reply_done,
         (if idle_time \<ge> REMOTE_POWER_STATE_INVALID_TIMEOUT then
            r\<lparr>remote_state := (remote_state r)
                \<lparr>mobile_queue_len := (mobile_queue_len (remote_state r))(DOWN := 0, UP := 0),
                 wifi_packet_rate_rps := 0\<rparr>\<rparr>
          else r), k)"

fun report_remote_mobile_activity_section ::
  "env \<Rightarrow> report_point \<Rightarrow> remote_vars \<times> nat \<Rightarrow> ((report_point + remote_reply) \<times> remote_vars \<times> nat) result" where
  "report_remote_mobile_activity_section e (Report_begins state) (r, k) =
     Ok (Inl (Report_stored state), r\<lparr>remote_state := state\<rparr>, k)"
| "report_remote_mobile_activity_section e (Report_stored state) (r, k) =
     bind_r (c_int (mobile_queue_len state DOWN + mobile_queue_len state UP)) (\<lambda>queued.
     Ok (if queued > 0 then (Inr Reply_done, r\<lparr>remote_last_mobile_activity := clock e k\<rparr>, Suc k)
         else (Inr Reply_done, r, k)))"

fun server_queue_len_section ::
  "queues_point \<Rightarrow> remote_vars \<times> nat \<Rightarrow> ((queues_point + remote_reply) \<times> remote_vars \<times> nat) result" where
  "server_queue_len_section Queues_begins (r, k) =
     Ok (Inl (Queues_has_down (mobile_queue_len (remote_state r) DOWN)), r, k)"
| "server_queue_len_section (Queues_has_down down) (r, k) =
     Ok (Inr (Reply_queues down (mobile_queue_len (remote_state r) UP)), r, k)"

fun server_idle_section ::
  "env \<Rightarrow> idle_point \<Rightarrow> remote_vars \<times> nat \<Rightarrow> ((idle_point + remote_reply) \<times> remote_vars \<times> nat) result" where
  "server_idle_section e Idle_begins (r, k) = Ok (Inl (Idle_has_activity (remote_last_mobile_activity r)), r, k)"
| "server_idle_section e (Idle_has_activity activity) (r, k) =
     bind_r (time_since e activity k) (\<lambda>(idle_time, k). Ok (Inr (Reply_idle idle_time), r, k))"

text \<open>All of them. \<open>get_mobile_state\<close> and \<open>wifi_packet_rate\<close> read one variable.\<close>

datatype remote_point =
    In_update update_point | In_report report_point | In_queues queues_point | In_state | In_idle idle_point
  | In_packet_rate

fun remote_begins :: "remote_call \<Rightarrow> remote_point" where
  "remote_begins Call_update = In_update Update_begins"
| "remote_begins (Call_report state) = In_report (Report_begins state)"
| "remote_begins Call_queues = In_queues Queues_begins"
| "remote_begins Call_state = In_state"
| "remote_begins Call_idle = In_idle Idle_begins"
| "remote_begins Call_packet_rate = In_packet_rate"

fun remote_step ::
  "PowerModel \<Rightarrow> env \<Rightarrow> remote_point \<Rightarrow> remote_vars \<times> nat
   \<Rightarrow> ((remote_point + remote_reply) \<times> remote_vars \<times> nat) result" where
  "remote_step pm e (In_update p) s = in_section In_update (update_remote_power_model_section pm e p s)"
| "remote_step pm e (In_report p) s = in_section In_report (report_remote_mobile_activity_section e p s)"
| "remote_step pm e (In_queues p) s = in_section In_queues (server_queue_len_section p s)"
| "remote_step pm e In_state (r, k) =
     bind_r (MobileState_of_int (mobile_state_rps (remote_state r))) (\<lambda>state. Ok (Inr (Reply_state state), r, k))"
| "remote_step pm e (In_idle p) s = in_section In_idle (server_idle_section e p s)"
| "remote_step pm e In_packet_rate (r, k) =
     Ok (Inr (Reply_packet_rate (wifi_packet_rate_rps (remote_state r))), r, k)"

text \<open>The steps left at a point, but one.\<close>

fun remote_rank :: "remote_point \<Rightarrow> nat" where
  "remote_rank (In_update Update_begins) = 4"
| "remote_rank (In_update (Update_has_activity _)) = 3"
| "remote_rank (In_update (Update_has_idle _)) = 2"
| "remote_rank (In_update (Update_demoted _)) = 1"
| "remote_rank (In_report (Report_begins _)) = 1"
| "remote_rank (In_queues Queues_begins) = 1"
| "remote_rank (In_idle Idle_begins) = 1"
| "remote_rank _ = 0"

subsection \<open>The operations\<close>

text \<open>What the sections are, without interruption: the functions of the sequential model.\<close>

fun remote_effect ::
  "PowerModel \<Rightarrow> env \<Rightarrow> remote_call \<Rightarrow> remote_vars \<times> nat \<Rightarrow> (remote_reply \<times> remote_vars \<times> nat) result" where
  "remote_effect pm e Call_update (r, k) =
     bind_r (update_remote_power_model pm e r k) (\<lambda>(r, k). Ok (Reply_done, r, k))"
| "remote_effect pm e (Call_report state) (r, k) =
     bind_r (report_remote_mobile_activity e state r k) (\<lambda>(r, k). Ok (Reply_done, r, k))"
| "remote_effect pm e Call_queues (r, k) =
     bind_r (get_mobile_queue_len Server_build e (power_tutor_init\<lparr>lib_remote := r\<rparr>) k) (\<lambda>((down, up), _, k).
     Ok (Reply_queues down up, r, k))"
| "remote_effect pm e Call_state (r, k) =
     bind_r (get_mobile_state Server_build (power_tutor_init\<lparr>lib_remote := r\<rparr>)) (\<lambda>state.
     Ok (Reply_state state, r, k))"
| "remote_effect pm e Call_idle (r, k) =
     bind_r (time_since_last_mobile_activity Server_build e (power_tutor_init\<lparr>lib_remote := r\<rparr>) k) (\<lambda>(idle, k).
     Ok (Reply_idle idle, r, k))"
| "remote_effect pm e Call_packet_rate (r, k) =
     bind_r (wifi_packet_rate Server_build r wifi_vars_init) (\<lambda>rate. Ok (Reply_packet_rate rate, r, k))"

fun remote_allowed :: "remote_call \<Rightarrow> bool" where
  "remote_allowed (Call_report report) = report_ok report"
| "remote_allowed _ = True"

definition remote_ok :: "env \<Rightarrow> remote_vars \<times> nat \<Rightarrow> bool" where
  "remote_ok e s = (case s of (r, k) \<Rightarrow> server_inv (tv_us (clock e k)) r)"

lemma remote_forward:
  assumes "remote_step pm e p s = Ok (Inl p', s')"
  shows "remote_rank p' < remote_rank p"
proof -
  obtain r k where s: "s = (r, k)" by (cases s)
  show ?thesis
  proof (cases p)
    case (In_update q)
    with assms s show ?thesis by (cases q) (auto simp: in_section_Ok bind_r_eq_Ok split: if_splits)
  next
    case (In_report q)
    with assms s show ?thesis by (cases q) (auto simp: in_section_Ok bind_r_eq_Ok split: if_splits)
  next
    case (In_queues q)
    with assms s show ?thesis by (cases q) (auto simp: in_section_Ok)
  next
    case (In_idle q)
    with assms s show ?thesis by (cases q) (auto simp: in_section_Ok bind_r_eq_Ok)
  qed (use assms s in \<open>auto simp: bind_r_eq_Ok\<close>)
qed

lemma remote_whole:
  "run_section (remote_step pm e) (Suc (remote_rank (remote_begins c))) (remote_begins c) s = remote_effect pm e c s"
proof (cases s)
  case (Pair r k)
  show ?thesis
  proof (cases c)
    case Call_update
    show ?thesis
    proof (cases "time_since e (remote_last_mobile_activity r) k")
      case (Inl x)
      then show ?thesis
        by (simp add: Pair Call_update update_remote_power_model_def eval_nat_numeral)
    next
      case (Inr x)
      then show ?thesis
        by (cases x) (simp add: Pair Call_update update_remote_power_model_def eval_nat_numeral Let_def)
    qed
  next
    case (Call_report state)
    show ?thesis
      by (cases "c_int (mobile_queue_len state DOWN + mobile_queue_len state UP)")
         (simp_all add: Pair Call_report report_remote_mobile_activity_def eval_nat_numeral)
  qed (simp_all add: Pair get_mobile_queue_len_def get_mobile_state_def time_since_last_mobile_activity_def
      wifi_packet_rate_def power_model_is_remote_def bind_r_assoc split_def)
qed

subsection \<open>Every operation succeeds\<close>

text \<open>The replies of the reads, as the estimates need them.\<close>

fun reply_ok :: "remote_reply \<Rightarrow> bool" where
  "reply_ok (Reply_queues down up) = queues_ok down up"
| "reply_ok (Reply_idle idle) = (Fin 0 \<le> idle)"
| "reply_ok _ = True"

lemma remote_returns:
  assumes "power_model pm" "steady e" "remote_allowed c" "server_inv (tv_us (clock e k)) r"
  shows "\<exists>reply r' j. remote_effect pm e c (r, k) = Ok (reply, r', j) \<and> server_inv (tv_us (clock e j)) r'
    \<and> reply_ok reply
    \<and> (\<forall>es radio. server_trace pm es (remote_radio r') radio
        \<longrightarrow> server_trace pm
              ((case c of Call_update \<Rightarrow> [Tick] | Call_report report \<Rightarrow> [Reported report] | _ \<Rightarrow> []) @ es)
              (remote_radio r) radio)"
proof (cases c)
  case Call_update
  from tick_Ok [OF assms(1,2), of k "power_tutor_init\<lparr>lib_remote := r\<rparr>"] assms(4) obtain r' j us where
    "update_energy_stats Server_build pm e (power_tutor_init\<lparr>lib_remote := r\<rparr>) k
       = Ok (power_tutor_init\<lparr>lib_remote := r'\<rparr>, j)"
    "server_inv (tv_us (clock e j)) r'" "rrc pm (Silence us) (remote_radio r) (remote_radio r')" by auto
  then show ?thesis
    using Call_update
    by (auto simp: update_energy_stats_def bind_r_eq_Ok intro: server_trace.tick dest!: arg_cong [where f = lib_remote])
next
  case (Call_report report)
  then obtain r' j where u: "report_remote_mobile_activity e report r k = Ok (r', j)"
    "server_inv (tv_us (clock e j)) r'" "remote_state r' = report"
    using reported_Ok [OF assms(2,4), of report] assms(3) by auto
  have "mobile_state_rps report = int_of_state (remote_radio r')"
    using u(2,3) remote_inv_radio [of "tv_us (clock e j)" r'] by (simp add: server_inv_def)
  with u Call_report show ?thesis by (auto intro: server_trace.reported)
next
  case Call_queues
  have "0 \<le> mobile_queue_len (remote_state r) d \<and> mobile_queue_len (remote_state r) d < 2 ^ 30" for d
    using assms(4) by (simp add: server_inv_def report_ok_def)
  from this [of DOWN] this [of UP] show ?thesis
    using Call_queues assms(4)
    by (simp add: get_mobile_queue_len_def power_model_is_remote_def queues_ok_def)
next
  case Call_state
  then show ?thesis
    using assms(4) remote_inv_radio [of "tv_us (clock e k)" r]
    by (auto simp: get_mobile_state_def power_model_is_remote_def server_inv_def)
next
  case Call_idle
  have "stamp_ok (tv_us (clock e k)) (remote_last_mobile_activity r)"
    using assms(4) by (simp add: server_inv_def remote_inv_def)
  from time_since_stamp [OF assms(2) this] obtain dur where
    "valid_tv dur" "time_since e (remote_last_mobile_activity r) k = Ok (convert_to_seconds dur, Suc k)" by auto
  moreover have "server_inv (tv_us (clock e (Suc k))) r"
    using assms(4) steady_mono [OF assms(2), of k "Suc k"]
    by (auto simp: server_inv_def remote_inv_def intro: stamp_ok_mono)
  ultimately show ?thesis
    using Call_idle by (simp add: time_since_last_mobile_activity_def power_model_is_remote_def seconds_nonneg)
next
  case Call_packet_rate
  then show ?thesis using assms(4) by (simp add: wifi_packet_rate_def power_model_is_remote_def)
qed

interpretation remote: critical_sections
  remote_begins "remote_step pm e" remote_rank "remote_effect pm e"
  "\<lambda>n s. power_model pm \<and> steady e \<and> remote_ok e s" remote_allowed for pm e
proof (unfold_locales, goal_cases)
  case (1 p s p' s')
  then show ?case by (rule remote_forward)
next
  case (2 c s)
  then show ?case by (rule remote_whole)
next
  case (3 n s)
  then show ?case .
next
  case (4 c n s)
  then show ?case
    using remote_returns [of pm e c "snd s" "fst s"] by (cases s) (auto simp: remote_ok_def)
qed

subsection \<open>Sequential runs\<close>

text \<open>The updates and reports of a run, as events of the server.\<close>

fun remote_events :: "(thread \<times> remote_call \<times> remote_reply) list \<Rightarrow> server_event list" where
  "remote_events [] = []"
| "remote_events ((t, c, reply) # cs) =
     (case c of Call_update \<Rightarrow> [Tick] | Call_report report \<Rightarrow> [Reported report] | _ \<Rightarrow> []) @ remote_events cs"

lemma sequential_trace:
  assumes "power_model pm" "steady e" "server_inv (tv_us (clock e k)) r"
    and "\<forall>(t, c, reply) \<in> set cs. remote_allowed c" "sequential (remote_effect pm e) cs (r, k) s'"
  shows "server_trace pm (remote_events cs) (remote_radio r) (remote_radio (fst s'))
    \<and> (\<forall>(t, c, reply) \<in> set cs. reply_ok reply)"
  using assms(3-5)
proof (induction cs arbitrary: r k)
  case Nil
  then show ?case by (simp add: server_trace.stop)
next
  case (Cons x cs)
  obtain t c reply where x: "x = (t, c, reply)" by (metis prod_cases3)
  have "remote_allowed c" using Cons.prems(2) x by simp
  from remote_returns [OF assms(1,2) this Cons.prems(1)] obtain reply' r1 j where
    1: "remote_effect pm e c (r, k) = Ok (reply', r1, j)" "server_inv (tv_us (clock e j)) r1" "reply_ok reply'"
      "\<And>es radio. server_trace pm es (remote_radio r1) radio
        \<Longrightarrow> server_trace pm
              ((case c of Call_update \<Rightarrow> [Tick] | Call_report report \<Rightarrow> [Reported report] | _ \<Rightarrow> []) @ es)
              (remote_radio r) radio" by blast
  then have "sequential (remote_effect pm e) cs (r1, j) s'" "reply = reply'" using Cons.prems(3) x by auto
  with Cons.IH [OF 1(2)] Cons.prems(2) 1(3,4) x show ?case by simp
qed

lemma server_threads_run:
  assumes "power_model pm" "steady e" "\<forall>t. \<forall>c \<in> set (calls t). remote_allowed c"
  shows "\<exists>x r k. section_schedule remote_begins (remote_step pm e) ts (sections_start (remote_vars_init, 0) calls) = Ok x
    \<and> sequential (remote_effect pm e) (answered x) (remote_vars_init, 0) (r, k)
    \<and> (section_lock x = None \<longrightarrow> shared x = (r, k))
    \<and> (\<forall>t. calls_of t (answered x) @ sections_left x t = calls t)
    \<and> server_trace pm (remote_events (answered x)) MOBILE_POWER_STATE_IDLE (remote_radio r)
    \<and> mobile_state_rps (remote_state r) = int_of_state (remote_radio r)
    \<and> (\<forall>(t, c, reply) \<in> set (answered x). reply_ok reply)"
proof -
  have "0 \<le> tv_us (clock e 0)" using assms(2) steady_valid tv_us_nonneg by blast
  then have s0: "server_inv (tv_us (clock e 0)) remote_vars_init" by (rule server_inv_init)
  then have "power_model pm \<and> steady e \<and> remote_ok e (remote_vars_init, 0)" using assms(1,2) by (simp add: remote_ok_def)
  from remote.linearizable [OF this assms(3), of ts] obtain x r k where
    x: "section_schedule remote_begins (remote_step pm e) ts (sections_start (remote_vars_init, 0) calls) = Ok x"
      "sequential (remote_effect pm e) (answered x) (remote_vars_init, 0) (r, k)" "remote_ok e (r, k)"
      "section_lock x = None \<longrightarrow> shared x = (r, k)" "\<forall>t. calls_of t (answered x) @ sections_left x t = calls t"
    by auto
  have "\<forall>(t, c, reply) \<in> set (answered x). remote_allowed c"
    using assms(3) x(5) calls_of_mem [of _ _ _ "answered x"]
    by (metis (mono_tags, lifting) Un_iff case_prodI2 set_append)
  from sequential_trace [OF assms(1,2) s0 this x(2)] have
    tr: "server_trace pm (remote_events (answered x)) (remote_radio remote_vars_init) (remote_radio r)"
      "\<forall>(t, c, reply) \<in> set (answered x). reply_ok reply" by simp_all
  moreover have "remote_radio remote_vars_init = MOBILE_POWER_STATE_IDLE"
    by (simp add: remote_radio_def remote_vars_init_def)
  moreover have "mobile_state_rps (remote_state r) = int_of_state (remote_radio r)"
    using x(3) remote_inv_radio by (auto simp: remote_ok_def server_inv_def)
  ultimately show ?thesis using x by auto
qed

subsection \<open>The three sections of an estimate\<close>

text \<open>Without interruption they are \<open>get_energy_computer\<close>.\<close>

lemma energy_computer_sections:
  assumes "remote_effect pm e Call_queues (r, k) = Ok (Reply_queues q a, r1, k1)"
    and "remote_effect pm e Call_state (r1, k1) = Ok (Reply_state state, r2, k2)"
    and "remote_effect pm e Call_idle (r2, k2) = Ok (Reply_idle idle, r3, k3)"
  shows "get_energy_computer Server_build pm e TYPE_MOBILE (power_tutor_init\<lparr>lib_remote := r\<rparr>) k
    = Ok (estimate_mobile_energy_cost_from_state Server_build pm state idle q a,
          power_tutor_init\<lparr>lib_remote := r3\<rparr>, k3)"
  using assms
  by (auto simp: get_energy_computer_def get_mobile_queue_len_local_def get_mobile_queue_len_def
      get_mobile_state_def time_since_last_mobile_activity_def power_model_is_remote_def bind_r_eq_Ok)

text \<open>
  A report that arrives after the first of them: the estimate is made for the queues of the old report
  and the state of the new one, which the server never had together.
\<close>

lemma torn_estimate:
  assumes "mobile_state_rps report = int_of_state state"
    and "in_int (mobile_queue_len report DOWN + mobile_queue_len report UP)"
    and "calls 0 = [Call_queues, Call_state, Call_idle]" "calls 1 = [Call_report report]"
  shows "\<exists>x. section_schedule remote_begins (remote_step pm e) [0, 0, 0, 0, 1, 1, 1, 1, 0, 0, 0]
      (sections_start (r, k) calls) = Ok x
    \<and> answered x = [(0, Call_queues, Reply_queues (mobile_queue_len (remote_state r) DOWN) (mobile_queue_len (remote_state r) UP)),
        (1, Call_report report, Reply_done), (0, Call_state, Reply_state state)]"
  using assms by (simp add: section_step_def sections_start_def)

subsection \<open>Properties\<close>

text \<open>
  C13: on a server with any number of threads, each calling the functions on the
  handset's state in any order and interrupted between any two steps, no step fails, and what the calls have
  answered is what a sequential run of the operations answers, in an order that keeps the order of every
  thread; when nobody holds the lock, the variables are as after this run. The radio follows the
  specification along the updates and reports of the run.
\<close>

theorem server_linearizable:
  assumes "power_model pm" "steady e" "\<forall>t. \<forall>c \<in> set (calls t). remote_allowed c"
  shows "\<exists>x r k radio.
      section_schedule remote_begins (remote_step pm e) ts (sections_start (remote_vars_init, 0) calls) = Ok x
    \<and> sequential (remote_effect pm e) (answered x) (remote_vars_init, 0) (r, k)
    \<and> (section_lock x = None \<longrightarrow> shared x = (r, k))
    \<and> (\<forall>t. calls_of t (answered x) @ sections_left x t = calls t)
    \<and> server_trace pm (remote_events (answered x)) MOBILE_POWER_STATE_IDLE radio
    \<and> mobile_state_rps (remote_state r) = int_of_state radio"
  using server_threads_run [OF assms, of ts] by (elim exE conjE) (intro exI conjI, assumption+)

definition two_threads :: "thread \<Rightarrow> remote_call list" where
  "two_threads t = (if t = 0 then [Call_queues, Call_state, Call_idle] else if t = 1 then [Call_report reported_dch] else [])"

lemma two_threads_allowed: "\<forall>t. \<forall>c \<in> set (two_threads t). remote_allowed c"
  by (simp add: two_threads_def report_ok_def reported_dch_def)

lemma server_linearizable_witness:
  "\<exists>x s. section_schedule remote_begins (remote_step nexus_one (ticking 1)) [0, 1, 0, 0, 1, 0, 1, 1, 1, 0]
      (sections_start (remote_vars_init, 0) two_threads) = Ok x
    \<and> sequential (remote_effect nexus_one (ticking 1)) (answered x) (remote_vars_init, 0) s"
  using server_linearizable [OF nexus_one_ok steady_ticking two_threads_allowed, of 1 "[0, 1, 0, 0, 1, 0, 1, 1, 1, 0]"]
  by (simp del: section_schedule.simps) blast

text \<open>
  C15: whatever runs between the three sections of \<open>get_energy_computer\<close>, the
  values it gets are such that its estimate returns and is within three millijoules of the exact cost of
  the transfer for these values.
\<close>

theorem concurrent_estimates:
  assumes "power_model pm" "steady e" "\<forall>t. \<forall>c \<in> set (calls t). remote_allowed c" "transfer_ok d bw rtt"
  shows "\<exists>x. section_schedule remote_begins (remote_step pm e) ts (sections_start (remote_vars_init, 0) calls) = Ok x
    \<and> (\<forall>t q a state idle. (t, Call_queues, Reply_queues q a) \<in> set (answered x)
          \<and> (t, Call_state, Reply_state state) \<in> set (answered x) \<and> (t, Call_idle, Reply_idle idle) \<in> set (answered x)
        \<longrightarrow> (\<exists>n. estimate_mobile_energy_cost_from_state Server_build pm state idle q a d bw rtt = Ok n \<and> 0 \<le> n
              \<and> \<bar>of_int n - exact_cost pm state (state_during Server_build pm (uint d + 52) state q a)
                   (exact_seconds (uint d + 52) (uint bw) (uint rtt)) idle\<bar> < 3))"
proof -
  obtain x where x:
    "section_schedule remote_begins (remote_step pm e) ts (sections_start (remote_vars_init, 0) calls) = Ok x"
    "\<forall>(t, c, reply) \<in> set (answered x). reply_ok reply"
    using server_threads_run [OF assms(1-3), of ts] by blast
  have "queues_ok q a" if "(t, Call_queues, Reply_queues q a) \<in> set (answered x)" for t q a
    using x(2) that by (metis (mono_tags, lifting) case_prodD reply_ok.simps(1))
  moreover have "Fin 0 \<le> idle" if "(t, Call_idle, Reply_idle idle) \<in> set (answered x)" for t idle
    using x(2) that by (metis (mono_tags, lifting) case_prodD reply_ok.simps(2))
  ultimately show ?thesis
    using x(1) mobile_cost_near [OF assms(1,4)] by blast
qed

text \<open>One thread runs alone, from the start: nothing queued, IDLE, and a thousand seconds of silence.\<close>

lemma estimate_alone:
  "\<exists>x. section_schedule remote_begins (remote_step nexus_one (ticking 1)) [0, 0, 0, 0, 0, 0, 0, 0, 0, 0, 0]
      (sections_start (remote_vars_init, 0) two_threads) = Ok x
    \<and> answered x = [(0, Call_queues, Reply_queues 0 0), (0, Call_state, Reply_state MOBILE_POWER_STATE_IDLE),
        (0, Call_idle, Reply_idle (Fin 1000))]"
proof -
  have "TIMEDIFF timerclear (clock (ticking 1) 0) = Ok \<lparr>tv_sec = 1000, tv_usec = 0\<rparr>"
    by (simp add: TIMEDIFF_def timerclear_def in_long_def)
  then have "time_since (ticking 1) timerclear 0 = Ok (Fin 1000, 1)"
    by (simp add: time_since_def d_of_int_Fin to_double_numeral del: clock_ticking)
  moreover have "MobileState_of_int 0 = Ok MOBILE_POWER_STATE_IDLE" by (simp add: MobileState_of_int_def)
  moreover have "two_threads 0 = [Call_queues, Call_state, Call_idle]" by (simp add: two_threads_def)
  moreover have "remote_last_mobile_activity remote_vars_init = timerclear"
    "mobile_state_rps (remote_state remote_vars_init) = 0" "mobile_queue_len (remote_state remote_vars_init) d = 0" for d
    by (simp_all add: remote_vars_init_def)
  ultimately show ?thesis
    by (simp add: section_step_def sections_start_def)
qed

lemma concurrent_estimates_witness:
  "\<exists>n. estimate_mobile_energy_cost_from_state Server_build nexus_one MOBILE_POWER_STATE_IDLE (Fin 1000) 0 0 1000 10000 100
     = Ok n \<and> 0 \<le> n"
proof -
  let ?run = "section_schedule remote_begins (remote_step nexus_one (ticking 1)) [0, 0, 0, 0, 0, 0, 0, 0, 0, 0, 0]
      (sections_start (remote_vars_init, 0) two_threads)"
  obtain x where x: "?run = Ok x" "answered x = [(0, Call_queues, Reply_queues 0 0),
      (0, Call_state, Reply_state MOBILE_POWER_STATE_IDLE), (0, Call_idle, Reply_idle (Fin 1000))]"
    using estimate_alone by blast
  have s: "steady (ticking 1)" by simp
  note run = concurrent_estimates [OF nexus_one_ok s two_threads_allowed some_transfer(1),
      of "[0, 0, 0, 0, 0, 0, 0, 0, 0, 0, 0]"]
  from run obtain y where y:
    "?run = Ok y" "\<And>t q a state idle. (t, Call_queues, Reply_queues q a) \<in> set (answered y)
          \<and> (t, Call_state, Reply_state state) \<in> set (answered y) \<and> (t, Call_idle, Reply_idle idle) \<in> set (answered y)
        \<Longrightarrow> \<exists>n. estimate_mobile_energy_cost_from_state Server_build nexus_one state idle q a 1000 10000 100 = Ok n \<and> 0 \<le> n"
    by blast
  have "y = x" using x(1) y(1) by simp
  with y(2) [of 0 0 0 MOBILE_POWER_STATE_IDLE "Fin 1000"] x(2) show ?thesis by simp
qed

end
