(* ===== verification/Races.thy ===== *)
theory Races
  imports Update
begin

text \<open>
  A reset by the application in the middle of an update. \<open>reset_stats\<close> writes variables that the
  functions of the update thread read and write: \<open>last_update\<close>, which the update reads without a lock, and
  \<open>last_wifi_observation\<close>, which the reset writes without the lock of the WiFi state. Here
  \<open>update_consumption_stats\<close> runs in steps, from one access to shared variables to the next, and
  \<open>update_wifi_estimated_rates\<close> in two parts.

  \<open>get_mobile_queue_len\<close> also runs in two parts: it reads the counters before it takes the lock of the
  state it compares them with, and the update thread may sample in between.
\<close>

subsection \<open>The charge of a second in steps\<close>

text \<open>
  Between the steps: the time has been read; the energy of this second has been computed, and
  \<open>stats_lock\<close> is about to be taken.
\<close>

datatype charge_point =
    Charge_begins | Charge_has_time timeval | Charge_has_energy "EnergyComponent \<Rightarrow> int" | Charge_returned

record charging =
  charging_vars :: power_tutor
  charging_position :: nat
  charge_at :: charge_point

definition charge_begins :: "power_tutor \<Rightarrow> nat \<Rightarrow> charging" where
  "charge_begins s k = \<lparr>charging_vars = s, charging_position = k, charge_at = Charge_begins\<rparr>"

definition update_consumption_stats_step ::
  "build \<Rightarrow> PowerModel \<Rightarrow> env \<Rightarrow> charging \<Rightarrow> charging result" where
  "update_consumption_stats_step b pm e x =
     (let s = charging_vars x; k = charging_position x in
      case charge_at x of
        Charge_begins \<Rightarrow> Ok (x\<lparr>charging_position := Suc k, charge_at := Charge_has_time (clock e k)\<rparr>)
      | Charge_has_time now \<Rightarrow>
          bind_r (TIMEDIFF (last_update (lib_stats s)) now) (\<lambda>diff.
          if tv_sec diff \<le> 0 then Ok (x\<lparr>charge_at := Charge_returned\<rparr>)
          else
            let s = s\<lparr>lib_stats := (lib_stats s)\<lparr>last_update := now\<rparr>\<rparr> in
            bind_r (consumption_this_second b pm e s k) (\<lambda>(this_second, s).
            Ok (x\<lparr>charging_vars := s, charge_at := Charge_has_energy this_second\<rparr>)))
      | Charge_has_energy this_second \<Rightarrow>
          bind_r (acquire_stats_lock (lib_stats s)) (\<lambda>st.
          bind_r (charge_loop [CPU, NETWORKING, ALL_ENERGY_COMPONENTS] this_second (energy_consumed_mJ st))
            (\<lambda>energy.
          bind_r (c_int (mobile_last_delta_bytes (lib_mobile s) DOWN
                         + mobile_last_delta_bytes (lib_mobile s) UP)) (\<lambda>delta.
          bind_r (c_int (mobile_data_consumed_bytes st + delta)) (\<lambda>bytes.
          Ok (x\<lparr>charging_vars := s\<lparr>lib_stats := release_stats_lock
                  (st\<lparr>energy_consumed_mJ := energy, mobile_data_consumed_bytes := bytes\<rparr>)\<rparr>,
                charge_at := Charge_returned\<rparr>)))))
      | Charge_returned \<Rightarrow> Ok x)"

text \<open>What may happen next: a step of the charge, or a whole reset by the application.\<close>

datatype charge_action = Charge_continues | Application_resets

fun charge_schedule ::
  "build \<Rightarrow> PowerModel \<Rightarrow> env \<Rightarrow> charge_action list \<Rightarrow> charging \<Rightarrow> charging result" where
  "charge_schedule b pm e [] x = Ok x"
| "charge_schedule b pm e (Charge_continues # as) x =
     bind_r (update_consumption_stats_step b pm e x) (charge_schedule b pm e as)"
| "charge_schedule b pm e (Application_resets # as) x =
     bind_r (reset_stats b pm e (charging_vars x) (charging_position x))
       (\<lambda>(s, k). charge_schedule b pm e as (x\<lparr>charging_vars := s, charging_position := k\<rparr>))"

lemma step_simps [simp]:
  "update_consumption_stats_step b pm e \<lparr>charging_vars = s, charging_position = k, charge_at = Charge_begins\<rparr>
     = Ok \<lparr>charging_vars = s, charging_position = Suc k, charge_at = Charge_has_time (clock e k)\<rparr>"
  "update_consumption_stats_step b pm e \<lparr>charging_vars = s, charging_position = k, charge_at = Charge_returned\<rparr>
     = Ok \<lparr>charging_vars = s, charging_position = k, charge_at = Charge_returned\<rparr>"
  by (simp_all add: update_consumption_stats_step_def)

lemma step_has_time:
  "update_consumption_stats_step b pm e \<lparr>charging_vars = s, charging_position = k, charge_at = Charge_has_time now\<rparr>
     = bind_r (TIMEDIFF (last_update (lib_stats s)) now) (\<lambda>diff.
        if tv_sec diff \<le> 0 then Ok \<lparr>charging_vars = s, charging_position = k, charge_at = Charge_returned\<rparr>
        else bind_r (consumption_this_second b pm e (s\<lparr>lib_stats := (lib_stats s)\<lparr>last_update := now\<rparr>\<rparr>) k)
          (\<lambda>(this_second, s).
          Ok \<lparr>charging_vars = s, charging_position = k, charge_at = Charge_has_energy this_second\<rparr>))"
  by (simp add: update_consumption_stats_step_def Let_def cong: if_cong)

lemma step_has_energy:
  "update_consumption_stats_step b pm e
       \<lparr>charging_vars = s, charging_position = k, charge_at = Charge_has_energy this_second\<rparr>
     = bind_r (acquire_stats_lock (lib_stats s)) (\<lambda>st.
       bind_r (charge_loop [CPU, NETWORKING, ALL_ENERGY_COMPONENTS] this_second (energy_consumed_mJ st)) (\<lambda>energy.
       bind_r (c_int (new_bytes (lib_mobile s))) (\<lambda>delta.
       bind_r (c_int (mobile_data_consumed_bytes st + delta)) (\<lambda>bytes.
       Ok \<lparr>charging_vars = s\<lparr>lib_stats := release_stats_lock
              (st\<lparr>energy_consumed_mJ := energy, mobile_data_consumed_bytes := bytes\<rparr>)\<rparr>,
           charging_position = k, charge_at = Charge_returned\<rparr>))))"
  by (simp add: update_consumption_stats_step_def new_bytes_def)

text \<open>Without interference the steps are the function.\<close>

lemma charge_steps:
  "charge_schedule b pm e [Charge_continues, Charge_continues, Charge_continues] (charge_begins s k)
   = bind_r (update_consumption_stats b pm e s k)
       (\<lambda>(s, k). Ok \<lparr>charging_vars = s, charging_position = k, charge_at = Charge_returned\<rparr>)"
proof (cases "TIMEDIFF (last_update (lib_stats s)) (clock e k)")
  case (Inl x)
  then show ?thesis by (simp add: charge_begins_def update_consumption_stats_def step_has_time Let_def)
next
  case (Inr d)
  show ?thesis
  proof (cases "tv_sec d \<le> 0")
    case True
    with Inr show ?thesis by (simp add: charge_begins_def update_consumption_stats_def step_has_time Let_def)
  next
    case False
    with Inr show ?thesis
      by (simp add: charge_begins_def update_consumption_stats_def step_has_time step_has_energy Let_def
          bind_r_assoc split_def new_bytes_def)
  qed
qed

subsection \<open>The WiFi rates after the reading of the time\<close>

text \<open>What \<open>update_wifi_estimated_rates\<close> does under its lock, with the time read before it.\<close>

definition update_wifi_estimated_rates_locked ::
  "timeval \<Rightarrow> (Direction \<Rightarrow> int) \<Rightarrow> (Direction \<Rightarrow> int) \<Rightarrow> bool \<Rightarrow> wifi_vars \<Rightarrow> (int \<times> bool \<times> wifi_vars) result" where
  "update_wifi_estimated_rates_locked now bytes packets fire_callback w =
     bind_r (TIMEDIFF (last_wifi_observation w) now) (\<lambda>diff.
     if tv_sec diff = 0 then Ok (0, fire_callback, w)
     else
       bind_r
         (if wifi_last_bytes w DOWN = - 1 then
            bind_r (c_assert (wifi_last_bytes w UP = - 1
                \<and> wifi_last_packets w DOWN = - 1 \<and> wifi_last_packets w UP = - 1
                \<and> wifi_data_rates w DOWN = - 1 \<and> wifi_data_rates w UP = - 1
                \<and> wifi_packet_rates w DOWN = - 1 \<and> wifi_packet_rates w UP = - 1)) (\<lambda>_. Ok w)
          else
            bind_r (TIMEDIFF (last_wifi_observation w) now) (\<lambda>diff.
            let dur = d_of_int (tv_sec diff) + divide (d_of_int (tv_usec diff)) (Fin 1000000) in
            bind_r (calc_rates (wifi_data_rates w) (wifi_last_bytes w) bytes dur) (\<lambda>data_rates.
            bind_r (calc_rates (wifi_packet_rates w) (wifi_last_packets w) packets dur) (\<lambda>packet_rates.
            Ok (w\<lparr>wifi_data_rates := data_rates, wifi_packet_rates := packet_rates\<rparr>))))) (\<lambda>w.
       let w = w\<lparr>wifi_last_bytes := store_counts (wifi_last_bytes w) bytes,
                 wifi_last_packets := store_counts (wifi_last_packets w) packets,
                 last_wifi_observation := now\<rparr> in
       bind_r (c_int (wifi_packet_rates w DOWN + wifi_packet_rates w UP)) (\<lambda>rate.
       Ok (0, if rate > 5 then True else fire_callback, w))))"

lemma wifi_steps:
  "0 \<le> rc \<Longrightarrow> update_wifi_estimated_rates e (rc, bytes, packets) fire_callback w k
     = bind_r (update_wifi_estimated_rates_locked (clock e k) bytes packets fire_callback w)
         (\<lambda>(rc, fire_callback, w). Ok (rc, fire_callback, w, Suc k))"
  by (cases "TIMEDIFF (last_wifi_observation w) (clock e k)")
     (simp_all add: update_wifi_estimated_rates_def update_wifi_estimated_rates_locked_def Let_def bind_r_assoc)

subsection \<open>A reset that is fast enough to return\<close>

lemma reset_returns:
  assumes "power_model pm" "ANDROID b" "steady e" "\<not> stats_lock (lib_stats s)"
    and "counters_ok b pm e (\<lambda>_. None)" "\<forall>i \<ge> k. cpu_files_ok pm e i (lib_cpu s)"
    and "tv_us (clock e (k + 12)) - tv_us (clock e k) < 1000000"
  shows "\<exists>s' j. reset_stats b pm e s k = Ok (s', j) \<and> k < j \<and> library_inv b pm e (tv_us (clock e j)) s'
    \<and> lib_stats s' = stats_vars_init\<lparr>last_reset := clock e k, last_update := clock e k\<rparr>
    \<and> new_bytes (lib_mobile s') = 0 \<and> last_wifi_observation (lib_wifi s') = clock e (k + 1)"
proof -
  obtain j where j: "k + 5 \<le> j" "j \<le> k + 12"
    "if tv_us (clock e j) - tv_us (clock e k) < 1000000
     then \<exists>s'. reset_stats b pm e s k = Ok (s', Suc j) \<and> library_inv b pm e (tv_us (clock e (Suc j))) s'
       \<and> lib_stats s' = stats_vars_init\<lparr>last_reset := clock e k, last_update := clock e k\<rparr>
       \<and> mobile_last_delta_bytes (lib_mobile s') = (\<lambda>_. 0)
       \<and> last_wifi_observation (lib_wifi s') = clock e (k + 1)
     else reset_stats b pm e s k = Fault Self_deadlock"
    using reset_outcome [OF assms(1-6)] by (auto split: if_splits)
  moreover have "tv_us (clock e j) - tv_us (clock e k) < 1000000"
    using steady_mono [OF assms(3) j(2)] assms(7) by linarith
  ultimately obtain s' where s': "reset_stats b pm e s k = Ok (s', Suc j)"
    "library_inv b pm e (tv_us (clock e (Suc j))) s'"
    "lib_stats s' = stats_vars_init\<lparr>last_reset := clock e k, last_update := clock e k\<rparr>"
    "mobile_last_delta_bytes (lib_mobile s') = (\<lambda>_. 0)" "last_wifi_observation (lib_wifi s') = clock e (k + 1)"
    by auto
  with j(1) show ?thesis by (intro exI [of _ s'] exI [of _ "Suc j"]) (simp add: new_bytes_def)
qed

subsection \<open>The queues after the reading of the counters\<close>

text \<open>What \<open>get_mobile_queue_len\<close> does on a handset under its lock, with a reading of the counters.\<close>

definition get_mobile_queue_len_locked ::
  "env \<Rightarrow> int \<times> (Direction \<Rightarrow> int) \<Rightarrow> mobile_vars \<Rightarrow> nat \<Rightarrow> ((int \<times> int) \<times> nat) result" where
  "get_mobile_queue_len_locked e reading m k = (case reading of (rc, bytes) \<Rightarrow>
     let now = clock e k; k = Suc k in
     bind_r (TIMEDIFF (last_mobile_sample_time m) now) (\<lambda>_.
     let down_bytes = size_of_int (mobile_last_delta_bytes m DOWN);
         up_bytes = size_of_int (mobile_last_delta_bytes m UP) in
     bind_r
       (if rc = 0 \<and> mobile_last_bytes m DOWN \<noteq> - 1 then
          bind_r (c_int (bytes DOWN - mobile_last_bytes m DOWN)) (\<lambda>down.
          bind_r (c_int (bytes UP - mobile_last_bytes m UP)) (\<lambda>up. Ok (down, up)))
        else Ok (0, 0)) (\<lambda>(recent_down, recent_up).
     let down_bytes = down_bytes + size_of_int recent_down;
         up_bytes = up_bytes + size_of_int recent_up in
     Ok ((int_of_size down_bytes, int_of_size up_bytes), k))))"

lemma queue_len_steps:
  assumes "ANDROID b"
    and "get_net_dev_stats b e k MOBILE_IFACE (\<lambda>_. - 1) (\<lambda>_. 0) (lib_mocked s) = ((rc, bytes, packets), mocked)"
  shows "get_mobile_queue_len b e s k = bind_r (get_mobile_queue_len_locked e (rc, bytes) (lib_mobile s) k)
    (\<lambda>(q, k). Ok (q, s\<lparr>lib_mocked := mocked\<rparr>, k))"
  using assms
  by (simp add: get_mobile_queue_len_def get_mobile_queue_len_locked_def power_model_is_remote_def Let_def
      bind_r_assoc split_def)

text \<open>A sample of new counters, and an update in the same second: the deltas are gone.\<close>

lemma sample_and_update:
  assumes "power_model pm" "steady e" "mobile_inv (tv_us (clock e k)) m" "counts_ok c" "counts_ok c'"
    and "counts_ok (mobile_last_bytes m)" "mobile_last_bytes m dir < c dir"
    and "1000000 \<le> tv_us (clock e k) - tv_us (last_mobile_sample_time m)"
    and "tv_us (clock e (k + 5)) - tv_us (clock e k) < 1000000"
    and "\<forall>st. idle_duration_update_counts m st < 2 ^ 31 - 2"
  shows "\<exists>fire1 m1 k1 fire2 m2 k2. update_mobile_state pm e (0, c) False m k = Ok (0, fire1, m1, k1)
    \<and> update_mobile_state pm e (0, c') False m1 k1 = Ok (0, fire2, m2, k2)
    \<and> mobile_inv (tv_us (clock e k2)) m2 \<and> mobile_last_bytes m2 = c \<and> mobile_last_delta_bytes m2 = (\<lambda>_. 0)"
proof -
  have room: "\<forall>st. idle_duration_update_counts m st < 2 ^ 31 - 1" using assms(10) by (auto intro: less_trans)
  obtain fire1 m1 k1 where 1: "update_mobile_state pm e (0, c) False m k = Ok (0, fire1, m1, k1)"
    "k < k1" "k1 \<le> k + 5" "mobile_inv (tv_us (clock e k1)) m1" "updated_from pm e c m k m1 k1"
    using update_mobile_state_step [OF assms(1-4) room, of 0 False] by auto
  have "mobile_last_bytes m DOWN \<noteq> - 1" using counts_okD [OF assms(6), of DOWN] by auto
  then have "mobile_event e c m k = Some (Traffic (bytes_since c m DOWN) (bytes_since c m UP))"
    using assms(7,8) by (auto simp: mobile_event_def due_def silent_us_def)
  then have m1: "mobile_last_bytes m1 = c" "last_mobile_sample_time m1 = clock e (Suc k)"
    "\<forall>st. idle_duration_update_counts m1 st < 2 ^ 31 - 1"
    using 1(5) room assms(10) by (simp_all add: updated_from_def handset_mid_def Let_def)
  obtain fire2 m2 k2 where 2: "update_mobile_state pm e (0, c') False m1 k1 = Ok (0, fire2, m2, k2)"
    "mobile_inv (tv_us (clock e k2)) m2" "updated_from pm e c' m1 k1 m2 k2"
    using update_mobile_state_step [OF assms(1,2) 1(4) assms(5) m1(3), of 0 False] by auto
  have "tv_us (clock e k1) - tv_us (clock e (Suc k)) < 1000000"
    using steady_mono [OF assms(2) 1(3)] steady_mono [OF assms(2), of k "Suc k"] assms(9) by simp
  then have "mobile_event e c' m1 k1 = Some (Silence (silent_us e (last_mobile_activity m1) (Suc k1)))"
    by (simp add: mobile_event_def due_def silent_us_def m1(2))
  then have "mobile_last_bytes m2 = c" "mobile_last_delta_bytes m2 = (\<lambda>_. 0)"
    using 2(3) m1(1) by (simp_all add: updated_from_def handset_mid_def Let_def)
  with 1(1) 2 show ?thesis by blast
qed

text \<open>A negative length becomes a huge \<open>size_t\<close>, above every threshold.\<close>

lemma negative_queue_is_DCH:
  assumes "power_model pm" "- (2 ^ 31) < q" "q + uint w < 0" "- (2 ^ 31) < a" "a \<le> 0"
  shows "predicted_state b pm w s q a = Ok MOBILE_POWER_STATE_DCH"
proof -
  have "(2 :: int) ^ 31 = 2147483648" by simp
  then have low: "- 2147483648 < q + uint w" using assms(2) uint_ge_0 [of w] by linarith
  have "uint (size_of_int q + w) = 2 ^ 64 + (q + uint w)"
  proof -
    have "uint (size_of_int q + w) = (q + uint w) mod 2 ^ 64"
      by (simp add: size_of_int_def uint_word_ariths uint_word_of_int mod_simps)
    also have "\<dots> = (2 ^ 64 + (q + uint w)) mod 2 ^ 64" by simp
    also have "\<dots> = 2 ^ 64 + (q + uint w)"
      using low assms(3) by (intro mod_pos_pos_trivial) simp_all
    finally show ?thesis .
  qed
  then have big: "1000 \<le> uint (size_of_int q + w)" using low by simp
  have "uint (size_of_int (get_dch_threshold pm x)) \<le> 1000" for x
    using power_model.get_dch_threshold_range [OF assms(1), of x]
    by (simp add: size_of_int_def uint_word_of_int_eq take_bit_int_eq_self)
  then have "size_of_int (get_dch_threshold pm x) \<le> size_of_int q + w" for x
    using big unfolding word_le_def by (metis order_trans)
  moreover have "in_int (a + 32)" "in_int (a + 32 + 20)" using assms(4,5) by (auto simp: in_int_def)
  ultimately show ?thesis
    by (simp add: predicted_state_def TCP_HDR_SIZE_def IP_HDR_SIZE_def Let_def)
qed

subsection \<open>Properties\<close>


text \<open>A clock that shows one second more from the second reading on.\<close>

definition one_tick :: env where
  "one_tick = (ticking 1)\<lparr>clock := (\<lambda>i. \<lparr>tv_sec = (if i = 0 then 1000 else 1001), tv_usec = 0\<rparr>)\<rparr>"

lemma one_tick_simps [simp]:
  "steady one_tick" "clock one_tick i = \<lparr>tv_sec = (if i = 0 then 1000 else 1001), tv_usec = 0\<rparr>"
  "cpu_files_ok pm one_tick i c" "counters_ok Simulation_build pm one_tick (\<lambda>_. None)"
  using cpu_files_ticking [of pm 1 i c]
  by (auto simp: one_tick_def steady_def valid_tv_def tv_us_def cpu_files_ok_def)




text \<open>
  C40: a thread that asks for the queues reads the counters, and before it takes the lock
  the update thread samples newer counters and, in the same second, updates once more. The queues are
  then negative, and as soon as the uplink has carried more than a transfer in between, the transfer is
  predicted to move the radio to DCH, whatever the state and although nothing is queued: the negative
  length is converted to an unsigned size.
\<close>

theorem stale_queue:
  assumes "power_model pm" "steady e" "mobile_inv (tv_us (clock e k)) m" "counts_ok c" "counts_ok c'"
    and "counts_ok (mobile_last_bytes m)" "mobile_last_bytes m dir < c dir"
    and "1000000 \<le> tv_us (clock e k) - tv_us (last_mobile_sample_time m)"
    and "tv_us (clock e (k + 5)) - tv_us (clock e k) < 1000000"
    and "\<forall>st. idle_duration_update_counts m st < 2 ^ 31 - 2"
    and "counts_ok bytes" "bytes DOWN \<le> c DOWN" "bytes UP + uint datalen < c UP"
  shows "\<exists>fire1 m1 k1 fire2 m2 k2. update_mobile_state pm e (0, c) False m k = Ok (0, fire1, m1, k1)
    \<and> update_mobile_state pm e (0, c') False m1 k1 = Ok (0, fire2, m2, k2)
    \<and> get_mobile_queue_len_locked e (0, bytes) m2 k2 = Ok ((bytes DOWN - c DOWN, bytes UP - c UP), Suc k2)
    \<and> bytes UP - c UP < 0
    \<and> predicted_state Handset_build pm datalen state (bytes UP - c UP) (bytes DOWN - c DOWN)
        = Ok MOBILE_POWER_STATE_DCH"
proof -
  obtain fire1 m1 k1 fire2 m2 k2 where u:
    "update_mobile_state pm e (0, c) False m k = Ok (0, fire1, m1, k1)"
    "update_mobile_state pm e (0, c') False m1 k1 = Ok (0, fire2, m2, k2)"
    "mobile_inv (tv_us (clock e k2)) m2" "mobile_last_bytes m2 = c" "mobile_last_delta_bytes m2 = (\<lambda>_. 0)"
    using sample_and_update [OF assms(1-10)] by blast
  then obtain diff where "TIMEDIFF (last_mobile_sample_time m2) (clock e k2) = Ok diff"
    using TIMEDIFF_Ok [of "last_mobile_sample_time m2" "clock e k2"] assms(2)
    by (auto simp: mobile_inv_def stamp_ok_def)
  moreover have in_range: "0 \<le> bytes x" "bytes x < 2 ^ 31" "0 \<le> c x" "c x < 2 ^ 31" for x
    using counts_okD [OF assms(4), of x] counts_okD [OF assms(11), of x] by simp_all
  then have "in_int (bytes x - c x)" for x by (intro in_int_diff)
  moreover have "c DOWN \<noteq> - 1" using in_range(3) [of DOWN] by simp
  ultimately have "get_mobile_queue_len_locked e (0, bytes) m2 k2
      = Ok ((bytes DOWN - c DOWN, bytes UP - c UP), Suc k2)"
    using size_sum_roundtrip [of 0] u(4,5) by (simp add: get_mobile_queue_len_locked_def Let_def)
  moreover have "- (2 ^ 31) < bytes x - c x" for x using in_range(1,4) [of x] by linarith
  then have "predicted_state Handset_build pm datalen state (bytes UP - c UP) (bytes DOWN - c DOWN)
      = Ok MOBILE_POWER_STATE_DCH"
    using assms(12,13) by (intro negative_queue_is_DCH [OF assms(1)]) simp_all
  moreover have "bytes UP - c UP < 0" using assms(13) uint_ge_0 [of datalen] by linarith
  ultimately show ?thesis using u(1,2) by blast
qed

lemma stale_queue_witness:
  "\<exists>f1 m1 k1 f2 m2 k2. update_mobile_state nexus_one (ticking 0) (0, \<lambda>_. 5000) False sampled_once 0 = Ok (0, f1, m1, k1)
    \<and> update_mobile_state nexus_one (ticking 0) (0, \<lambda>_. 5000) False m1 k1 = Ok (0, f2, m2, k2)
    \<and> get_mobile_queue_len_locked (ticking 0) (0, \<lambda>_. 0) m2 k2 = Ok ((- 5000, - 5000), Suc k2)"
proof -
  have "mobile_inv (tv_us (clock (ticking 0) 0)) sampled_once" by (simp add: tv_us_def)
  from stale_queue [where state = MOBILE_POWER_STATE_IDLE and dir = UP and c = "\<lambda>_. 5000"
      and c' = "\<lambda>_. 5000" and bytes = "\<lambda>_. 0" and datalen = 1000, OF nexus_one_ok _ this]
  show ?thesis by (auto simp: counts_ok_def tv_us_def timerclear_def)
qed

end
