(* ===== verification/Handset_Threads.thy ===== *)
theory Handset_Threads
  imports Races Sections
begin

text \<open>
  A handset with any number of threads: the functions of \<^verbatim>\<open>libpowertutor.cpp\<close> that access the
  model of the cellular radio, each under \<open>mobile_state_lock\<close>, cut into steps. They
  interpret the locale of \<open>Sections\<close>, so every interleaving is a sequential run of the operations of
  \<open>Mobile_State\<close>, \<open>Estimate\<close> and \<open>Races\<close>.

  A call of \<open>update_mobile_state\<close> or \<open>get_mobile_queue_len\<close> carries the counters it has read before it
  takes the lock; \<open>reset_stats\<close>, which writes variables of the radio without it, is not among the calls
  (\<open>reset_race_radio\<close> shows what its writes can do to an update).
  Every update adds one to a counter of type int, so the number of steps is bounded.
\<close>

subsection \<open>The sections\<close>

datatype handset_call =
    Handset_update "Direction \<Rightarrow> int" | Handset_queues int "Direction \<Rightarrow> int" | Handset_state | Handset_idle
  | Handset_fraction MobileState | Handset_average MobileState

datatype handset_reply =
    Handset_updated bool | Handset_queued int int | Handset_in_state MobileState | Handset_idle_for double
  | Handset_fraction_is double | Handset_average_is double

text \<open>Points of the functions: what a thread has in its local variables.\<close>

datatype sample_point =
    Sample_begins "Direction \<Rightarrow> int" | Sample_has_time "Direction \<Rightarrow> int" MobileState timeval
  | Sample_due "Direction \<Rightarrow> int" MobileState timeval timeval
  | Sample_moved bool bool MobileState timeval | Sample_accounted bool | Sample_has_activity bool timeval
  | Sample_has_idle bool double

datatype length_point = Length_begins int "Direction \<Rightarrow> int" | Length_has_time int "Direction \<Rightarrow> int" timeval

datatype quiet_point = Quiet_begins | Quiet_has_activity timeval

datatype fraction_point =
    Fraction_begins MobileState | Fraction_has_total MobileState timeval
  | Fraction_has_change MobileState timeval timeval timeval
  | Fraction_has_state MobileState timeval timeval timeval

datatype average_point = Average_begins MobileState | Average_has_sum MobileState double

text \<open>The functions from one access to the next, in the order of the code, each from its lock on.\<close>

fun update_mobile_state_section ::
  "PowerModel \<Rightarrow> env \<Rightarrow> sample_point \<Rightarrow> mobile_vars \<times> nat
   \<Rightarrow> ((sample_point + handset_reply) \<times> mobile_vars \<times> nat) result" where
  "update_mobile_state_section pm e (Sample_begins bytes) (m, k) =
     Ok (Inl (Sample_has_time bytes (mobile_state m) (clock e k)), m, Suc k)"
| "update_mobile_state_section pm e (Sample_has_time bytes last_state now) (m, k) =
     bind_r (TIMEDIFF (last_mobile_sample_time m) now) (\<lambda>time_since_last_sample.
     Ok (Inl (Sample_due bytes last_state now time_since_last_sample), m, k))"
| "update_mobile_state_section pm e (Sample_due bytes last_state now time_since_last_sample) (m, k) =
     bind_r
       (if tv_sec time_since_last_sample \<ge> 1
           \<and> (bytes DOWN > mobile_last_bytes m DOWN \<or> bytes UP > mobile_last_bytes m UP)
        then sample_activity pm e bytes m k
        else check_timeouts pm e m k) (\<lambda>(state_change, mobile_activity, m, k).
     Ok (Inl (Sample_moved state_change mobile_activity last_state now), m, k))"
| "update_mobile_state_section pm e (Sample_moved state_change mobile_activity last_state now) (m, k) =
     bind_r (if state_change then account_state_change e last_state now m k else Ok (m, k)) (\<lambda>(m, k).
     Ok (Inl (Sample_accounted mobile_activity), m, k))"
| "update_mobile_state_section pm e (Sample_accounted mobile_activity) (m, k) =
     Ok (Inl (Sample_has_activity mobile_activity (last_mobile_activity m)), m, k)"
| "update_mobile_state_section pm e (Sample_has_activity mobile_activity activity) (m, k) =
     bind_r (time_since e activity k) (\<lambda>(last_idle_duration, k).
     Ok (Inl (Sample_has_idle mobile_activity last_idle_duration), m, k))"
| "update_mobile_state_section pm e (Sample_has_idle mobile_activity last_idle_duration) (m, k) =
     bind_r (update_idle_duration_for_state (mobile_state m) last_idle_duration m) (\<lambda>m.
     Ok (Inr (Handset_updated mobile_activity), m, k))"

fun handset_queue_len_section ::
  "env \<Rightarrow> length_point \<Rightarrow> mobile_vars \<times> nat \<Rightarrow> ((length_point + handset_reply) \<times> mobile_vars \<times> nat) result" where
  "handset_queue_len_section e (Length_begins rc bytes) (m, k) =
     Ok (Inl (Length_has_time rc bytes (clock e k)), m, Suc k)"
| "handset_queue_len_section e (Length_has_time rc bytes now) (m, k) =
     bind_r (TIMEDIFF (last_mobile_sample_time m) now) (\<lambda>_.
     let down_bytes = size_of_int (mobile_last_delta_bytes m DOWN);
         up_bytes = size_of_int (mobile_last_delta_bytes m UP) in
     bind_r
       (if rc = 0 \<and> mobile_last_bytes m DOWN \<noteq> - 1 then
          bind_r (c_int (bytes DOWN - mobile_last_bytes m DOWN)) (\<lambda>down.
          bind_r (c_int (bytes UP - mobile_last_bytes m UP)) (\<lambda>up. Ok (down, up)))
        else Ok (0, 0)) (\<lambda>(recent_down, recent_up).
     let down_bytes = down_bytes + size_of_int recent_down;
         up_bytes = up_bytes + size_of_int recent_up in
     Ok (Inr (Handset_queued (int_of_size down_bytes) (int_of_size up_bytes)), m, k)))"

fun handset_idle_section ::
  "env \<Rightarrow> quiet_point \<Rightarrow> mobile_vars \<times> nat \<Rightarrow> ((quiet_point + handset_reply) \<times> mobile_vars \<times> nat) result" where
  "handset_idle_section e Quiet_begins (m, k) = Ok (Inl (Quiet_has_activity (last_mobile_activity m)), m, k)"
| "handset_idle_section e (Quiet_has_activity activity) (m, k) =
     bind_r (time_since e activity k) (\<lambda>(idle_time, k). Ok (Inr (Handset_idle_for idle_time), m, k))"

fun time_fraction_in_state_section ::
  "env \<Rightarrow> fraction_point \<Rightarrow> mobile_vars \<times> nat \<Rightarrow> ((fraction_point + handset_reply) \<times> mobile_vars \<times> nat) result" where
  "time_fraction_in_state_section e (Fraction_begins st) (m, k) =
     bind_r (total_time_loop m mobile_states timerclear) (\<lambda>total_time.
     Ok (Inl (Fraction_has_total st total_time), m, k))"
| "time_fraction_in_state_section e (Fraction_has_total st total_time) (m, k) =
     bind_r (TIMEDIFF (last_mobile_state_change m) (clock e k)) (\<lambda>mobile_state_duration.
     Ok (Inl (Fraction_has_change st total_time (time_in_mobile_state m st) mobile_state_duration), m, Suc k))"
| "time_fraction_in_state_section e (Fraction_has_change st total_time time_in_state mobile_state_duration) (m, k) =
     bind_r
       (if st = mobile_state m then timeradd time_in_state mobile_state_duration
        else Ok time_in_state) (\<lambda>time_in_state.
     Ok (Inl (Fraction_has_state st total_time time_in_state mobile_state_duration), m, k))"
| "time_fraction_in_state_section e (Fraction_has_state st total_time time_in_state mobile_state_duration) (m, k) =
     bind_r (timeradd total_time mobile_state_duration) (\<lambda>total_time.
     Ok (Inr (Handset_fraction_is (divide (convert_to_seconds time_in_state) (convert_to_seconds total_time))), m, k))"

fun average_idle_duration_section ::
  "average_point \<Rightarrow> mobile_vars \<times> nat \<Rightarrow> ((average_point + handset_reply) \<times> mobile_vars \<times> nat) result" where
  "average_idle_duration_section (Average_begins st) (m, k) =
     Ok (Inl (Average_has_sum st (idle_durations_per_state m st)), m, k)"
| "average_idle_duration_section (Average_has_sum st durations) (m, k) =
     Ok (Inr (Handset_average_is (divide durations (d_of_int (idle_duration_update_counts m st)))), m, k)"

text \<open>All of them. \<open>get_mobile_state\<close> reads one variable.\<close>

datatype handset_point =
    In_sample sample_point | In_length length_point | In_phase | In_quiet quiet_point
  | In_fraction fraction_point | In_average average_point

fun handset_begins :: "handset_call \<Rightarrow> handset_point" where
  "handset_begins (Handset_update bytes) = In_sample (Sample_begins bytes)"
| "handset_begins (Handset_queues rc bytes) = In_length (Length_begins rc bytes)"
| "handset_begins Handset_state = In_phase"
| "handset_begins Handset_idle = In_quiet Quiet_begins"
| "handset_begins (Handset_fraction st) = In_fraction (Fraction_begins st)"
| "handset_begins (Handset_average st) = In_average (Average_begins st)"

fun handset_step ::
  "PowerModel \<Rightarrow> env \<Rightarrow> handset_point \<Rightarrow> mobile_vars \<times> nat
   \<Rightarrow> ((handset_point + handset_reply) \<times> mobile_vars \<times> nat) result" where
  "handset_step pm e (In_sample p) s = in_section In_sample (update_mobile_state_section pm e p s)"
| "handset_step pm e (In_length p) s = in_section In_length (handset_queue_len_section e p s)"
| "handset_step pm e In_phase (m, k) = Ok (Inr (Handset_in_state (mobile_state m)), m, k)"
| "handset_step pm e (In_quiet p) s = in_section In_quiet (handset_idle_section e p s)"
| "handset_step pm e (In_fraction p) s = in_section In_fraction (time_fraction_in_state_section e p s)"
| "handset_step pm e (In_average p) s = in_section In_average (average_idle_duration_section p s)"

text \<open>The steps left at a point, but one.\<close>

fun handset_rank :: "handset_point \<Rightarrow> nat" where
  "handset_rank (In_sample (Sample_begins _)) = 6"
| "handset_rank (In_sample (Sample_has_time _ _ _)) = 5"
| "handset_rank (In_sample (Sample_due _ _ _ _)) = 4"
| "handset_rank (In_sample (Sample_moved _ _ _ _)) = 3"
| "handset_rank (In_sample (Sample_accounted _)) = 2"
| "handset_rank (In_sample (Sample_has_activity _ _)) = 1"
| "handset_rank (In_length (Length_begins _ _)) = 1"
| "handset_rank (In_quiet Quiet_begins) = 1"
| "handset_rank (In_fraction (Fraction_begins _)) = 3"
| "handset_rank (In_fraction (Fraction_has_total _ _)) = 2"
| "handset_rank (In_fraction (Fraction_has_change _ _ _ _)) = 1"
| "handset_rank (In_average (Average_begins _)) = 1"
| "handset_rank _ = 0"

subsection \<open>The operations\<close>

text \<open>What the sections are, without interruption: the functions of the sequential model.\<close>

fun handset_effect ::
  "PowerModel \<Rightarrow> env \<Rightarrow> handset_call \<Rightarrow> mobile_vars \<times> nat \<Rightarrow> (handset_reply \<times> mobile_vars \<times> nat) result" where
  "handset_effect pm e (Handset_update bytes) (m, k) =
     bind_r (update_mobile_state pm e (0, bytes) False m k) (\<lambda>(rc, fire, m, k). Ok (Handset_updated fire, m, k))"
| "handset_effect pm e (Handset_queues rc bytes) (m, k) =
     bind_r (get_mobile_queue_len_locked e (rc, bytes) m k) (\<lambda>((down, up), k). Ok (Handset_queued down up, m, k))"
| "handset_effect pm e Handset_state (m, k) =
     bind_r (get_mobile_state Handset_build (power_tutor_init\<lparr>lib_mobile := m\<rparr>)) (\<lambda>state.
     Ok (Handset_in_state state, m, k))"
| "handset_effect pm e Handset_idle (m, k) =
     bind_r (time_since_last_mobile_activity Handset_build e (power_tutor_init\<lparr>lib_mobile := m\<rparr>) k) (\<lambda>(idle, k).
     Ok (Handset_idle_for idle, m, k))"
| "handset_effect pm e (Handset_fraction st) (m, k) =
     bind_r (time_fraction_in_state e st m k) (\<lambda>(fraction, k). Ok (Handset_fraction_is fraction, m, k))"
| "handset_effect pm e (Handset_average st) (m, k) =
     Ok (Handset_average_is (average_idle_duration_for_state st m), m, k)"

fun handset_allowed :: "handset_call \<Rightarrow> bool" where
  "handset_allowed (Handset_update bytes) = counts_ok bytes"
| "handset_allowed (Handset_queues rc bytes) = (rc = 0 \<longrightarrow> counts_ok bytes)"
| "handset_allowed _ = True"

text \<open>The invariant, with room for \<open>n\<close> more updates in the counters of type int.\<close>

definition handset_room :: "env \<Rightarrow> nat \<Rightarrow> mobile_vars \<times> nat \<Rightarrow> bool" where
  "handset_room e n s = (case s of (m, k) \<Rightarrow>
     mobile_inv (tv_us (clock e k)) m \<and> (\<forall>st. idle_duration_update_counts m st + int n < 2 ^ 31))"

lemma handset_forward:
  assumes "handset_step pm e p s = Ok (Inl p', s')"
  shows "handset_rank p' < handset_rank p"
proof -
  obtain m k where s: "s = (m, k)" by (cases s)
  note hints = in_section_Ok bind_r_eq_Ok Let_def
  show ?thesis
  proof (cases p)
    case (In_sample q)
    with assms s show ?thesis by (cases q) (auto simp: hints split: if_splits prod.splits)
  next
    case (In_length q)
    with assms s show ?thesis by (cases q) (auto simp: hints split: if_splits prod.splits)
  next
    case (In_quiet q)
    with assms s show ?thesis by (cases q) (auto simp: hints)
  next
    case (In_fraction q)
    with assms s show ?thesis by (cases q) (auto simp: hints)
  next
    case (In_average q)
    with assms s show ?thesis by (cases q) (auto simp: hints)
  qed (use assms s in simp)
qed

text \<open>The second half of an update, on variables that are not taken apart.\<close>

lemma update_section_pairs:
  "update_mobile_state_section pm e (Sample_moved change active last_state now) s =
     bind_r (if change then account_state_change e last_state now (fst s) (snd s) else Ok s) (\<lambda>s.
     Ok (Inl (Sample_accounted active), s))"
  "update_mobile_state_section pm e (Sample_accounted active) s =
     Ok (Inl (Sample_has_activity active (last_mobile_activity (fst s))), s)"
  "update_mobile_state_section pm e (Sample_has_activity active activity) s =
     bind_r (time_since e activity (snd s)) (\<lambda>x. Ok (Inl (Sample_has_idle active (fst x)), fst s, snd x))"
  "update_mobile_state_section pm e (Sample_has_idle active idle) s =
     bind_r (update_idle_duration_for_state (mobile_state (fst s)) idle (fst s)) (\<lambda>m.
     Ok (Inr (Handset_updated active), m, snd s))"
  by (cases s, simp add: split_def)+

lemma handset_whole:
  "run_section (handset_step pm e) (Suc (handset_rank (handset_begins c))) (handset_begins c) s
    = handset_effect pm e c s"
proof (cases s)
  case (Pair m k)
  show ?thesis
  proof (cases c)
    case (Handset_update bytes)
    have "(if b then True else False) = b" for b by simp
    with Handset_update show ?thesis
      by (simp add: Pair update_mobile_state_def eval_nat_numeral Let_def bind_r_assoc split_def
          update_section_pairs cong: if_cong)
  next
    case (Handset_queues rc bytes)
    then show ?thesis
      by (simp add: Pair get_mobile_queue_len_locked_def Let_def bind_r_assoc split_def)
  next
    case (Handset_fraction st)
    then show ?thesis
      by (simp add: Pair time_fraction_in_state_def state_and_total_time_def eval_nat_numeral Let_def
          bind_r_assoc split_def)
  qed (simp_all add: Pair get_mobile_state_def time_since_last_mobile_activity_def
      average_idle_duration_for_state_def power_model_is_remote_def bind_r_assoc split_def)
qed

subsection \<open>Every operation succeeds\<close>

text \<open>The replies of the reads, as the estimates need them.\<close>

fun handset_reply_ok :: "handset_reply \<Rightarrow> bool" where
  "handset_reply_ok (Handset_idle_for idle) = (Fin 0 \<le> idle)"
| "handset_reply_ok (Handset_fraction_is fraction) = (\<exists>q. fraction = Fin q \<and> 0 \<le> q \<and> q \<le> 1)"
| "handset_reply_ok (Handset_average_is average) = (Fin 0 \<le> average)"
| "handset_reply_ok _ = True"

text \<open>The idle times the updates have counted, over all states.\<close>

definition times_counted :: "mobile_vars \<Rightarrow> int" where
  "times_counted m = idle_duration_update_counts m MOBILE_POWER_STATE_IDLE
     + idle_duration_update_counts m MOBILE_POWER_STATE_FACH
     + idle_duration_update_counts m MOBILE_POWER_STATE_DCH"

fun is_update :: "handset_call \<Rightarrow> bool" where
  "is_update (Handset_update _) = True"
| "is_update _ = False"

lemma handset_room_later:
  assumes "steady e" "handset_room e (Suc n) (m, k)" "k \<le> j"
  shows "handset_room e n (m, j)"
proof -
  have "idle_duration_update_counts m st + int n < 2 ^ 31" for st
    using assms(2) by (auto simp: handset_room_def dest!: spec [of _ st])
  moreover have "mobile_inv (tv_us (clock e j)) m"
    using assms steady_mono [OF assms(1,3)] by (auto simp: handset_room_def intro: mobile_inv_mono)
  ultimately show ?thesis by (simp add: handset_room_def)
qed

lemma queue_len_locked_Ok:
  assumes "steady e" "stamp_ok (tv_us (clock e k)) (last_mobile_sample_time m)"
    and "mobile_last_bytes m = (\<lambda>_. - 1) \<or> counts_ok (mobile_last_bytes m)" "rc = 0 \<longrightarrow> counts_ok bytes"
  shows "\<exists>q. get_mobile_queue_len_locked e (rc, bytes) m k = Ok (q, Suc k)"
proof -
  obtain d where d: "TIMEDIFF (last_mobile_sample_time m) (clock e k) = Ok d"
    using TIMEDIFF_Ok [of "last_mobile_sample_time m" "clock e k"] assms(1,2) by (auto simp: stamp_ok_def)
  have "in_int (bytes i - mobile_last_bytes m i)" if "rc = 0 \<and> mobile_last_bytes m DOWN \<noteq> - 1" for i
    using that assms(3,4) by (auto dest!: counts_okD [of _ i] intro: in_int_diff)
  with d show ?thesis by (auto simp: get_mobile_queue_len_locked_def Let_def)
qed

lemma handset_returns:
  assumes "power_model pm" "steady e" "handset_allowed c" "handset_room e (Suc n) (m, k)"
  shows "\<exists>r m' j. handset_effect pm e c (m, k) = Ok (r, m', j) \<and> handset_room e n (m', j)
    \<and> handset_reply_ok r \<and> times_counted m' = times_counted m + (if is_update c then 1 else 0)"
proof -
  have inv: "mobile_inv (tv_us (clock e k)) m" using assms(4) by (simp add: handset_room_def)
  have counts: "idle_duration_update_counts m st + 1 + int n < 2 ^ 31" for st
    using assms(4) by (auto simp: handset_room_def dest!: spec [of _ st])
  have room: "handset_room e n (m, k)" "handset_room e n (m, Suc k)"
    using handset_room_later [OF assms(2,4)] by simp_all
  show ?thesis
  proof (cases c)
    case (Handset_update bytes)
    have "idle_duration_update_counts m st < 2 ^ 31 - 1" for st using counts [of st] by linarith
    then obtain m' j where u: "update_mobile_state pm e (0, bytes) False m k
        = Ok (0, (\<exists>x y. mobile_event e bytes m k = Some (Traffic x y)), m', j)"
      "mobile_inv (tv_us (clock e j)) m'" "updated_from pm e bytes m k m' j"
      using update_mobile_state_step [OF assms(1,2) inv, of bytes 0 False] assms(3) Handset_update by auto
    then have n: "idle_duration_update_counts m' st
        = idle_duration_update_counts m st + (if st = mobile_state m' then 1 else 0)" for st
      by (simp add: updated_from_def Let_def)
    have "idle_duration_update_counts m' st + int n < 2 ^ 31" for st
      using counts [of st] n [of st] by (simp split: if_splits)
    moreover have "times_counted m' = times_counted m + 1"
      by (cases "mobile_state m'") (simp_all add: times_counted_def n)
    ultimately show ?thesis using u(1,2) Handset_update by (simp add: handset_room_def)
  next
    case (Handset_queues rc bytes)
    then obtain q where "get_mobile_queue_len_locked e (rc, bytes) m k = Ok (q, Suc k)"
      using queue_len_locked_Ok [OF assms(2), of k m rc bytes] inv assms(3) by (auto simp: mobile_inv_def)
    then show ?thesis using Handset_queues room by (cases q) simp
  next
    case Handset_state
    then show ?thesis using room by (simp add: get_mobile_state_def power_model_is_remote_def)
  next
    case Handset_idle
    have "stamp_ok (tv_us (clock e k)) (last_mobile_activity m)" using inv by (simp add: mobile_inv_def)
    from time_since_stamp [OF assms(2) this] obtain dur where
      "valid_tv dur" "time_since e (last_mobile_activity m) k = Ok (convert_to_seconds dur, Suc k)" by auto
    then show ?thesis
      using Handset_idle room
      by (simp add: time_since_last_mobile_activity_def power_model_is_remote_def seconds_nonneg)
  next
    case (Handset_fraction st)
    then show ?thesis using time_fraction_Ok [OF assms(2) inv, of st] room by auto
  next
    case (Handset_average st)
    moreover have "idle_duration_update_counts m st < 2 ^ 31" using counts [of st] by linarith
    then have "Fin 0 \<le> average_idle_duration_for_state st m"
      using average_idle_nonneg [OF inv] by blast
    ultimately show ?thesis using room by simp
  qed
qed

interpretation handset_sections: critical_sections
  handset_begins "handset_step pm e" handset_rank "handset_effect pm e"
  "\<lambda>n s. power_model pm \<and> steady e \<and> handset_room e n s" handset_allowed for pm e
proof (unfold_locales, goal_cases)
  case (1 p s p' s')
  then show ?case by (rule handset_forward)
next
  case (2 c s)
  then show ?case by (rule handset_whole)
next
  case (3 n s)
  then show ?case using handset_room_later [of e n "fst s" "snd s" "snd s"] by (cases s) simp
next
  case (4 c n s)
  then show ?case using handset_returns [of pm e c n "fst s" "snd s"] by (cases s) auto
qed

subsection \<open>Sequential runs\<close>

lemma handset_sequential:
  assumes "power_model pm" "steady e" "handset_room e (n + length cs) (m, k)"
    and "\<forall>(t, c, reply) \<in> set cs. handset_allowed c" "sequential (handset_effect pm e) cs (m, k) (m', j)"
  shows "times_counted m' = times_counted m + int (length (filter (\<lambda>(t, c, reply). is_update c) cs))
    \<and> (\<forall>(t, c, reply) \<in> set cs. handset_reply_ok reply)"
  using assms(3-5)
proof (induction cs arbitrary: m k)
  case (Cons x cs)
  obtain t c reply where x: "x = (t, c, reply)" by (metis prod_cases3)
  have c: "handset_allowed c" using Cons.prems(2) x by simp
  have "handset_room e (Suc (n + length cs)) (m, k)" using Cons.prems(1) by simp
  from handset_returns [OF assms(1,2) c this] obtain r m1 i where
    1: "handset_effect pm e c (m, k) = Ok (r, m1, i)" "handset_room e (n + length cs) (m1, i)"
      "handset_reply_ok r" "times_counted m1 = times_counted m + (if is_update c then 1 else 0)" by blast
  then have "sequential (handset_effect pm e) cs (m1, i) (m', j)" "reply = r" using Cons.prems(3) x by auto
  with Cons.IH [OF 1(2)] Cons.prems(2) 1(3,4) x show ?case by simp
qed simp

lemma handset_room_init:
  assumes "steady e" "int n + 1 < 2 ^ 31"
  shows "handset_room e n (mobile_vars_init, 0)"
proof -
  have "0 \<le> tv_us (clock e 0)" using assms(1) steady_valid tv_us_nonneg by blast
  then show ?thesis
    using assms(2) mobile_inv_init by (simp add: handset_room_def mobile_vars_init_def)
qed

subsection \<open>What the lock does not do\<close>

text \<open>
  \<open>reset_stats\<close> does not take \<open>mobile_state_lock\<close>: between the reading of the time and its use in
  an update, it sets the time of the last sample to a later one, and the assertion of \<open>TIMEDIFF\<close> fails.
\<close>

theorem reset_race_radio:
  assumes "steady e" "tv_us (clock e k) < tv_us (clock e (k + 4))"
  shows "\<exists>p. handset_step pm e (In_sample (Sample_begins bytes)) (lib_mobile s, k) = Ok (Inl p, lib_mobile s, Suc k)
    \<and> (case reset_variables Handset_build e s (Suc k) of
        (s', j) \<Rightarrow> handset_step pm e p (lib_mobile s', j) = Fault Assertion_failed)"
proof -
  have "TIMEDIFF (clock e (k + 4)) (clock e k) = Fault Assertion_failed"
    using assms by (intro TIMEDIFF_back) simp_all
  moreover have "k + 4 = Suc (Suc (Suc (Suc k)))" by simp
  ultimately show ?thesis by (simp add: reset_variables_def Let_def)
qed

lemma reset_race_radio_witness:
  "\<exists>p. handset_step nexus_one (ticking 1) (In_sample (Sample_begins (\<lambda>_. 0))) (lib_mobile power_tutor_init, 0)
      = Ok (Inl p, lib_mobile power_tutor_init, Suc 0)
    \<and> (case reset_variables Handset_build (ticking 1) power_tutor_init (Suc 0) of
        (s', j) \<Rightarrow> handset_step nexus_one (ticking 1) p (lib_mobile s', j) = Fault Assertion_failed)"
  using reset_race_radio [of "ticking 1" 0 nexus_one "\<lambda>_. 0" power_tutor_init] steady_ticking [of 1]
  by (simp only: ticking_def) (simp add: tv_us_def)

text \<open>
  The sum of the idle times is not the time without activity: every update adds the whole time since the last
  activity, so the second of two updates in a quiet time adds the first time again.
\<close>

lemma idle_update:
  assumes "steady e" "stamp_ok (tv_us (clock e k)) (last_mobile_sample_time m)"
    "time_since e (last_mobile_activity m) (Suc k) = Ok (i, Suc (Suc k))"
    "time_since e (last_mobile_activity m) (Suc (Suc k)) = Ok (i', Suc (Suc (Suc k)))"
    and "mobile_state m = MOBILE_POWER_STATE_IDLE" "bytes = mobile_last_bytes m"
    and "in_int (idle_duration_update_counts m MOBILE_POWER_STATE_IDLE + 1)"
  shows "update_mobile_state pm e (0, bytes) False m k = Ok (0, False,
    m\<lparr>mobile_last_delta_bytes := (mobile_last_delta_bytes m)(DOWN := 0, UP := 0),
      idle_durations_per_state := (idle_durations_per_state m)
        (MOBILE_POWER_STATE_IDLE := idle_durations_per_state m MOBILE_POWER_STATE_IDLE + i'),
      idle_duration_update_counts := (idle_duration_update_counts m)
        (MOBILE_POWER_STATE_IDLE := idle_duration_update_counts m MOBILE_POWER_STATE_IDLE + 1)\<rparr>, Suc (Suc (Suc k)))"
proof -
  obtain d where "TIMEDIFF (last_mobile_sample_time m) (clock e k) = Ok d"
    using TIMEDIFF_Ok [of "last_mobile_sample_time m" "clock e k"] assms(1,2) by (auto simp: stamp_ok_def)
  then show ?thesis
    using assms(3-7) by (simp add: update_mobile_state_def check_timeouts_def update_idle_duration_for_state_def Let_def)
qed

theorem idle_time_counted_again:
  assumes "steady e" "stamp_ok (tv_us (clock e k)) (last_mobile_sample_time m)"
    and "stamp_ok (tv_us (clock e k)) (last_mobile_activity m)"
    and "mobile_state m = MOBILE_POWER_STATE_IDLE" "bytes = mobile_last_bytes m"
    and "1 \<le> idle_duration_update_counts m MOBILE_POWER_STATE_IDLE"
    and "idle_duration_update_counts m MOBILE_POWER_STATE_IDLE + 2 < 2 ^ 31"
  shows "\<exists>i1 i2 m1 m2. time_since e (last_mobile_activity m) (k + 2) = Ok (i1, k + 3)
    \<and> time_since e (last_mobile_activity m) (k + 5) = Ok (i2, k + 6)
    \<and> update_mobile_state pm e (0, bytes) False m k = Ok (0, False, m1, k + 3)
    \<and> update_mobile_state pm e (0, bytes) False m1 (k + 3) = Ok (0, False, m2, k + 6)
    \<and> idle_durations_per_state m2 MOBILE_POWER_STATE_IDLE
      = idle_durations_per_state m MOBILE_POWER_STATE_IDLE + i1 + i2"
proof -
  have le: "tv_us (clock e k) \<le> tv_us (clock e (k + j))" for j using steady_mono [OF assms(1)] by simp
  have since: "\<exists>i. time_since e (last_mobile_activity m) (k + j) = Ok (i, Suc (k + j))" for j
    using time_since_Ok [OF assms(1), of "last_mobile_activity m" "k + j"] assms(3) le [of j]
    by (force simp: stamp_ok_def)
  obtain i0 i1 i3 i2 where i: "time_since e (last_mobile_activity m) (k + 1) = Ok (i0, Suc (k + 1))"
    "time_since e (last_mobile_activity m) (k + 2) = Ok (i1, Suc (k + 2))"
    "time_since e (last_mobile_activity m) (k + 4) = Ok (i3, Suc (k + 4))"
    "time_since e (last_mobile_activity m) (k + 5) = Ok (i2, Suc (k + 5))"
    using since by metis
  have n: "in_int (idle_duration_update_counts m MOBILE_POWER_STATE_IDLE + 1)"
    "in_int (idle_duration_update_counts m MOBILE_POWER_STATE_IDLE + 1 + 1)"
    using assms(6,7) by (auto simp: in_int_def)
  define m1 where "m1 = m\<lparr>mobile_last_delta_bytes := (mobile_last_delta_bytes m)(DOWN := 0, UP := 0),
      idle_durations_per_state := (idle_durations_per_state m)
        (MOBILE_POWER_STATE_IDLE := idle_durations_per_state m MOBILE_POWER_STATE_IDLE + i1),
      idle_duration_update_counts := (idle_duration_update_counts m)
        (MOBILE_POWER_STATE_IDLE := idle_duration_update_counts m MOBILE_POWER_STATE_IDLE + 1)\<rparr>"
  have 1: "update_mobile_state pm e (0, bytes) False m k = Ok (0, False, m1, k + 3)"
    using idle_update [OF assms(1,2), of i0 i1 bytes pm] i(1,2) assms(4,5) n(1) by (simp add: m1_def eval_nat_numeral)
  have "stamp_ok (tv_us (clock e (k + 3))) (last_mobile_sample_time m1)"
    using stamp_ok_mono [OF assms(2) le] by (simp add: m1_def)
  from idle_update [OF assms(1) this, of i3 i2 bytes pm] i(3,4) assms(4,5) n(2) obtain m2 where
    "update_mobile_state pm e (0, bytes) False m1 (k + 3) = Ok (0, False, m2, k + 6)"
    "idle_durations_per_state m2 MOBILE_POWER_STATE_IDLE = idle_durations_per_state m MOBILE_POWER_STATE_IDLE + i1 + i2"
    by (simp add: m1_def eval_nat_numeral)
  with 1 i(2,4) show ?thesis by (simp add: eval_nat_numeral)
qed

lemma idle_time_counted_again_witness:
  "\<exists>i1 i2 m1 m2. time_since (ticking 1) (last_mobile_activity mobile_vars_init) (0 + 2) = Ok (i1, 0 + 3)
    \<and> time_since (ticking 1) (last_mobile_activity mobile_vars_init) (0 + 5) = Ok (i2, 0 + 6)
    \<and> update_mobile_state nexus_one (ticking 1) (0, \<lambda>_. - 1) False mobile_vars_init 0 = Ok (0, False, m1, 0 + 3)
    \<and> update_mobile_state nexus_one (ticking 1) (0, \<lambda>_. - 1) False m1 (0 + 3) = Ok (0, False, m2, 0 + 6)
    \<and> idle_durations_per_state m2 MOBILE_POWER_STATE_IDLE
      = idle_durations_per_state mobile_vars_init MOBILE_POWER_STATE_IDLE + i1 + i2"
proof (rule idle_time_counted_again)
  show "stamp_ok (tv_us (clock (ticking 1) 0)) (last_mobile_sample_time mobile_vars_init)"
    "stamp_ok (tv_us (clock (ticking 1) 0)) (last_mobile_activity mobile_vars_init)"
    using mobile_inv_init [of "tv_us (clock (ticking 1) 0)"] by (simp_all add: mobile_inv_def tv_us_def)
qed (simp_all add: mobile_vars_init_def)

subsection \<open>Properties\<close>

text \<open>
  C12: on a handset with any number of threads that call the functions which take \<open>mobile_state_lock\<close>
  (\<open>update_mobile_state\<close>, \<open>get_mobile_queue_len\<close>, \<open>get_mobile_state\<close>, \<open>time_since_last_mobile_activity\<close>,
  \<open>time_fraction_in_state\<close>, \<open>average_idle_duration_for_state\<close>), in any order and interrupted between any two
  steps, no step fails, and what the calls have answered is what a sequential run of the operations
  answers, in an order that keeps the order of every thread; when nobody holds the lock, the variables are as
  after this run. The invariant of the radio holds after it, as many idle times have been added to the averages as
  updates have been answered, and every fraction that was answered is in [0, 1], every idle time and every average
  is not negative. \<open>reset_stats\<close>, which writes these variables without the lock, is not among the calls: with it an
  update can abort (\<open>reset_race_radio\<close>).
\<close>

theorem handset_linearizable:
  assumes "power_model pm" "steady e" "\<forall>t. \<forall>c \<in> set (calls t). handset_allowed c" "int (length ts) + 1 < 2 ^ 31"
  shows "\<exists>x m k.
      section_schedule handset_begins (handset_step pm e) ts (sections_start (mobile_vars_init, 0) calls) = Ok x
    \<and> sequential (handset_effect pm e) (answered x) (mobile_vars_init, 0) (m, k)
    \<and> (section_lock x = None \<longrightarrow> shared x = (m, k))
    \<and> (\<forall>t. calls_of t (answered x) @ sections_left x t = calls t)
    \<and> mobile_inv (tv_us (clock e k)) m
    \<and> times_counted m = 3 + int (length (filter (\<lambda>(t, c, reply). is_update c) (answered x)))
    \<and> (\<forall>(t, c, reply) \<in> set (answered x). handset_reply_ok reply)"
proof -
  have room: "handset_room e (length ts) (mobile_vars_init, 0)"
    using handset_room_init [OF assms(2,4)] .
  with assms(1,2) have "power_model pm \<and> steady e \<and> handset_room e (length ts) (mobile_vars_init, 0)" by simp
  from handset_sections.linearizable [OF this assms(3)] obtain x m k where
    x: "section_schedule handset_begins (handset_step pm e) ts (sections_start (mobile_vars_init, 0) calls) = Ok x"
      "sequential (handset_effect pm e) (answered x) (mobile_vars_init, 0) (m, k)" "handset_room e 0 (m, k)"
      "section_lock x = None \<longrightarrow> shared x = (m, k)" "\<forall>t. calls_of t (answered x) @ sections_left x t = calls t"
    by auto
  have "length (answered x) \<le> length ts" using answered_length [OF x(1)] by (simp add: sections_start_def)
  then have "handset_room e ((length ts - length (answered x)) + length (answered x)) (mobile_vars_init, 0)"
    using room by simp
  moreover have "\<forall>(t, c, reply) \<in> set (answered x). handset_allowed c"
    using assms(3) x(5) calls_of_mem [of _ _ _ "answered x"]
    by (metis (mono_tags, lifting) Un_iff case_prodI2 set_append)
  ultimately have "times_counted m = times_counted mobile_vars_init
        + int (length (filter (\<lambda>(t, c, reply). is_update c) (answered x)))
      \<and> (\<forall>(t, c, reply) \<in> set (answered x). handset_reply_ok reply)"
    using handset_sequential [OF assms(1,2) _ _ x(2)] by blast
  moreover have "times_counted mobile_vars_init = 3" by (simp add: times_counted_def mobile_vars_init_def)
  ultimately show ?thesis using x by (auto simp: handset_room_def)
qed

text \<open>An update that a read tries to interrupt: the read waits.\<close>

definition update_and_read :: "thread \<Rightarrow> handset_call list" where
  "update_and_read t =
     (if t = 0 then [Handset_update (\<lambda>_. 200)]
      else if t = 1 then [Handset_fraction MOBILE_POWER_STATE_IDLE] else [])"

lemma handset_linearizable_witness:
  "\<exists>x m k. section_schedule handset_begins (handset_step nexus_one (ticking 1)) [0, 0, 1, 0, 0, 0, 0, 0, 0, 1, 1, 1, 1, 1]
      (sections_start (mobile_vars_init, 0) update_and_read) = Ok x
    \<and> sequential (handset_effect nexus_one (ticking 1)) (answered x) (mobile_vars_init, 0) (m, k)
    \<and> times_counted m = 3 + int (length (filter (\<lambda>(t, c, reply). is_update c) (answered x)))"
proof -
  have "\<forall>t. \<forall>c \<in> set (update_and_read t). handset_allowed c"
    by (simp add: update_and_read_def counts_ok_def)
  from handset_linearizable [OF nexus_one_ok steady_ticking this, of 1 "[0, 0, 1, 0, 0, 0, 0, 0, 0, 1, 1, 1, 1, 1]"]
  show ?thesis by (simp del: section_schedule.simps) blast
qed

end
