(* ===== verification/Stats_Threads.thy ===== *)
theory Stats_Threads
  imports Update Sections
begin

text \<open>
  The consumption statistics with any number of threads: the functions of \<^verbatim>\<open>libpowertutor.cpp\<close> that
  access them, from their first access to their last, under \<open>stats_lock\<close> or not.
  \<open>update_consumption_stats\<close> reads and writes \<open>last_update\<close> before it takes the lock; \<open>reset_stats\<close> writes it under the
  lock, and keeps the lock while it calls \<open>update_consumption_stats\<close> itself; the bytes of the last sample
  are read under the lock, but written without it at any moment. A \<open>+=\<close> is a read and a write.

  Where a function takes the lock and where it gives it back is part of its steps, so the exclusion is not built
  into the interleaving. Two failures are possible, the assertion of \<open>TIMEDIFF\<close> (the theory \<open>Races\<close> has such a run)
  and the lock taken twice (\<open>Update\<close> says when). A \<open>struct timeval\<close> is read and written in one step. The field
  \<open>stats_lock\<close> of the sequential model is not used: here the lock has an owner.

  The invariant \<open>booked\<close> says of every thread what holds at its point; \<open>ledger_on_time\<close> adds the times of a single
  updater. \<open>charge_alone_updates\<close> leads back to the sequential function.
\<close>

subsection \<open>The functions\<close>

text \<open>
  A charge carries the energies of the second, which \<open>update_consumption_stats\<close> computes from other variables
  before it takes the lock; so does a reset, for the charge inside it.
\<close>

datatype stats_call =
    Stats_charge "EnergyComponent \<Rightarrow> int" | Stats_reset "EnergyComponent \<Rightarrow> int" | Stats_energy EnergyComponent | Stats_bytes

datatype stats_reply =
    Stats_charged int | Stats_not_due | Stats_cleared | Stats_energy_is int | Stats_bytes_are int

text \<open>Points of the functions: the components a loop has still to visit, and what has been read.\<close>

datatype charging_point =
    Charge_enters | Charge_has_now timeval | Charge_is_due timeval | Charge_locks
  | Charge_adds "EnergyComponent list" | Charge_adds_to EnergyComponent int "EnergyComponent list"
  | Charge_has_down int | Charge_has_bytes int | Charge_adds_bytes int int | Charge_leaves int

datatype reset_point =
    Reset_locks | Reset_enters | Reset_has_time | Reset_fills "EnergyComponent list" | Reset_drops "Direction list"
  | Reset_updates charging_point | Reset_leaves

datatype since_reset_point =
    Energy_locks EnergyComponent | Energy_reads EnergyComponent | Bytes_locks | Bytes_reads | Report_leaves stats_reply

definition energy_components :: "EnergyComponent list" where
  "energy_components = [CPU, NETWORKING, ALL_ENERGY_COMPONENTS]"

text \<open>The statistics, the bytes of the last sample, and the position of the clock.\<close>

record stats_memory =
  statistics :: stats_vars
  last_deltas :: "Direction \<Rightarrow> int"
  clock_position :: nat

text \<open>
  What a step leads to: another point; the constructor of the scoped lock, before the next point; its destructor
  and the return; or a return without a lock.
\<close>

datatype ('p, 'r) next_point = Goes 'p | Locks 'p | Unlocks 'r | Returns 'r

type_synonym 'p stats_step = "('p, stats_reply) next_point \<times> stats_memory"

fun update_consumption_stats_steps ::
  "env \<Rightarrow> (EnergyComponent \<Rightarrow> int) \<Rightarrow> charging_point \<Rightarrow> stats_memory \<Rightarrow> charging_point stats_step result" where
  "update_consumption_stats_steps e this_second Charge_enters s =
     Ok (Goes (Charge_has_now (clock e (clock_position s))), s\<lparr>clock_position := Suc (clock_position s)\<rparr>)"
| "update_consumption_stats_steps e this_second (Charge_has_now now) s =
     bind_r (TIMEDIFF (last_update (statistics s)) now) (\<lambda>diff.
     if tv_sec diff \<le> 0 then Ok (Returns Stats_not_due, s) else Ok (Goes (Charge_is_due now), s))"
| "update_consumption_stats_steps e this_second (Charge_is_due now) s =
     Ok (Goes Charge_locks, s\<lparr>statistics := (statistics s)\<lparr>last_update := now\<rparr>\<rparr>)"
| "update_consumption_stats_steps e this_second Charge_locks s = Ok (Locks (Charge_adds energy_components), s)"
| "update_consumption_stats_steps e this_second (Charge_adds (i # is)) s =
     Ok (Goes (Charge_adds_to i (energy_consumed_mJ (statistics s) i) is), s)"
| "update_consumption_stats_steps e this_second (Charge_adds_to i energy is) s =
     bind_r (c_int (energy + this_second i)) (\<lambda>sum.
     Ok (Goes (Charge_adds is),
         s\<lparr>statistics := (statistics s)\<lparr>energy_consumed_mJ := (energy_consumed_mJ (statistics s))(i := sum)\<rparr>\<rparr>))"
| "update_consumption_stats_steps e this_second (Charge_adds []) s = Ok (Goes (Charge_has_down (last_deltas s DOWN)), s)"
| "update_consumption_stats_steps e this_second (Charge_has_down down) s =
     bind_r (c_int (down + last_deltas s UP)) (\<lambda>bytes. Ok (Goes (Charge_has_bytes bytes), s))"
| "update_consumption_stats_steps e this_second (Charge_has_bytes bytes) s =
     Ok (Goes (Charge_adds_bytes (mobile_data_consumed_bytes (statistics s)) bytes), s)"
| "update_consumption_stats_steps e this_second (Charge_adds_bytes consumed bytes) s =
     bind_r (c_int (consumed + bytes)) (\<lambda>sum.
     Ok (Goes (Charge_leaves bytes), s\<lparr>statistics := (statistics s)\<lparr>mobile_data_consumed_bytes := sum\<rparr>\<rparr>))"
| "update_consumption_stats_steps e this_second (Charge_leaves bytes) s = Ok (Unlocks (Stats_charged bytes), s)"

text \<open>
  \<open>reset_stats\<close> with the update it calls. Of the variables it clears these are the ones the functions here access;
  the samples that the update takes before the charge write \<open>last_deltas\<close>, as other samples do, at any moment. The position of
  the clock counts the readings of the functions here.
\<close>

fun reset_stats_steps ::
  "env \<Rightarrow> (EnergyComponent \<Rightarrow> int) \<Rightarrow> reset_point \<Rightarrow> stats_memory \<Rightarrow> reset_point stats_step result" where
  "reset_stats_steps e this_second Reset_locks s = Ok (Locks Reset_enters, s)"
| "reset_stats_steps e this_second Reset_enters s =
     Ok (Goes Reset_has_time, s\<lparr>statistics := (statistics s)\<lparr>last_reset := clock e (clock_position s)\<rparr>,
                               clock_position := Suc (clock_position s)\<rparr>)"
| "reset_stats_steps e this_second Reset_has_time s =
     Ok (Goes (Reset_fills energy_components),
         s\<lparr>statistics := (statistics s)\<lparr>last_update := last_reset (statistics s)\<rparr>\<rparr>)"
| "reset_stats_steps e this_second (Reset_fills (i # is)) s =
     Ok (Goes (Reset_fills is),
         s\<lparr>statistics := (statistics s)\<lparr>energy_consumed_mJ := (energy_consumed_mJ (statistics s))(i := 0)\<rparr>\<rparr>)"
| "reset_stats_steps e this_second (Reset_fills []) s =
     Ok (Goes (Reset_drops [UP, DOWN]), s\<lparr>statistics := (statistics s)\<lparr>mobile_data_consumed_bytes := 0\<rparr>\<rparr>)"
| "reset_stats_steps e this_second (Reset_drops (d # ds)) s =
     Ok (Goes (Reset_drops ds), s\<lparr>last_deltas := (last_deltas s)(d := 0)\<rparr>)"
| "reset_stats_steps e this_second (Reset_drops []) s = Ok (Goes (Reset_updates Charge_enters), s)"
| "reset_stats_steps e this_second (Reset_updates p) s =
     bind_r (update_consumption_stats_steps e this_second p s) (\<lambda>(next_p, s).
     Ok (case next_p of
           Goes q \<Rightarrow> Goes (Reset_updates q)
         | Locks q \<Rightarrow> Locks (Reset_updates q)
         | Unlocks _ \<Rightarrow> Goes Reset_leaves
         | Returns _ \<Rightarrow> Goes Reset_leaves, s))"
| "reset_stats_steps e this_second Reset_leaves s = Ok (Unlocks Stats_cleared, s)"

fun since_reset_steps :: "since_reset_point \<Rightarrow> stats_memory \<Rightarrow> since_reset_point stats_step result" where
  "since_reset_steps (Energy_locks component) s = Ok (Locks (Energy_reads component), s)"
| "since_reset_steps (Energy_reads component) s =
     Ok (Goes (Report_leaves (Stats_energy_is (energy_consumed_mJ (statistics s) component))), s)"
| "since_reset_steps Bytes_locks s = Ok (Locks Bytes_reads, s)"
| "since_reset_steps Bytes_reads s =
     Ok (Goes (Report_leaves (Stats_bytes_are (mobile_data_consumed_bytes (statistics s)))), s)"
| "since_reset_steps (Report_leaves reply) s = Ok (Unlocks reply, s)"

subsection \<open>Threads\<close>

datatype stats_point = In_charge charging_point | In_reset reset_point | In_since_reset since_reset_point

fun stats_begins :: "stats_call \<Rightarrow> stats_point" where
  "stats_begins (Stats_charge _) = In_charge Charge_enters"
| "stats_begins (Stats_reset _) = In_reset Reset_locks"
| "stats_begins (Stats_energy component) = In_since_reset (Energy_locks component)"
| "stats_begins Stats_bytes = In_since_reset Bytes_locks"

fun next_map :: "('p \<Rightarrow> 'q) \<Rightarrow> ('p, 'r) next_point \<Rightarrow> ('q, 'r) next_point" where
  "next_map f (Goes p) = Goes (f p)"
| "next_map f (Locks p) = Locks (f p)"
| "next_map f (Unlocks r) = Unlocks r"
| "next_map f (Returns r) = Returns r"

text \<open>A step of a call; a point of another function is not reached.\<close>

fun stats_step :: "env \<Rightarrow> stats_call \<Rightarrow> stats_point \<Rightarrow> stats_memory \<Rightarrow> stats_point stats_step result" where
  "stats_step e (Stats_charge this_second) (In_charge p) s =
     bind_r (update_consumption_stats_steps e this_second p s) (\<lambda>(q, s). Ok (next_map In_charge q, s))"
| "stats_step e (Stats_reset this_second) (In_reset p) s =
     bind_r (reset_stats_steps e this_second p s) (\<lambda>(q, s). Ok (next_map In_reset q, s))"
| "stats_step e c (In_since_reset p) s =
     bind_r (since_reset_steps p s) (\<lambda>(q, s). Ok (next_map In_since_reset q, s))"
| "stats_step e c p s = Fault Out_of_bounds"

record ledger =
  stats_memory_of :: stats_memory
  lock_holder :: "thread option"
  call_at :: "thread \<Rightarrow> stats_point option"
  calls_left :: "thread \<Rightarrow> stats_call list"
  answers :: "(thread \<times> stats_call \<times> stats_reply) list"

definition stats_returns :: "thread \<Rightarrow> stats_reply \<Rightarrow> ledger \<Rightarrow> ledger" where
  "stats_returns t reply x =
     x\<lparr>call_at := (call_at x)(t := None), calls_left := (calls_left x)(t := tl (calls_left x t)),
       answers := answers x @ [(t, hd (calls_left x t), reply)]\<rparr>"

definition ledger_step :: "env \<Rightarrow> thread \<Rightarrow> ledger \<Rightarrow> ledger result" where
  "ledger_step e t x =
     (case calls_left x t of
        [] \<Rightarrow> Ok x
      | c # _ \<Rightarrow>
          (case call_at x t of
             None \<Rightarrow> Ok (x\<lparr>call_at := (call_at x)(t := Some (stats_begins c))\<rparr>)
           | Some p \<Rightarrow>
               bind_r (stats_step e c p (stats_memory_of x)) (\<lambda>(next_p, s).
               case next_p of
                 Goes q \<Rightarrow> Ok (x\<lparr>stats_memory_of := s, call_at := (call_at x)(t := Some q)\<rparr>)
               | Locks q \<Rightarrow>
                   (case lock_holder x of
                      None \<Rightarrow> Ok (x\<lparr>stats_memory_of := s, lock_holder := Some t, call_at := (call_at x)(t := Some q)\<rparr>)
                    | Some u \<Rightarrow> if u = t then Fault Self_deadlock else Ok x)
               | Unlocks r \<Rightarrow>
                   if lock_holder x = Some t then Ok (stats_returns t r (x\<lparr>stats_memory_of := s, lock_holder := None\<rparr>))
                   else Fault Not_owner
               | Returns r \<Rightarrow> Ok (stats_returns t r (x\<lparr>stats_memory_of := s\<rparr>)))))"

text \<open>What may happen next: a step of a thread, or the model of the radio writes the bytes of a direction.\<close>

datatype ledger_action = Thread_steps thread | Sample_writes Direction int

fun ledger_run :: "env \<Rightarrow> ledger_action list \<Rightarrow> ledger \<Rightarrow> ledger result" where
  "ledger_run e [] x = Ok x"
| "ledger_run e (Thread_steps t # as) x = bind_r (ledger_step e t x) (ledger_run e as)"
| "ledger_run e (Sample_writes d n # as) x =
     ledger_run e as (x\<lparr>stats_memory_of := (stats_memory_of x)\<lparr>last_deltas := (last_deltas (stats_memory_of x))(d := n)\<rparr>\<rparr>)"

definition ledger_start :: "(thread \<Rightarrow> stats_call list) \<Rightarrow> ledger" where
  "ledger_start calls =
     \<lparr>stats_memory_of = \<lparr>statistics = stats_vars_init, last_deltas = (\<lambda>_. 0), clock_position = 0\<rparr>,
      lock_holder = None, call_at = (\<lambda>_. None), calls_left = calls, answers = []\<rparr>"

subsection \<open>One thread alone\<close>

text \<open>Without interruption the steps of a charge are \<open>update_consumption_stats\<close>.\<close>

fun charge_alone ::
  "env \<Rightarrow> (EnergyComponent \<Rightarrow> int) \<Rightarrow> nat \<Rightarrow> charging_point \<Rightarrow> stats_memory \<Rightarrow> (stats_reply \<times> stats_memory) result" where
  "charge_alone e this_second 0 p s = Fault Out_of_bounds"
| "charge_alone e this_second (Suc n) p s =
     bind_r (update_consumption_stats_steps e this_second p s) (\<lambda>(next_p, s).
     case next_p of
       Goes q \<Rightarrow> charge_alone e this_second n q s
     | Locks q \<Rightarrow> charge_alone e this_second n q s
     | Unlocks r \<Rightarrow> Ok (r, s)
     | Returns r \<Rightarrow> Ok (r, s))"

theorem charge_alone_updates:
  fixes b pm e s k
  defines "st \<equiv> lib_stats s"
  defines "s' \<equiv> s\<lparr>lib_stats := st\<lparr>last_update := clock e k\<rparr>\<rparr>"
  assumes "\<not> stats_lock st" "TIMEDIFF (last_update st) (clock e k) = Ok diff"
    and "0 < tv_sec diff \<Longrightarrow> consumption_this_second b pm e s' (Suc k) = Ok (this_second, s'\<lparr>lib_cpu := cpu\<rparr>)"
  shows "update_consumption_stats b pm e s k =
    bind_r (charge_alone e this_second 15 Charge_enters
      \<lparr>statistics = st, last_deltas = mobile_last_delta_bytes (lib_mobile s), clock_position = k\<rparr>)
    (\<lambda>(reply, m). Ok (s\<lparr>lib_cpu := if reply = Stats_not_due then lib_cpu s else cpu,
        lib_stats := statistics m\<rparr>, clock_position m))"
proof -
  have lock: "release_stats_lock (st\<lparr>last_update := l, stats_lock := True, energy_consumed_mJ := a, mobile_data_consumed_bytes := c\<rparr>)
      = st\<lparr>last_update := l, energy_consumed_mJ := a, mobile_data_consumed_bytes := c\<rparr>" for a c l
    using assms(3) by (simp add: release_stats_lock_def)
  show ?thesis
  proof (cases "tv_sec diff \<le> 0")
    case True
    then show ?thesis
      using assms(4) by (simp add: update_consumption_stats_def st_def eval_nat_numeral)
  next
    case False
    then show ?thesis
      using assms(3-5) lock
      by (auto simp: update_consumption_stats_def st_def s'_def acquire_stats_lock_def eval_nat_numeral
          energy_components_def add_energy_def bind_r_assoc Let_def intro!: bind_r_cong)
  qed
qed

subsection \<open>The charges since the last reset\<close>

text \<open>
  The abstract statistics: the charges, each with its energies and the bytes it has read, in a list which a reset
  empties.
\<close>

type_synonym charges = "((EnergyComponent \<Rightarrow> int) \<times> int) list"

fun add_charge :: "stats_call \<Rightarrow> stats_reply \<Rightarrow> charges \<Rightarrow> charges" where
  "add_charge (Stats_charge this_second) (Stats_charged bytes) charges = (this_second, bytes) # charges"
| "add_charge (Stats_reset _) reply charges = []"
| "add_charge _ _ charges = charges"

definition charges_of :: "(thread \<times> stats_call \<times> stats_reply) list \<Rightarrow> charges" where
  "charges_of cs = fold (\<lambda>(t, c, reply). add_charge c reply) cs []"

definition energy_charged :: "charges \<Rightarrow> EnergyComponent \<Rightarrow> int" where
  "energy_charged charges component = (\<Sum>(this_second, bytes) \<leftarrow> charges. this_second component)"

definition bytes_charged :: "charges \<Rightarrow> int" where
  "bytes_charged charges = (\<Sum>(this_second, bytes) \<leftarrow> charges. bytes)"

text \<open>What a call answers when \<open>charges\<close> are the charges before it.\<close>

fun stats_answer :: "charges \<Rightarrow> stats_call \<Rightarrow> stats_reply \<Rightarrow> bool" where
  "stats_answer charges (Stats_charge _) reply \<longleftrightarrow>
     (case reply of Stats_charged _ \<Rightarrow> True | Stats_not_due \<Rightarrow> True | _ \<Rightarrow> False)"
| "stats_answer charges (Stats_reset _) reply \<longleftrightarrow> reply = Stats_cleared"
| "stats_answer charges (Stats_energy component) reply \<longleftrightarrow> reply = Stats_energy_is (energy_charged charges component)"
| "stats_answer charges Stats_bytes reply \<longleftrightarrow> reply = Stats_bytes_are (bytes_charged charges)"

fun stats_answers :: "charges \<Rightarrow> (thread \<times> stats_call \<times> stats_reply) list \<Rightarrow> bool" where
  "stats_answers charges [] \<longleftrightarrow> True"
| "stats_answers charges ((t, c, reply) # cs) \<longleftrightarrow>
     stats_answer charges c reply \<and> stats_answers (add_charge c reply charges) cs"

definition implements :: "charges \<Rightarrow> stats_vars \<Rightarrow> bool" where
  "implements charges st \<longleftrightarrow> (\<forall>i. energy_consumed_mJ st i = energy_charged charges i)
     \<and> mobile_data_consumed_bytes st = bytes_charged charges"

lemma charged_simps [simp]:
  "energy_charged [] i = 0" "bytes_charged [] = 0"
  "energy_charged ((n, b) # charges) i = n i + energy_charged charges i"
  "bytes_charged ((n, b) # charges) = b + bytes_charged charges"
  by (simp_all add: energy_charged_def bytes_charged_def)

lemma charges_of_simps [simp]:
  "charges_of [] = []" "charges_of (cs @ [(t, c, r)]) = add_charge c r (charges_of cs)"
  by (simp_all add: charges_of_def)

lemma stats_answers_snoc:
  "stats_answers (charges_of bs) cs \<Longrightarrow> stats_answer (charges_of (bs @ cs)) c r \<Longrightarrow> stats_answers (charges_of bs) (cs @ [(t, c, r)])"
proof (induction cs arbitrary: bs)
  case (Cons x cs)
  obtain u d q where x: "x = (u, d, q)" by (cases x)
  from Cons.IH [of "bs @ [x]"] Cons.prems show ?case by (simp add: x)
qed simp

text \<open>
  A second of at most \<open>mJ\<close> in each component, whose total is right, as \<open>update_consumption_stats\<close> computes it
  (\<open>charge_of_range\<close>, \<open>charge_of_total\<close>).
\<close>

definition sound_second :: "int \<Rightarrow> (EnergyComponent \<Rightarrow> int) \<Rightarrow> bool" where
  "sound_second mJ this_second \<longleftrightarrow> (\<forall>i. \<bar>this_second i\<bar> \<le> mJ)
     \<and> this_second ALL_ENERGY_COMPONENTS = this_second CPU + this_second NETWORKING"

fun sound_call :: "int \<Rightarrow> stats_call \<Rightarrow> bool" where
  "sound_call mJ (Stats_charge this_second) = sound_second mJ this_second"
| "sound_call mJ _ = True"

definition sound_charges :: "int \<Rightarrow> int \<Rightarrow> charges \<Rightarrow> bool" where
  "sound_charges mJ B charges \<longleftrightarrow> (\<forall>(this_second, bytes) \<in> set charges. sound_second mJ this_second \<and> \<bar>bytes\<bar> \<le> 2 * B)"

lemma sound_charges_bounds:
  assumes "sound_charges mJ B charges"
  shows "\<bar>energy_charged charges i\<bar> \<le> int (length charges) * mJ"
    "\<bar>bytes_charged charges\<bar> \<le> int (length charges) * (2 * B)"
    "energy_charged charges ALL_ENERGY_COMPONENTS = energy_charged charges CPU + energy_charged charges NETWORKING"
proof -
  have "\<bar>energy_charged charges i\<bar> \<le> int (length charges) * mJ \<and> \<bar>bytes_charged charges\<bar> \<le> int (length charges) * (2 * B)
    \<and> energy_charged charges ALL_ENERGY_COMPONENTS = energy_charged charges CPU + energy_charged charges NETWORKING"
    using assms
  proof (induction charges)
    case (Cons x charges)
    obtain n b where x: "x = (n, b)" by (cases x)
    with Cons.prems have n: "\<bar>n i\<bar> \<le> mJ" "\<bar>b\<bar> \<le> 2 * B" "n ALL_ENERGY_COMPONENTS = n CPU + n NETWORKING"
      "sound_charges mJ B charges"
      by (auto simp: sound_charges_def sound_second_def)
    have "int (length (x # charges)) * m = m + int (length charges) * m" for m by (simp add: algebra_simps)
    with Cons.IH [OF n(4)] n(1-3) x show ?case by (simp only: charged_simps) linarith
  qed (simp add: sound_charges_def)
  then show "\<bar>energy_charged charges i\<bar> \<le> int (length charges) * mJ"
    "\<bar>bytes_charged charges\<bar> \<le> int (length charges) * (2 * B)"
    "energy_charged charges ALL_ENERGY_COMPONENTS = energy_charged charges CPU + energy_charged charges NETWORKING" by blast+
qed

text \<open>Room for one more charge.\<close>

definition charges_fit :: "int \<Rightarrow> int \<Rightarrow> nat \<Rightarrow> bool" where
  "charges_fit mJ B n \<longleftrightarrow> 0 \<le> mJ \<and> 0 \<le> B \<and> int (Suc n) * mJ < 2 ^ 31 \<and> int (Suc n) * (2 * B) < 2 ^ 31"

lemma one_more_fits:
  assumes "sound_charges mJ B charges" "length charges \<le> n" "charges_fit mJ B n"
  shows "\<bar>m\<bar> \<le> mJ \<Longrightarrow> in_int (energy_charged charges i + m)"
    and "\<bar>b\<bar> \<le> 2 * B \<Longrightarrow> in_int (bytes_charged charges + b) \<and> in_int b"
proof -
  have le: "int (length charges) * mJ \<le> int n * mJ" "int (length charges) * (2 * B) \<le> int n * (2 * B)"
    using assms(2,3) by (simp_all add: charges_fit_def mult_right_mono)
  have Suc: "int (Suc n) * k = k + int n * k" for k by (simp add: algebra_simps)
  have nn: "0 \<le> int n * (2 * B)" using assms(3) by (simp add: charges_fit_def)
  note b = sound_charges_bounds [OF assms(1)]
  have top: "mJ + int n * mJ < 2 ^ 31" "2 * B + int n * (2 * B) < 2 ^ 31"
    using assms(3) unfolding charges_fit_def Suc by blast+
  show "in_int (energy_charged charges i + m)" if "\<bar>m\<bar> \<le> mJ"
  proof -
    have "\<bar>energy_charged charges i + m\<bar> < 2 ^ 31" using b(1) [of i] le(1) top(1) that by linarith
    then show ?thesis by (auto simp: in_int_def)
  qed
  show "in_int (bytes_charged charges + b) \<and> in_int b" if "\<bar>b\<bar> \<le> 2 * B"
  proof -
    have "\<bar>bytes_charged charges + b\<bar> < 2 ^ 31" "\<bar>b\<bar> < 2 ^ 31" using b(2) le(2) top(2) nn that by linarith+
    then show ?thesis by (auto simp: in_int_def)
  qed
qed

subsection \<open>What holds at each point\<close>

text \<open>
  Without the lock only the times matter; with it, the variables are the sums of \<open>charges\<close> up to what the call has
  done so far.
\<close>

fun charge_outside :: "charging_point \<Rightarrow> bool" where
  "charge_outside Charge_enters = True"
| "charge_outside (Charge_has_now now) = valid_tv now"
| "charge_outside (Charge_is_due now) = valid_tv now"
| "charge_outside Charge_locks = True"
| "charge_outside _ = False"

text \<open>The second \<open>this_second\<close> has been added in all components but \<open>is\<close>.\<close>

definition partly_charged ::
  "charges \<Rightarrow> (EnergyComponent \<Rightarrow> int) \<Rightarrow> EnergyComponent list \<Rightarrow> stats_vars \<Rightarrow> bool" where
  "partly_charged charges this_second is st \<longleftrightarrow> distinct is
     \<and> (\<forall>j. energy_consumed_mJ st j = energy_charged charges j + (if j \<in> set is then 0 else this_second j))
     \<and> mobile_data_consumed_bytes st = bytes_charged charges"

fun charge_inside ::
  "int \<Rightarrow> charges \<Rightarrow> (EnergyComponent \<Rightarrow> int) \<Rightarrow> charging_point \<Rightarrow> stats_vars \<Rightarrow> bool" where
  "charge_inside B charges this_second (Charge_adds is) st = partly_charged charges this_second is st"
| "charge_inside B charges this_second (Charge_adds_to i energy is) st \<longleftrightarrow>
     partly_charged charges this_second (i # is) st \<and> energy = energy_consumed_mJ st i"
| "charge_inside B charges this_second (Charge_has_down down) st \<longleftrightarrow>
     partly_charged charges this_second [] st \<and> \<bar>down\<bar> \<le> B"
| "charge_inside B charges this_second (Charge_has_bytes bytes) st \<longleftrightarrow>
     partly_charged charges this_second [] st \<and> \<bar>bytes\<bar> \<le> 2 * B"
| "charge_inside B charges this_second (Charge_adds_bytes consumed bytes) st \<longleftrightarrow>
     partly_charged charges this_second [] st \<and> \<bar>bytes\<bar> \<le> 2 * B \<and> consumed = mobile_data_consumed_bytes st"
| "charge_inside B charges this_second (Charge_leaves bytes) st \<longleftrightarrow>
     implements ((this_second, bytes) # charges) st \<and> \<bar>bytes\<bar> \<le> 2 * B"
| "charge_inside B charges this_second _ st = False"

fun reset_inside :: "charges \<Rightarrow> reset_point \<Rightarrow> stats_vars \<Rightarrow> bool" where
  "reset_inside charges Reset_locks st = False"
| "reset_inside charges Reset_enters st = implements charges st"
| "reset_inside charges Reset_has_time st = implements charges st"
| "reset_inside charges (Reset_fills is) st = (\<forall>j. j \<notin> set is \<longrightarrow> energy_consumed_mJ st j = 0)"
| "reset_inside charges (Reset_drops ds) st = implements [] st"
| "reset_inside charges (Reset_updates p) st = (implements [] st \<and> charge_outside p)"
| "reset_inside charges Reset_leaves st = implements [] st"

fun report_inside :: "charges \<Rightarrow> stats_call \<Rightarrow> since_reset_point \<Rightarrow> stats_vars \<Rightarrow> bool" where
  "report_inside charges c (Energy_reads component) st = (implements charges st \<and> c = Stats_energy component)"
| "report_inside charges c Bytes_reads st = (implements charges st \<and> c = Stats_bytes)"
| "report_inside charges c (Report_leaves reply) st =
     (implements charges st \<and> stats_answer charges c reply \<and> (c = Stats_bytes \<or> (\<exists>i. c = Stats_energy i)))"
| "report_inside charges c _ st = False"

fun outside_ok :: "stats_call \<Rightarrow> stats_point \<Rightarrow> bool" where
  "outside_ok (Stats_charge _) (In_charge p) = charge_outside p"
| "outside_ok (Stats_reset _) (In_reset p) = (p = Reset_locks)"
| "outside_ok (Stats_energy i) (In_since_reset p) = (p = Energy_locks i)"
| "outside_ok Stats_bytes (In_since_reset p) = (p = Bytes_locks)"
| "outside_ok _ _ = False"

fun inside_ok :: "int \<Rightarrow> charges \<Rightarrow> stats_call \<Rightarrow> stats_point \<Rightarrow> stats_vars \<Rightarrow> bool" where
  "inside_ok B charges (Stats_charge this_second) (In_charge p) st = charge_inside B charges this_second p st"
| "inside_ok B charges (Stats_reset _) (In_reset p) st = reset_inside charges p st"
| "inside_ok B charges c (In_since_reset p) st = report_inside charges c p st"
| "inside_ok B charges _ _ st = False"

text \<open>The components not visited yet are a part of \<open>energy_components\<close>, which are all there are.\<close>

lemma energy_components_all: "j \<in> set energy_components" "distinct energy_components"
  by (cases j) (simp_all add: energy_components_def)

text \<open>None of this depends on \<open>last_update\<close>.\<close>

lemma inside_ok_update [simp]:
  "partly_charged charges n is (st\<lparr>last_update := v\<rparr>) = partly_charged charges n is st"
  "implements charges (st\<lparr>last_update := v\<rparr>) = implements charges st"
  "implements charges (st\<lparr>last_reset := v\<rparr>) = implements charges st"
  "charge_inside B charges n cp (st\<lparr>last_update := v\<rparr>) = charge_inside B charges n cp st"
  "reset_inside charges rp (st\<lparr>last_update := v\<rparr>) = reset_inside charges rp st"
  "report_inside charges c pp (st\<lparr>last_update := v\<rparr>) = report_inside charges c pp st"
proof -
  show p: "partly_charged charges n is (st\<lparr>last_update := v\<rparr>) = partly_charged charges n is st"
    "implements charges (st\<lparr>last_update := v\<rparr>) = implements charges st" for charges n "is"
    by (simp_all add: partly_charged_def implements_def)
  show "implements charges (st\<lparr>last_reset := v\<rparr>) = implements charges st" by (simp add: implements_def)
  show "charge_inside B charges n cp (st\<lparr>last_update := v\<rparr>) = charge_inside B charges n cp st" by (cases cp) (simp_all add: p)
  show "reset_inside charges rp (st\<lparr>last_update := v\<rparr>) = reset_inside charges rp st" by (cases rp) (simp_all add: p)
  show "report_inside charges c pp (st\<lparr>last_update := v\<rparr>) = report_inside charges c pp st" by (cases pp) (simp_all add: p)
qed

lemma inside_ok_last_update [simp]: "inside_ok B charges c p (st\<lparr>last_update := v\<rparr>) = inside_ok B charges c p st"
  by (cases c; cases p) simp_all

text \<open>The times and the bytes of the last sample.\<close>

definition memory_ok :: "int \<Rightarrow> stats_memory \<Rightarrow> bool" where
  "memory_ok B s \<longleftrightarrow> valid_tv (last_update (statistics s)) \<and> valid_tv (last_reset (statistics s))
     \<and> (\<forall>d. \<bar>last_deltas s d\<bar> \<le> B)"

text \<open>A step without the lock only writes \<open>last_update\<close>, or takes the lock.\<close>

definition only_update :: "stats_vars \<Rightarrow> stats_vars \<Rightarrow> bool" where
  "only_update st st' \<longleftrightarrow> st' = st\<lparr>last_update := last_update st'\<rparr>"

lemma only_update_simps [simp]:
  "only_update st st" "only_update st (st\<lparr>last_update := v\<rparr>)"
  by (simp_all add: only_update_def)

lemma only_update_same:
  assumes "only_update st st'"
  shows "implements charges st' = implements charges st" "inside_ok B charges c p st' = inside_ok B charges c p st"
    "partly_charged charges n is st' = partly_charged charges n is st" "reset_inside charges rp st' = reset_inside charges rp st"
  using assms inside_ok_update inside_ok_last_update by (metis only_update_def)+

fun is_charge :: "stats_call \<Rightarrow> bool" where
  "is_charge (Stats_charge _) = True"
| "is_charge _ = False"

definition unlocked_step :: "int \<Rightarrow> stats_call \<Rightarrow> stats_memory \<Rightarrow> stats_point stats_step result \<Rightarrow> bool" where
  "unlocked_step B c s r \<longleftrightarrow> (case r of
     Inl f \<Rightarrow> f = Assertion_failed
   | Inr (next_p, s') \<Rightarrow> memory_ok B s' \<and> only_update (statistics s) (statistics s') \<and>
       (case next_p of
          Goes q \<Rightarrow> outside_ok c q
        | Locks q \<Rightarrow> \<forall>charges. implements charges (statistics s) \<longrightarrow> inside_ok B charges c q (statistics s')
        | Unlocks _ \<Rightarrow> False
        | Returns r \<Rightarrow> r = Stats_not_due \<and> is_charge c))"

fun is_reset :: "stats_call \<Rightarrow> bool" where
  "is_reset (Stats_reset _) = True"
| "is_reset _ = False"

text \<open>A step with the lock keeps it, gives it back, or tries to take it again.\<close>

definition locked_step :: "int \<Rightarrow> charges \<Rightarrow> stats_call \<Rightarrow> stats_point stats_step result \<Rightarrow> bool" where
  "locked_step B charges c r \<longleftrightarrow> (case r of
     Inl f \<Rightarrow> f = Assertion_failed \<and> is_reset c
   | Inr (next_p, s') \<Rightarrow> memory_ok B s' \<and>
       (case next_p of
          Goes q \<Rightarrow> inside_ok B charges c q (statistics s')
        | Locks q \<Rightarrow> is_reset c
        | Unlocks r \<Rightarrow> implements (add_charge c r charges) (statistics s') \<and> stats_answer charges c r
            \<and> (\<forall>n b. c = Stats_charge n \<longrightarrow> r = Stats_charged b \<longrightarrow> \<bar>b\<bar> \<le> 2 * B)
        | Returns r \<Rightarrow> False))"

lemmas step_cases = unlocked_step_def locked_step_def memory_ok_def

lemma TIMEDIFF_cases:
  assumes "valid_tv b" "valid_tv e"
  shows "TIMEDIFF b e = Fault Assertion_failed \<or> (\<exists>d. TIMEDIFF b e = Ok d)"
  using TIMEDIFF_Ok [OF assms] TIMEDIFF_back [OF assms] by (cases "tv_us b \<le> tv_us e") auto

lemma charge_outside_step:
  assumes "steady e" "charge_outside p" "memory_ok B s"
  shows "case update_consumption_stats_steps e n p s of
      Inl f \<Rightarrow> f = Assertion_failed
    | Inr (next_p, s') \<Rightarrow> memory_ok B s' \<and> only_update (statistics s) (statistics s')
      \<and> (case next_p of Goes q \<Rightarrow> charge_outside q | Locks q \<Rightarrow> q = Charge_adds energy_components
          | Unlocks r \<Rightarrow> False | Returns r \<Rightarrow> r = Stats_not_due)"
proof (cases p)
  case (Charge_has_now now)
  with assms TIMEDIFF_cases [of "last_update (statistics s)" now] show ?thesis
    by (auto simp: memory_ok_def)
next
  case (Charge_is_due now)
  with assms show ?thesis by (auto simp: memory_ok_def)
qed (use assms in \<open>simp_all add: memory_ok_def\<close>)

lemma charge_step_outside:
  assumes "steady e" "charge_outside p" "memory_ok B s"
  shows "unlocked_step B (Stats_charge n) s (stats_step e (Stats_charge n) (In_charge p) s)"
proof (cases "update_consumption_stats_steps e n p s")
  case (Inl f)
  with charge_outside_step [OF assms, of n] show ?thesis by (simp add: unlocked_step_def)
next
  case (Inr x)
  moreover obtain next_p s' where x: "x = (next_p, s')" by (cases x)
  moreover have "implements charges st \<Longrightarrow> partly_charged charges n energy_components st" for charges st
    by (simp add: implements_def partly_charged_def energy_components_all)
  ultimately show ?thesis
    using charge_outside_step [OF assms, of n] by (cases next_p) (auto simp: unlocked_step_def only_update_same)
qed

lemma outside_steps:
  assumes "steady e" "outside_ok c p" "memory_ok B s"
  shows "unlocked_step B c s (stats_step e c p s)"
proof (cases c)
  case (Stats_charge n)
  with assms charge_step_outside show ?thesis by (cases p) simp_all
next
  case (Stats_reset n)
  with assms show ?thesis by (cases p) (simp_all add: unlocked_step_def)
next
  case (Stats_energy i)
  with assms show ?thesis by (cases p) (simp_all add: unlocked_step_def)
next
  case Stats_bytes
  with assms show ?thesis by (cases p) (simp_all add: unlocked_step_def)
qed

lemma partly_charged_next:
  assumes "partly_charged charges n (i # is) st"
  shows "energy_consumed_mJ st i = energy_charged charges i"
    "partly_charged charges n is
       (st\<lparr>energy_consumed_mJ := (energy_consumed_mJ st)(i := energy_charged charges i + n i)\<rparr>)"
  using assms by (simp_all add: partly_charged_def)

lemma partly_charged_done:
  assumes "partly_charged charges n [] st"
  shows "mobile_data_consumed_bytes st = bytes_charged charges"
    "implements ((n, b) # charges) (st\<lparr>mobile_data_consumed_bytes := bytes_charged charges + b\<rparr>)"
  using assms by (simp_all add: partly_charged_def implements_def)

lemma charge_step_inside:
  assumes "charge_inside B charges n p (statistics s)" "memory_ok B s" "sound_second mJ n"
    and "sound_charges mJ B charges" "length charges \<le> k" "charges_fit mJ B k"
  shows "locked_step B charges (Stats_charge n) (stats_step e (Stats_charge n) (In_charge p) s)"
proof -
  note fit = one_more_fits [OF assms(4-6)]
  have n: "in_int (energy_charged charges i + n i)" for i
    using fit(1) [of "n i"] assms(3) by (simp add: sound_second_def)
  have d: "\<bar>last_deltas s d\<bar> \<le> B" for d using assms(2) by (simp add: memory_ok_def)
  show ?thesis
  proof (cases p)
    case (Charge_adds "is")
    with assms(1,2) d show ?thesis by (cases "is") (simp_all add: locked_step_def)
  next
    case (Charge_adds_to i energy "is")
    with assms(1) have "partly_charged charges n (i # is) (statistics s)" "energy = energy_consumed_mJ (statistics s) i"
      by simp_all
    with partly_charged_next [OF this(1)] Charge_adds_to assms(2) n [of i] show ?thesis
      by (simp add: locked_step_def memory_ok_def)
  next
    case (Charge_has_down down)
    then have "\<bar>down + last_deltas s UP\<bar> \<le> 2 * B" using assms(1) d [of UP] by (simp add: abs_le_iff)
    with Charge_has_down assms(1,2) fit(2) show ?thesis by (simp add: locked_step_def)
  next
    case (Charge_has_bytes bytes)
    with assms(1,2) show ?thesis by (simp add: locked_step_def)
  next
    case (Charge_adds_bytes consumed bytes)
    with assms(1) have "partly_charged charges n [] (statistics s)" "\<bar>bytes\<bar> \<le> 2 * B"
      "consumed = mobile_data_consumed_bytes (statistics s)" by simp_all
    with partly_charged_done [OF this(1)] Charge_adds_bytes assms(2) fit(2) [OF this(2)] show ?thesis
      by (simp add: locked_step_def memory_ok_def)
  qed (use assms(1,2) in \<open>simp_all add: locked_step_def\<close>)
qed

lemma reset_step_inside:
  assumes "steady e" "reset_inside charges p (statistics s)" "memory_ok B s"
  shows "locked_step B charges (Stats_reset n) (stats_step e (Stats_reset n) (In_reset p) s)"
proof (cases p)
  case (Reset_fills "is")
  with assms(2,3) show ?thesis
    by (cases "is") (auto simp: locked_step_def memory_ok_def implements_def)
next
  case (Reset_drops ds)
  moreover have "0 \<le> B" using assms(3) by (force simp: memory_ok_def)
  ultimately show ?thesis using assms(2,3) by (cases ds) (simp_all add: locked_step_def memory_ok_def)
next
  case (Reset_updates q)
  then have "charge_outside q" "implements [] (statistics s)" using assms(2) by simp_all
  with charge_outside_step [OF assms(1) this(1) assms(3), of n] Reset_updates show ?thesis
    by (cases "update_consumption_stats_steps e n q s")
      (auto simp: locked_step_def only_update_same split: next_point.splits)
qed (use assms energy_components_all in \<open>simp_all add: locked_step_def memory_ok_def\<close>)

lemma report_step_inside:
  assumes "report_inside charges c p (statistics s)" "memory_ok B s"
  shows "locked_step B charges c (stats_step e c (In_since_reset p) s)"
proof (cases p)
  case (Report_leaves reply)
  with assms show ?thesis by (auto simp: locked_step_def)
qed (use assms in \<open>simp_all add: locked_step_def implements_def\<close>)

lemma inside_steps:
  assumes "steady e" "inside_ok B charges c p (statistics s)" "memory_ok B s" "sound_call mJ c"
    and "sound_charges mJ B charges" "length charges \<le> k" "charges_fit mJ B k"
  shows "locked_step B charges c (stats_step e c p s)"
proof (cases p)
  case (In_charge q)
  with assms show ?thesis
    by (cases c) (auto simp del: stats_step.simps intro!: charge_step_inside)
next
  case (In_reset q)
  with assms reset_step_inside [OF assms(1), of charges q] show ?thesis
    by (cases c) (simp_all del: stats_step.simps)
next
  case (In_since_reset q)
  with assms report_step_inside [of charges c q s B e] show ?thesis
    by (cases c) (simp_all del: stats_step.simps)
qed

subsection \<open>Any interleaving\<close>

text \<open>
  The invariant of all runs: what has been answered is right, and every thread is at a point where what holds there
  does hold.
\<close>

definition thread_ok ::
  "int \<Rightarrow> charges \<Rightarrow> stats_vars \<Rightarrow> thread option \<Rightarrow> thread \<Rightarrow> stats_call list \<Rightarrow> stats_point option \<Rightarrow> bool" where
  "thread_ok B charges st h t rest place = (case place of
     None \<Rightarrow> h \<noteq> Some t
   | Some p \<Rightarrow> rest \<noteq> [] \<and> (if h = Some t then inside_ok B charges (hd rest) p st else outside_ok (hd rest) p))"

definition booked :: "int \<Rightarrow> int \<Rightarrow> nat \<Rightarrow> (thread \<Rightarrow> stats_call list) \<Rightarrow> ledger \<Rightarrow> bool" where
  "booked mJ B n calls x \<longleftrightarrow>
     memory_ok B (stats_memory_of x) \<and> sound_charges mJ B (charges_of (answers x)) \<and> length (charges_of (answers x)) \<le> n
     \<and> stats_answers [] (answers x) \<and> (\<forall>t. calls_of t (answers x) @ calls_left x t = calls t)
     \<and> (lock_holder x = None \<longrightarrow> implements (charges_of (answers x)) (statistics (stats_memory_of x)))
     \<and> (\<forall>t. thread_ok B (charges_of (answers x)) (statistics (stats_memory_of x)) (lock_holder x) t (calls_left x t) (call_at x t))"

lemma thread_ok_frame:
  assumes "thread_ok B charges st h t rest place"
    and "h = Some t \<Longrightarrow> charges' = charges \<and> h' = h \<and> only_update st st'" "h \<noteq> Some t \<Longrightarrow> h' \<noteq> Some t"
  shows "thread_ok B charges' st' h' t rest place"
  using assms by (cases place; cases "h = Some t") (auto simp: thread_ok_def only_update_same)

lemma add_charge_sound:
  assumes "sound_charges mJ B charges" "sound_call mJ c" "length charges \<le> n"
    and "\<And>m b. c = Stats_charge m \<Longrightarrow> r = Stats_charged b \<Longrightarrow> \<bar>b\<bar> \<le> 2 * B"
  shows "sound_charges mJ B (add_charge c r charges)" "length (add_charge c r charges) \<le> Suc n"
  using assms by (cases c; cases r; auto simp: sound_charges_def)+

text \<open>A call that returns, with what the step has written.\<close>

lemma booked_returns:
  assumes "booked mJ B n calls x" "calls_left x t = c # cs" "sound_call mJ c"
    and "memory_ok B s" "h = None \<longrightarrow> implements (add_charge c r (charges_of (answers x))) (statistics s)"
    and "stats_answer (charges_of (answers x)) c r"
    and "\<And>m b. c = Stats_charge m \<Longrightarrow> r = Stats_charged b \<Longrightarrow> \<bar>b\<bar> \<le> 2 * B"
    and "h \<noteq> Some t" "\<And>u. u \<noteq> t \<Longrightarrow>
      thread_ok B (add_charge c r (charges_of (answers x))) (statistics s) h u (calls_left x u) (call_at x u)"
  shows "booked mJ B (Suc n) calls (stats_returns t r (x\<lparr>stats_memory_of := s, lock_holder := h\<rparr>))"
proof -
  have x: "sound_charges mJ B (charges_of (answers x))" "length (charges_of (answers x)) \<le> n"
    "stats_answers [] (answers x)" "\<And>u. calls_of u (answers x) @ calls_left x u = calls u"
    using assms(1) by (simp_all add: booked_def)
  note add = add_charge_sound [OF x(1) assms(3) x(2) assms(7)]
  have "stats_answers [] (answers x @ [(t, c, r)])"
    using stats_answers_snoc [of "[]" "answers x" c r t] x(3) assms(6) by simp
  moreover have "calls_of u (answers x @ [(t, c, r)]) @ ((calls_left x)(t := cs)) u = calls u" for u
    using x(4) [of u] assms(2) by (cases "u = t") simp_all
  ultimately show ?thesis
    using assms(2,4,5,8,9) add by (auto simp: booked_def stats_returns_def thread_ok_def)
qed

text \<open>A step inside a call that does not return.\<close>

lemma booked_goes:
  assumes "booked mJ B n calls x" "calls_left x t = c # cs" "memory_ok B s"
    and "h = None \<longrightarrow> implements (charges_of (answers x)) (statistics s)"
    and "if h = Some t then inside_ok B (charges_of (answers x)) c q (statistics s) else outside_ok c q"
    and "\<And>u. u \<noteq> t \<Longrightarrow> thread_ok B (charges_of (answers x)) (statistics s) h u (calls_left x u) (call_at x u)"
  shows "booked mJ B (Suc n) calls (x\<lparr>stats_memory_of := s, lock_holder := h, call_at := (call_at x)(t := Some q)\<rparr>)"
  using assms by (auto simp: booked_def thread_ok_def)

definition ledger_result_ok ::
  "int \<Rightarrow> int \<Rightarrow> nat \<Rightarrow> (thread \<Rightarrow> stats_call list) \<Rightarrow> ledger result \<Rightarrow> bool" where
  "ledger_result_ok mJ B n calls r \<longleftrightarrow> (case r of
     Inl f \<Rightarrow> f = Assertion_failed \<or> f = Self_deadlock \<and> (\<exists>t. \<exists>c \<in> set (calls t). is_reset c)
   | Inr y \<Rightarrow> booked mJ B n calls y)"

lemma booked_more: "booked mJ B n calls x \<Longrightarrow> n \<le> m \<Longrightarrow> booked mJ B m calls x"
  by (auto simp: booked_def)

lemma ledger_step_outside:
  assumes "booked mJ B n calls x" "calls_left x t = c # cs" "call_at x t = Some p" "lock_holder x \<noteq> Some t"
    and "steady e" "sound_call mJ c"
  shows "ledger_result_ok mJ B (Suc n) calls (ledger_step e t x)"
proof -
  let ?C = "charges_of (answers x)"
  have x: "memory_ok B (stats_memory_of x)" "lock_holder x = None \<Longrightarrow> implements ?C (statistics (stats_memory_of x))"
    "\<And>u. thread_ok B ?C (statistics (stats_memory_of x)) (lock_holder x) u (calls_left x u) (call_at x u)"
    using assms(1) by (simp_all add: booked_def)
  have p: "outside_ok c p" using x(3) [of t] assms(2-4) by (simp add: thread_ok_def)
  note step = outside_steps [OF assms(5) p x(1)]
  show ?thesis
  proof (cases "stats_step e c p (stats_memory_of x)")
    case (Inl f)
    then show ?thesis using step assms(2,3) by (simp add: unlocked_step_def ledger_step_def ledger_result_ok_def)
  next
    case (Inr y)
    obtain next_p s where y: "y = (next_p, s)" by (cases y)
    have s: "memory_ok B s" "only_update (statistics (stats_memory_of x)) (statistics s)"
      using step Inr y by (simp_all add: unlocked_step_def)
    have others: "thread_ok B ?C (statistics s) h u (calls_left x u) (call_at x u)"
      if "h = lock_holder x \<or> h = Some t \<and> lock_holder x = None" "u \<noteq> t" for h u
      using that s(2) by (intro thread_ok_frame [OF x(3)]) auto
    have free: "implements ?C (statistics s)" if "lock_holder x = None"
      using that x(2) s(2) by (simp add: only_update_same)
    show ?thesis
    proof (cases next_p)
      case (Goes q)
      have "booked mJ B (Suc n) calls (x\<lparr>stats_memory_of := s, lock_holder := lock_holder x, call_at := (call_at x)(t := Some q)\<rparr>)"
        using step Inr y Goes assms(4) free others
        by (intro booked_goes [OF assms(1,2) s(1)]) (simp_all add: unlocked_step_def)
      then show ?thesis using Inr y Goes assms(2,3) by (simp add: ledger_step_def ledger_result_ok_def)
    next
      case (Locks q)
      show ?thesis
      proof (cases "lock_holder x")
        case None
        have "booked mJ B (Suc n) calls (x\<lparr>stats_memory_of := s, lock_holder := Some t, call_at := (call_at x)(t := Some q)\<rparr>)"
          using step Inr y Locks None x(2) others
          by (intro booked_goes [OF assms(1,2) s(1)]) (simp_all add: unlocked_step_def)
        then show ?thesis using Inr y Locks None assms(2,3) by (simp add: ledger_step_def ledger_result_ok_def)
      next
        case (Some u)
        then show ?thesis
          using Inr y Locks assms(2-4) booked_more [OF assms(1)] by (simp add: ledger_step_def ledger_result_ok_def)
      qed
    next
      case (Returns r)
      with step Inr y obtain m where "r = Stats_not_due" "c = Stats_charge m"
        by (cases c) (simp_all add: unlocked_step_def)
      then have "booked mJ B (Suc n) calls (stats_returns t r (x\<lparr>stats_memory_of := s, lock_holder := lock_holder x\<rparr>))"
        using assms(4) free others by (intro booked_returns [OF assms(1,2,6) s(1)]) simp_all
      then show ?thesis using Inr y Returns assms(2,3) by (simp add: ledger_step_def ledger_result_ok_def)
    qed (use step Inr y in \<open>simp add: unlocked_step_def\<close>)
  qed
qed

lemma ledger_step_inside:
  assumes "booked mJ B n calls x" "calls_left x t = c # cs" "call_at x t = Some p" "lock_holder x = Some t"
    and "steady e" "sound_call mJ c" "charges_fit mJ B n"
  shows "ledger_result_ok mJ B (Suc n) calls (ledger_step e t x)"
proof -
  let ?C = "charges_of (answers x)"
  have x: "memory_ok B (stats_memory_of x)" "sound_charges mJ B ?C" "length ?C \<le> n"
    "\<And>u. thread_ok B ?C (statistics (stats_memory_of x)) (lock_holder x) u (calls_left x u) (call_at x u)"
    "calls_of t (answers x) @ calls_left x t = calls t"
    using assms(1) by (simp_all add: booked_def)
  have p: "inside_ok B ?C c p (statistics (stats_memory_of x))" using x(4) [of t] assms(2-4) by (simp add: thread_ok_def)
  note step = inside_steps [OF assms(5) p x(1) assms(6) x(2,3) assms(7)]
  have others: "thread_ok B C (statistics s) (Some t) u (calls_left x u) (call_at x u)"
    "thread_ok B C (statistics s) None u (calls_left x u) (call_at x u)" if "u \<noteq> t" for C s u
    using that assms(4) by (intro thread_ok_frame [OF x(4)]; simp)+
  have call: "c \<in> set (calls t)" using x(5) assms(2) by (metis in_set_conv_decomp)
  show ?thesis
  proof (cases "stats_step e c p (stats_memory_of x)")
    case (Inl f)
    then show ?thesis using step assms(2,3) by (simp add: locked_step_def ledger_step_def ledger_result_ok_def)
  next
    case (Inr y)
    obtain next_p s where y: "y = (next_p, s)" by (cases y)
    have s: "memory_ok B s" using step Inr y by (simp add: locked_step_def)
    show ?thesis
    proof (cases next_p)
      case (Goes q)
      have "booked mJ B (Suc n) calls (x\<lparr>stats_memory_of := s, lock_holder := lock_holder x, call_at := (call_at x)(t := Some q)\<rparr>)"
        using step Inr y Goes assms(4) others
        by (intro booked_goes [OF assms(1,2) s(1)]) (simp_all add: locked_step_def)
      then show ?thesis using Inr y Goes assms(2,3) by (simp add: ledger_step_def ledger_result_ok_def)
    next
      case (Locks q)
      then have "is_reset c" using step Inr y by (simp add: locked_step_def)
      with call show ?thesis using Inr y Locks assms(2-4) by (auto simp: ledger_step_def ledger_result_ok_def)
    next
      case (Unlocks r)
      have "booked mJ B (Suc n) calls (stats_returns t r (x\<lparr>stats_memory_of := s, lock_holder := None\<rparr>))"
        using step Inr y Unlocks others
        by (intro booked_returns [OF assms(1,2,6) s(1)]) (simp_all add: locked_step_def)
      then show ?thesis using Inr y Unlocks assms(2-4) by (simp add: ledger_step_def ledger_result_ok_def)
    qed (use step Inr y in \<open>simp add: locked_step_def\<close>)
  qed
qed

lemma begins_outside: "outside_ok c (stats_begins c)"
  by (cases c) simp_all

lemma ledger_step_ok:
  assumes "booked mJ B n calls x" "steady e" "\<forall>t. \<forall>c \<in> set (calls t). sound_call mJ c" "charges_fit mJ B n"
  shows "ledger_result_ok mJ B (Suc n) calls (ledger_step e t x)"
proof (cases "calls_left x t")
  case Nil
  then show ?thesis using booked_more [OF assms(1)] by (simp add: ledger_step_def ledger_result_ok_def)
next
  case (Cons c cs)
  have "calls_of t (answers x) @ calls_left x t = calls t" using assms(1) by (simp add: booked_def)
  then have c: "sound_call mJ c" using assms(3) Cons by (metis in_set_conv_decomp)
  show ?thesis
  proof (cases "call_at x t")
    case None
    have "thread_ok B (charges_of (answers x)) (statistics (stats_memory_of x)) (lock_holder x) t (calls_left x t) (call_at x t)"
      using assms(1) by (simp add: booked_def)
    with None have "lock_holder x \<noteq> Some t" by (simp add: thread_ok_def)
    then have "booked mJ B (Suc n) calls
        (x\<lparr>stats_memory_of := stats_memory_of x, lock_holder := lock_holder x, call_at := (call_at x)(t := Some (stats_begins c))\<rparr>)"
      using assms(1) begins_outside by (intro booked_goes [OF assms(1) Cons]) (simp_all add: booked_def)
    then show ?thesis using Cons None by (simp add: ledger_step_def ledger_result_ok_def)
  next
    case (Some p)
    then show ?thesis
      using ledger_step_outside [OF assms(1) Cons Some _ assms(2) c]
        ledger_step_inside [OF assms(1) Cons Some _ assms(2) c assms(4)] by blast
  qed
qed

lemma charges_fit_fewer: "charges_fit mJ B n \<Longrightarrow> m \<le> n \<Longrightarrow> charges_fit mJ B m"
proof -
  assume n: "charges_fit mJ B n" "m \<le> n"
  then have "int (Suc m) * mJ \<le> int (Suc n) * mJ" "int (Suc m) * (2 * B) \<le> int (Suc n) * (2 * B)"
    by (simp_all add: charges_fit_def mult_right_mono)
  with n(1) show "charges_fit mJ B m" unfolding charges_fit_def by linarith
qed

fun sample_within :: "int \<Rightarrow> ledger_action \<Rightarrow> bool" where
  "sample_within B (Sample_writes d n) \<longleftrightarrow> \<bar>n\<bar> \<le> B"
| "sample_within B (Thread_steps t) \<longleftrightarrow> True"

lemma booked_sample:
  "booked mJ B n calls x \<Longrightarrow> \<bar>m\<bar> \<le> B \<Longrightarrow>
    booked mJ B k calls (x\<lparr>stats_memory_of := (stats_memory_of x)\<lparr>last_deltas := (last_deltas (stats_memory_of x))(d := m)\<rparr>\<rparr>)" if "n \<le> k"
  using that by (simp add: booked_def memory_ok_def)

lemma ledger_run_ok:
  assumes "booked mJ B n calls x" "steady e" "\<forall>t. \<forall>c \<in> set (calls t). sound_call mJ c"
    and "list_all (sample_within B) acts" "charges_fit mJ B (n + length acts)"
  shows "ledger_result_ok mJ B (n + length acts) calls (ledger_run e acts x)"
  using assms(1,4,5)
proof (induction acts arbitrary: n x)
  case Nil
  then show ?case by (simp add: ledger_result_ok_def)
next
  case (Cons a acts)
  show ?case
  proof (cases a)
    case (Thread_steps t)
    have "charges_fit mJ B n" using Cons.prems(3) by (rule charges_fit_fewer) simp
    from ledger_step_ok [OF Cons.prems(1) assms(2,3) this, of t] show ?thesis
      using Cons.IH [of "Suc n"] Cons.prems(2,3) Thread_steps by (cases "ledger_step e t x") (simp_all add: ledger_result_ok_def)
  next
    case (Sample_writes d m)
    then show ?thesis using Cons.IH [of "Suc n"] booked_sample [of n "Suc n"] Cons.prems by simp
  qed
qed

subsection \<open>A single updater\<close>

text \<open>
  If only one thread charges and nobody resets, \<open>last_update\<close> is never after the time the charge has read, and no
  run fails.
\<close>

definition updates_alone :: "thread \<Rightarrow> (thread \<Rightarrow> stats_call list) \<Rightarrow> bool" where
  "updates_alone u calls \<longleftrightarrow> (\<forall>t. \<forall>c \<in> set (calls t). \<not> is_reset c \<and> (is_charge c \<longrightarrow> t = u))"

fun charge_on_time :: "env \<Rightarrow> stats_memory \<Rightarrow> charging_point \<Rightarrow> bool" where
  "charge_on_time e s (Charge_has_now now) \<longleftrightarrow>
     tv_us (last_update (statistics s)) \<le> tv_us now \<and> tv_us now \<le> tv_us (clock e (clock_position s))"
| "charge_on_time e s (Charge_is_due now) \<longleftrightarrow> tv_us now \<le> tv_us (clock e (clock_position s))"
| "charge_on_time e s _ \<longleftrightarrow> True"

fun point_on_time :: "env \<Rightarrow> stats_memory \<Rightarrow> stats_point option \<Rightarrow> bool" where
  "point_on_time e s (Some (In_charge p)) = charge_on_time e s p"
| "point_on_time e s _ = True"

definition memory_on_time :: "env \<Rightarrow> stats_memory \<Rightarrow> bool" where
  "memory_on_time e s \<longleftrightarrow> tv_us (last_update (statistics s)) \<le> tv_us (clock e (clock_position s))"

lemma charge_steps_on_time:
  assumes "steady e" "memory_ok B s" "memory_on_time e s" "charge_on_time e s p" "charge_outside p \<or> charge_inside B charges n p (statistics s)"
  shows "case update_consumption_stats_steps e n p s of
      Inl f \<Rightarrow> f \<noteq> Assertion_failed
    | Inr (next_p, s') \<Rightarrow> memory_on_time e s' \<and> (case next_p of
        Goes q \<Rightarrow> charge_on_time e s' q | Locks q \<Rightarrow> charge_on_time e s' q | _ \<Rightarrow> True)"
proof (cases p)
  case Charge_enters
  with assms(1,3) steady_mono [OF assms(1), of "clock_position s" "Suc (clock_position s)"] show ?thesis
    by (simp add: memory_on_time_def)
next
  case (Charge_has_now now)
  then have "valid_tv now" "valid_tv (last_update (statistics s))" "tv_us (last_update (statistics s)) \<le> tv_us now"
    using assms(2,4,5) by (simp_all add: memory_ok_def)
  then obtain d where "TIMEDIFF (last_update (statistics s)) now = Ok d" using TIMEDIFF_Ok by blast
  with Charge_has_now assms(3,4) show ?thesis by simp
next
  case (Charge_adds "is")
  with assms(3) show ?thesis by (cases "is") simp_all
qed (use assms(3,4) in \<open>auto simp: memory_on_time_def c_int_def\<close>)

lemma since_reset_keeps: "\<exists>next_p. since_reset_steps p s = Ok (next_p, s)"
  by (cases p) simp_all

definition ledger_on_time :: "env \<Rightarrow> thread \<Rightarrow> ledger \<Rightarrow> bool" where
  "ledger_on_time e u x \<longleftrightarrow> memory_on_time e (stats_memory_of x) \<and> point_on_time e (stats_memory_of x) (call_at x u)"

lemma report_is_no_charge: "report_inside charges c p st \<Longrightarrow> \<not> is_charge c"
  by (cases p; cases c) simp_all

lemma ledger_step_on_time:
  assumes "booked mJ B n calls x" "steady e" "updates_alone u calls" "ledger_on_time e u x"
  shows "case ledger_step e t x of Inl f \<Rightarrow> f \<noteq> Assertion_failed | Inr y \<Rightarrow> ledger_on_time e u y"
proof (cases "calls_left x t")
  case Nil
  then show ?thesis using assms(4) by (simp add: ledger_step_def)
next
  case (Cons c cs)
  have "calls_of t (answers x) @ calls_left x t = calls t" using assms(1) by (simp add: booked_def)
  then have "c \<in> set (calls t)" using Cons by (metis in_set_conv_decomp)
  then have c: "\<not> is_reset c" "is_charge c \<Longrightarrow> t = u" using assms(3) by (auto simp: updates_alone_def)
  show ?thesis
  proof (cases "call_at x t")
    case None
    then show ?thesis using Cons assms(4) by (cases c) (auto simp: ledger_step_def ledger_on_time_def)
  next
    case (Some p)
    have "thread_ok B (charges_of (answers x)) (statistics (stats_memory_of x)) (lock_holder x) t (calls_left x t) (call_at x t)"
      and m: "memory_ok B (stats_memory_of x)" using assms(1) by (simp_all add: booked_def)
    then have p: "outside_ok c p \<or> inside_ok B (charges_of (answers x)) c p (statistics (stats_memory_of x))"
      using Some Cons by (auto simp: thread_ok_def split: if_splits)
    show ?thesis
    proof (cases "is_charge c")
      case True
      then obtain k q where q: "c = Stats_charge k" "p = In_charge q"
        using p report_is_no_charge by (cases c; cases p) fastforce+
      then have "case update_consumption_stats_steps e k q (stats_memory_of x) of
          Inl f \<Rightarrow> f \<noteq> Assertion_failed
        | Inr (next_p, s') \<Rightarrow> memory_on_time e s' \<and> (case next_p of
            Goes q \<Rightarrow> charge_on_time e s' q | Locks q \<Rightarrow> charge_on_time e s' q | _ \<Rightarrow> True)"
        using assms(4) Some p c(2) True
        by (intro charge_steps_on_time [OF assms(2) m]) (auto simp: ledger_on_time_def)
      note step = this and at = Some Cons q c(2) [OF True]
      show ?thesis
      proof (cases "update_consumption_stats_steps e k q (stats_memory_of x)")
        case (Inl f)
        then show ?thesis using step at by (simp add: ledger_step_def)
      next
        case (Inr y)
        moreover obtain next_p s where "y = (next_p, s)" by (cases y)
        ultimately show ?thesis using step at assms(4)
          by (cases next_p) (simp_all add: ledger_step_def ledger_on_time_def stats_returns_def split: option.splits)
      qed
    next
      case False
      then obtain q where q: "p = In_since_reset q" using p c(1) by (cases c; cases p) auto
      obtain next_p where "since_reset_steps q (stats_memory_of x) = Ok (next_p, stats_memory_of x)" using since_reset_keeps by blast
      then have "stats_step e c p (stats_memory_of x) = Ok (next_map In_since_reset next_p, stats_memory_of x)" using q by (cases c) simp_all
      with Some Cons assms(4) q show ?thesis
        by (cases next_p) (auto simp: ledger_step_def ledger_on_time_def stats_returns_def split: option.splits)
    qed
  qed
qed

lemma ledger_run_on_time:
  assumes "booked mJ B n calls x" "steady e" "\<forall>t. \<forall>c \<in> set (calls t). sound_call mJ c"
    and "list_all (sample_within B) acts" "charges_fit mJ B (n + length acts)"
    and "updates_alone u calls" "ledger_on_time e u x"
  shows "ledger_run e acts x \<noteq> Fault Assertion_failed"
  using assms(1,4,5,7)
proof (induction acts arbitrary: n x)
  case (Cons a acts)
  show ?case
  proof (cases a)
    case (Thread_steps t)
    have "charges_fit mJ B n" using Cons.prems(3) by (rule charges_fit_fewer) simp
    note step = ledger_step_ok [OF Cons.prems(1) assms(2,3) this, of t]
      ledger_step_on_time [OF Cons.prems(1) assms(2,6) Cons.prems(4), of t]
    show ?thesis
      using step Cons.IH [of "Suc n"] Cons.prems(2,3) Thread_steps by (cases "ledger_step e t x") (simp_all add: ledger_result_ok_def)
  next
    case (Sample_writes d m)
    let ?y = "x\<lparr>stats_memory_of := (stats_memory_of x)\<lparr>last_deltas := (last_deltas (stats_memory_of x))(d := m)\<rparr>\<rparr>"
    have "point_on_time e ((stats_memory_of x)\<lparr>last_deltas := D\<rparr>) p = point_on_time e (stats_memory_of x) p" for D p
    proof (cases "(e, stats_memory_of x, p)" rule: point_on_time.cases)
      case (1 e' s q)
      then show ?thesis by (cases q) simp_all
    qed simp_all
    then have "ledger_on_time e u ?y" using Cons.prems(4) by (simp add: ledger_on_time_def memory_on_time_def)
    then show ?thesis using Sample_writes Cons.IH [of "Suc n" ?y] booked_sample [of n "Suc n"] Cons.prems by simp
  qed
qed simp

subsection \<open>Any interleaving is a sequence of charges and resets\<close>

lemma booked_start:
  assumes "0 \<le> B"
  shows "booked mJ B 0 calls (ledger_start calls)"
  using assms
  by (simp add: booked_def ledger_start_def memory_ok_def sound_charges_def implements_def thread_ok_def
      stats_vars_init_def)

lemma ledger_start_on_time: "steady e \<Longrightarrow> ledger_on_time e u (ledger_start calls)"
  by (simp add: ledger_on_time_def ledger_start_def memory_on_time_def stats_vars_init_def tv_us_def steady_def
      valid_tv_def timerclear_def)

text \<open>
  C14:
  Any number of threads call \<open>update_consumption_stats\<close>, \<open>reset_stats\<close> and the two functions that report energy and
  bytes, interrupted between any two accesses to the statistics, while the bytes of the last sample change at any moment.
  \<open>last_update\<close> is read and written without \<open>stats_lock\<close>, and \<open>reset_stats\<close> makes its update
  with the lock held. Then a run fails only in two ways: \<open>TIMEDIFF\<close> aborts, never if one thread alone
  charges and nobody resets; or a reset takes the lock twice. Otherwise every report answers the sum of the charges
  answered before it since the last reset, and while nobody holds the lock the variables are these sums, the total being
  CPU plus networking: no charge is lost or counted in part. A charge counts where it takes the lock: a second
  measured before a reset may be charged after it. (A clock that never goes back, seconds of at most \<open>mJ\<close> per component with the right
  total, samples of at most \<open>B\<close> bytes, and room in an \<open>int\<close>.)
\<close>

theorem consumption_linearizable:
  assumes "steady e" "\<forall>t. \<forall>c \<in> set (calls t). sound_call mJ c" "list_all (sample_within B) acts"
    and "charges_fit mJ B (length acts)"
  shows "case ledger_run e acts (ledger_start calls) of
      Inl f \<Rightarrow> f = Assertion_failed \<and> \<not> (\<exists>u. updates_alone u calls)
        \<or> f = Self_deadlock \<and> (\<exists>t. \<exists>c \<in> set (calls t). is_reset c)
    | Inr x \<Rightarrow>
        (\<forall>t. calls_of t (answers x) @ calls_left x t = calls t) \<and> stats_answers [] (answers x)
        \<and> (let charges = charges_of (answers x); st = statistics (stats_memory_of x) in
           lock_holder x = None \<longrightarrow> implements charges st
             \<and> energy_consumed_mJ st ALL_ENERGY_COMPONENTS = energy_consumed_mJ st CPU + energy_consumed_mJ st NETWORKING)"
proof -
  have "0 \<le> B" using assms(4) by (simp add: charges_fit_def)
  note start = booked_start [OF this, of mJ calls]
  have run: "ledger_result_ok mJ B (length acts) calls (ledger_run e acts (ledger_start calls))"
    using ledger_run_ok [OF start assms(1-3)] assms(4) by simp
  show ?thesis
  proof (cases "ledger_run e acts (ledger_start calls)")
    case (Inl f)
    then show ?thesis
      using run ledger_run_on_time [OF start assms(1-3) _ _ ledger_start_on_time [OF assms(1)]] assms(4)
      by (auto simp: ledger_result_ok_def)
  next
    case (Inr x)
    then have x: "booked mJ B (length acts) calls x" using run by (simp add: ledger_result_ok_def)
    then show ?thesis
      using Inr sound_charges_bounds(3) [of mJ B "charges_of (answers x)"]
      by (simp add: booked_def implements_def Let_def)
  qed
qed

definition ledger_clock :: env where
  "ledger_clock = \<lparr>clock = (\<lambda>k. \<lparr>tv_sec = 1000 + int (min (k div 2) 100), tv_usec = 0\<rparr>), proc_net_dev = (\<lambda>_. None),
     proc_stat = (\<lambda>_. None), scaling_cur_freq = (\<lambda>_. None)\<rparr>"

definition a_second :: "EnergyComponent \<Rightarrow> int" where
  "a_second i = (case i of CPU \<Rightarrow> 200 | NETWORKING \<Rightarrow> 300 | ALL_ENERGY_COMPONENTS \<Rightarrow> 500)"

definition ledger_calls :: "thread \<Rightarrow> stats_call list" where
  "ledger_calls t = (if t = 1 then [Stats_reset a_second, Stats_charge a_second]
     else if t = 2 then [Stats_energy ALL_ENERGY_COMPONENTS, Stats_bytes] else [])"

text \<open>
  Thread 1 resets and charges a second; thread 2 wants the energy while the charge is half done, and has to wait.
\<close>

definition ledger_schedule :: "ledger_action list" where
  "ledger_schedule =
     replicate 15 (Thread_steps 1) @ [Sample_writes DOWN 500, Thread_steps 2] @ replicate 6 (Thread_steps 1)
     @ [Thread_steps 2] @ replicate 10 (Thread_steps 1) @ replicate 8 (Thread_steps 2)"

lemma ledger_answers:
  "map_sum id (\<lambda>x. (map (\<lambda>(t, c, r). (t, r)) (answers x), lock_holder x)) (ledger_run ledger_clock ledger_schedule (ledger_start ledger_calls))
   = Ok ([(1, Stats_cleared), (1, Stats_charged 500), (2, Stats_energy_is 500), (2, Stats_bytes_are 500)], None)"
  by code_simp

lemma consumption_linearizable_witness:
  "\<exists>x. ledger_run ledger_clock ledger_schedule (ledger_start ledger_calls) = Ok x
    \<and> map (\<lambda>(t, c, r). (t, r)) (answers x)
      = [(1, Stats_cleared), (1, Stats_charged 500), (2, Stats_energy_is 500), (2, Stats_bytes_are 500)]
    \<and> stats_answers [] (answers x) \<and> implements (charges_of (answers x)) (statistics (stats_memory_of x))"
proof -
  have "steady ledger_clock"
    by (auto simp: steady_def ledger_clock_def valid_tv_def tv_us_def intro: min.coboundedI1 div_le_mono)
  moreover have "\<forall>t. \<forall>c \<in> set (ledger_calls t). sound_call 500 c"
    by (auto simp: ledger_calls_def sound_second_def a_second_def split: EnergyComponent.splits)
  moreover have "list_all (sample_within 1000) ledger_schedule" "charges_fit 500 1000 (length ledger_schedule)"
    by (simp_all add: ledger_schedule_def charges_fit_def list_all_iff)
  ultimately show ?thesis
    using consumption_linearizable [of ledger_clock ledger_calls 500 1000 ledger_schedule] ledger_answers
    by (cases "ledger_run ledger_clock ledger_schedule (ledger_start ledger_calls)") (simp_all add: Let_def)
qed

end
