(* ===== verification/Mirror.thy ===== *)
theory Mirror
  imports Races
begin

text \<open>
  A handset and its server together. A round is an instant at which both update; in it the handset calls
  the registered callback as \<^verbatim>\<open>update_energy_stats\<close> does, and the application passes the state it is
  given to \<open>report_remote_mobile_activity\<close> on the server. This is an environment in which the reports can be
  exact, not the only one: both clocks show the same time, a report takes none, and the server updates
  before the report arrives. The other properties are about reports that are late, that come before the update,
  and that carry only the packet rate.
\<close>

subsection \<open>Rounds\<close>

record round =
  instant :: timeval
  counters :: "Direction \<Rightarrow> int"
  wifi_fired :: bool
  packet_rate :: int

definition standing :: "timeval \<Rightarrow> env" where
  "standing t = \<lparr>clock = (\<lambda>_. t), proc_net_dev = (\<lambda>_. None), proc_stat = (\<lambda>_. None), scaling_cur_freq = (\<lambda>_. None)\<rparr>"

lemma clock_standing [simp]: "clock (standing t) i = t"
  by (simp add: standing_def)

lemma steady_standing [simp]: "valid_tv t \<Longrightarrow> steady (standing t)"
  by (simp add: steady_def)

text \<open>The state the callback is given, with a reading of the counters and the packet rate.\<close>

definition callback_state ::
  "env \<Rightarrow> (Direction \<Rightarrow> int) \<Rightarrow> int \<Rightarrow> mobile_vars \<Rightarrow> nat \<Rightarrow> (remote_power_state \<times> nat) result" where
  "callback_state e bytes rate m k =
     bind_r (get_mobile_queue_len_locked e (0, bytes) m k) (\<lambda>((down, up), k).
     Ok (\<lparr>mobile_state_rps = int_of_state (mobile_state m),
          mobile_queue_len = (\<lambda>d. case d of DOWN \<Rightarrow> down | UP \<Rightarrow> up),
          wifi_packet_rate_rps = rate\<rparr>, k))"

text \<open>It is what \<open>notify_activity\<close> records, whatever the build and the counters.\<close>

lemma notify_callback_state:
  assumes "ANDROID b" "get_activity_callback s = Some callback"
    and "get_net_dev_stats b e k MOBILE_IFACE (\<lambda>_. - 1) (\<lambda>_. 0) (lib_mocked s) = ((0, bytes, packets), mocked)"
    and "wifi_packet_rate b (lib_remote s) (lib_wifi s) = Ok rate"
  shows "notify_activity b e s k = bind_r (callback_state e bytes rate (lib_mobile s) k) (\<lambda>(state, k).
    Ok (s\<lparr>lib_mocked := mocked, callback_calls := callback_calls s @ [(callback, state)]\<rparr>, k))"
proof -
  have "power_model_is_remote b = False" using assms(1) by (simp add: power_model_is_remote_def)
  then show ?thesis
    using assms(2,4) queue_len_steps [OF assms(1,3)]
    by (simp add: notify_activity_def callback_state_def get_mobile_state_def wifi_packet_rate_def
        bind_r_assoc split_def)
qed

definition mirror_round ::
  "PowerModel \<Rightarrow> round \<Rightarrow> mobile_vars \<times> remote_vars \<Rightarrow> (mobile_vars \<times> remote_vars) result" where
  "mirror_round pm x = (\<lambda>(m, r).
     let e = standing (instant x) in
     bind_r (update_mobile_state pm e (0, counters x) (wifi_fired x) m 0) (\<lambda>(_, fire_callback, m, _).
     bind_r (update_remote_power_model pm e r 0) (\<lambda>(r, _).
     bind_r
       (if fire_callback then
          bind_r (callback_state e (counters x) (packet_rate x) m 0) (\<lambda>(state, _).
          report_remote_mobile_activity e state r 0)
        else Ok (r, 0)) (\<lambda>(r, _). Ok (m, r)))))"

fun mirror_run ::
  "PowerModel \<Rightarrow> round list \<Rightarrow> mobile_vars \<times> remote_vars \<Rightarrow> (mobile_vars \<times> remote_vars) result" where
  "mirror_run pm [] s = Ok s"
| "mirror_run pm (x # xs) s = bind_r (mirror_round pm x s) (mirror_run pm xs)"

text \<open>
  Time does not run backwards, and the counters only grow. Nothing is said of the time between two rounds: the
  code polls ten times a second, and takes a sample of counters that have grown once a second.
\<close>

fun rounds_ok :: "int \<Rightarrow> (Direction \<Rightarrow> int) \<Rightarrow> round list \<Rightarrow> bool" where
  "rounds_ok t bytes [] = True"
| "rounds_ok t bytes (x # xs) =
     (valid_tv (instant x) \<and> t \<le> tv_us (instant x) \<and> small_counts (counters x)
      \<and> bytes DOWN \<le> counters x DOWN \<and> bytes UP \<le> counters x UP
      \<and> rounds_ok (tv_us (instant x)) (counters x) xs)"

fun last_counters :: "(Direction \<Rightarrow> int) \<Rightarrow> round list \<Rightarrow> Direction \<Rightarrow> int" where
  "last_counters bytes [] = bytes"
| "last_counters bytes (x # xs) = last_counters (counters x) xs"

subsection \<open>The relation between the two\<close>

text \<open>
  \<open>agree\<close>: the states are equal and, out of IDLE, so are the times of the last activity. \<open>covers\<close>: the
  server's state is higher, or equal with a later time. \<open>unsampled\<close>: the handset has seen no counters yet;
  \<open>behind\<close>: it has, and they have grown or not since. While it knows all there is, the two agree.
\<close>

definition agree :: "mobile_vars \<Rightarrow> remote_vars \<Rightarrow> bool" where
  "agree m r \<longleftrightarrow> remote_radio r = mobile_state m
     \<and> (mobile_state m \<noteq> MOBILE_POWER_STATE_IDLE \<longrightarrow> remote_last_mobile_activity r = last_mobile_activity m)"

definition covers :: "mobile_vars \<Rightarrow> remote_vars \<Rightarrow> bool" where
  "covers m r \<longleftrightarrow> mobile_state m < remote_radio r
     \<or> mobile_state m = remote_radio r
       \<and> (mobile_state m \<noteq> MOBILE_POWER_STATE_IDLE
          \<longrightarrow> tv_us (last_mobile_activity m) \<le> tv_us (remote_last_mobile_activity r))"

definition unsampled :: "mobile_vars \<Rightarrow> bool" where
  "unsampled m \<longleftrightarrow> mobile_last_bytes m = (\<lambda>_. - 1) \<and> mobile_last_delta_bytes m = (\<lambda>_. 0)
     \<and> mobile_state m = MOBILE_POWER_STATE_IDLE"

definition behind :: "(Direction \<Rightarrow> int) \<Rightarrow> mobile_vars \<Rightarrow> bool" where
  "behind bytes m \<longleftrightarrow> counts_ok (mobile_last_bytes m) \<and> (\<forall>d. mobile_last_bytes m d \<le> bytes d)"

definition mirrored :: "nat \<Rightarrow> int \<Rightarrow> (Direction \<Rightarrow> int) \<Rightarrow> mobile_vars \<Rightarrow> remote_vars \<Rightarrow> bool" where
  "mirrored n t bytes m r \<longleftrightarrow> mobile_inv t m \<and> remote_inv t r \<and> covers m r
     \<and> (unsampled m \<and> agree m r \<or> behind bytes m \<and> (mobile_last_bytes m = bytes \<longrightarrow> agree m r))
     \<and> (\<forall>st. idle_duration_update_counts m st + int n < 2 ^ 31)"

lemma agree_covers: "agree m r \<Longrightarrow> covers m r"
  by (auto simp: agree_def covers_def)

lemma mobile_state_us: "silent_us (standing t) since i = tv_us t - tv_us since"
  by (simp add: silent_us_def)

lemma radio_of_state:
  "mobile_state_rps report = int_of_state st \<Longrightarrow>
    remote_radio \<lparr>remote_last_mobile_activity = t, remote_state = report\<rparr> = st"
  "mobile_state_rps report = int_of_state st \<Longrightarrow> mobile_state_rps report \<in> {0, 1, 2}"
  by (cases st; simp add: remote_radio_def)+

text \<open>The queues of the callback are the bytes of the last sample and those that have come since.\<close>

definition recent_bytes :: "(Direction \<Rightarrow> int) \<Rightarrow> mobile_vars \<Rightarrow> Direction \<Rightarrow> int" where
  "recent_bytes bytes m d = (if mobile_last_bytes m DOWN = - 1 then 0 else bytes d - mobile_last_bytes m d)"

lemma callback_state_queues:
  assumes "valid_tv t" "stamp_ok (tv_us t) (last_mobile_sample_time m)"
    and "\<And>d. in_int (recent_bytes bytes m d)" "\<And>d. in_int (mobile_last_delta_bytes m d + recent_bytes bytes m d)"
  shows "\<exists>state. callback_state (standing t) bytes rate m 0 = Ok (state, 1)
    \<and> mobile_state_rps state = int_of_state (mobile_state m)
    \<and> (\<forall>d. mobile_queue_len state d = mobile_last_delta_bytes m d + recent_bytes bytes m d)"
proof -
  obtain d where "TIMEDIFF (last_mobile_sample_time m) t = Ok d"
    using TIMEDIFF_Ok [of "last_mobile_sample_time m" t] assms(1,2) by (auto simp: stamp_ok_def)
  then show ?thesis
    using assms(3) size_sum_roundtrip [OF assms(4)]
    by (auto simp: callback_state_def get_mobile_queue_len_locked_def Let_def recent_bytes_def all_directions)
qed

text \<open>One update of the handset at an instant.\<close>

lemma handset_round:
  assumes "power_model pm" "valid_tv t" "mobile_inv (tv_us t) m" "counts_ok bytes"
    and "\<forall>st. idle_duration_update_counts m st + int (Suc n) < 2 ^ 31"
  shows "\<exists>m' j. update_mobile_state pm (standing t) (0, bytes) fire m 0
      = Ok (0, fire \<or> (\<exists>x y. mobile_event (standing t) bytes m 0 = Some (Traffic x y)), m', j)
    \<and> mobile_inv (tv_us t) m' \<and> updated_from pm (standing t) bytes m 0 m' j
    \<and> (\<forall>st. idle_duration_update_counts m' st + int n < 2 ^ 31)"
proof -
  have room: "idle_duration_update_counts m st + 1 + int n < 2 ^ 31" for st
    using spec [OF assms(5), of st] by simp
  then have "idle_duration_update_counts m st < 2 ^ 31 - 1" for st using room [of st] by linarith
  then obtain m' j where u: "update_mobile_state pm (standing t) (0, bytes) fire m 0
      = Ok (0, fire \<or> (\<exists>x y. mobile_event (standing t) bytes m 0 = Some (Traffic x y)), m', j)"
    "mobile_inv (tv_us t) m'" "updated_from pm (standing t) bytes m 0 m' j"
    using update_mobile_state_step [OF assms(1) steady_standing [OF assms(2)], of 0 m bytes 0 fire] assms(3,4)
    by auto
  moreover from u(3) have le: "idle_duration_update_counts m' st \<le> idle_duration_update_counts m st + 1" for st
    by (simp add: updated_from_def Let_def)
  have "idle_duration_update_counts m' st + int n < 2 ^ 31" for st using room [of st] le [of st] by linarith
  ultimately show ?thesis by blast
qed

text \<open>One update of the server at an instant.\<close>

lemma server_round:
  assumes "power_model pm" "valid_tv t" "remote_inv (tv_us t) r"
  shows "\<exists>r' j. update_remote_power_model pm (standing t) r 0 = Ok (r', j) \<and> remote_inv (tv_us t) r'
    \<and> remote_radio r' = timed_out (tv_us t - tv_us (remote_last_mobile_activity r)) (remote_radio r)
    \<and> remote_last_mobile_activity r' =
        (if remote_radio r = MOBILE_POWER_STATE_DCH \<and> remote_radio r' \<noteq> remote_radio r
         then t else remote_last_mobile_activity r)"
proof -
  have "remote_inv (tv_us (clock (standing t) 0)) r" using assms(3) by simp
  from update_remote_step [OF assms(1) steady_standing [OF assms(2)] this] show ?thesis
    unfolding clock_standing mobile_state_us by blast
qed

text \<open>What the handset's update leaves, by the event it has seen.\<close>

lemma update_unsampled:
  assumes "updated_from pm (standing t) bytes' m 0 m' j" "unsampled m" "counts_ok bytes'"
  shows "unsampled m' \<or> behind bytes' m' \<and> mobile_last_bytes m' = bytes' \<and> mobile_last_delta_bytes m' = (\<lambda>_. 0)"
    and "mobile_state m' = MOBILE_POWER_STATE_IDLE"
proof -
  note upd = assms(1) [unfolded updated_from_def Let_def handset_mid_def handset_next_def]
  show "unsampled m' \<or> behind bytes' m' \<and> mobile_last_bytes m' = bytes' \<and> mobile_last_delta_bytes m' = (\<lambda>_. 0)"
    "mobile_state m' = MOBILE_POWER_STATE_IDLE"
    using upd assms(2,3)
    by (cases "due (standing t) bytes' m 0"; auto simp: unsampled_def mobile_event_def behind_def timed_out_def)+
qed

lemma update_traffic:
  assumes "updated_from pm (standing t) bytes' m 0 m' j" "mobile_event (standing t) bytes' m 0 = Some (Traffic down up)"
  shows "mobile_last_bytes m' = bytes'" "\<And>d. mobile_last_delta_bytes m' d = bytes' d - mobile_last_bytes m d"
    "last_mobile_activity m' = t"
  using assms by (auto simp: updated_from_def Let_def handset_mid_def bytes_since_def)

lemma update_silence:
  assumes "updated_from pm (standing t) bytes' m 0 m' j" "mobile_event (standing t) bytes' m 0 = Some (Silence us)"
  shows "mobile_last_bytes m' = mobile_last_bytes m" "mobile_last_delta_bytes m' = (\<lambda>_. 0)"
    "mobile_state m' = timed_out us (mobile_state m)"
    "last_mobile_activity m' =
        (if mobile_state m = MOBILE_POWER_STATE_DCH \<and> mobile_state m' \<noteq> mobile_state m
         then t else last_mobile_activity m)"
  using assms by (simp_all add: updated_from_def Let_def handset_mid_def handset_next_def cong: if_cong)

text \<open>While both only watch their timeouts, they stay in agreement, and the server stays above.\<close>

lemma covers_timeouts:
  assumes "covers m r" "tv_us (last_mobile_activity m) \<le> tv_us t"
    and "mobile_state m' = timed_out (tv_us t - tv_us (last_mobile_activity m)) (mobile_state m)"
    and "remote_radio r' = timed_out (tv_us t - tv_us (remote_last_mobile_activity r)) (remote_radio r)"
    and "last_mobile_activity m' =
        (if mobile_state m = MOBILE_POWER_STATE_DCH \<and> mobile_state m' \<noteq> mobile_state m
         then t else last_mobile_activity m)"
    and "remote_last_mobile_activity r' =
        (if remote_radio r = MOBILE_POWER_STATE_DCH \<and> remote_radio r' \<noteq> remote_radio r
         then t else remote_last_mobile_activity r)"
  shows "covers m' r'" "agree m r \<Longrightarrow> agree m' r'"
  using assms
  by (cases "mobile_state m"; cases "remote_radio r";
      auto simp: covers_def agree_def timed_out_def less_MobileState_def DCH_us_def FACH_us_def split: if_splits)+

lemma report_round:
  assumes "mobile_queue_len state DOWN + mobile_queue_len state UP = q" "in_int q"
  shows "\<exists>j. report_remote_mobile_activity (standing t) state r 0 =
    Ok (\<lparr>remote_last_mobile_activity = (if 0 < q then t else remote_last_mobile_activity r), remote_state = state\<rparr>, j)"
  using report_Ok [of state] assms by simp

text \<open>A report with empty queues keeps an agreement, and one with bytes leaves the server above or in agreement.\<close>

lemma report_agrees:
  assumes "mobile_state_rps state = int_of_state (mobile_state m)"
  defines "r' \<equiv> \<lambda>t. \<lparr>remote_last_mobile_activity = t, remote_state = state\<rparr>"
  shows "agree m r \<Longrightarrow> agree m (r' (remote_last_mobile_activity r))"
    and "last_mobile_activity m = t \<Longrightarrow> agree m (r' t)"
    and "tv_us (last_mobile_activity m) \<le> tv_us t \<Longrightarrow> covers m (r' t)"
    and "stamp_ok u t \<Longrightarrow> remote_inv u (r' t)"
  using radio_of_state [OF assms(1)] by (simp_all add: r'_def agree_def covers_def remote_inv_def)

text \<open>
  The rest of a round, after both updates: what is to be shown of the handset, and of the server without a
  report and with one.
\<close>

lemma round_reports:
  fixes m' and x :: round
  defines "q \<equiv> \<lambda>d. mobile_last_delta_bytes m' d + recent_bytes (counters x) m' d"
  assumes "valid_tv (instant x)"
    and m': "update_mobile_state pm (standing (instant x)) (0, counters x) (wifi_fired x) m 0
        = Ok (0, wifi_fired x \<or> traffic, m', j)" "mobile_inv (tv_us (instant x)) m'"
      "\<forall>st. idle_duration_update_counts m' st + int n < 2 ^ 31"
    and r1: "update_remote_power_model pm (standing (instant x)) r 0 = Ok (r1, i)" "remote_inv (tv_us (instant x)) r1"
    and known: "unsampled m' \<or> behind (counters x) m'"
    and pos: "\<And>d. 0 \<le> mobile_last_delta_bytes m' d" "\<And>d. 0 \<le> recent_bytes (counters x) m' d" "q DOWN + q UP < 2 ^ 31"
    and quiet: "\<not> traffic \<Longrightarrow> covers m' r1 \<and> (unsampled m' \<or> mobile_last_bytes m' = counters x \<longrightarrow> agree m' r1)"
    and empty: "q DOWN + q UP = 0 \<Longrightarrow> agree m' r1"
    and full: "0 < q DOWN + q UP \<Longrightarrow>
      last_mobile_activity m' = instant x \<or> mobile_last_bytes m' \<noteq> counters x \<and> \<not> unsampled m'"
  shows "\<exists>m' r'. mirror_round pm x (m, r) = Ok (m', r') \<and> mirrored n (tv_us (instant x)) (counters x) m' r'"
proof -
  let ?t = "instant x" and ?e = "standing (instant x)"
  note stamps = m'(2) [unfolded mobile_inv_def] assms(2)
  have q0: "0 \<le> q DOWN" "0 \<le> q UP" using pos(1) [of DOWN] pos(1) [of UP] pos(2) [of DOWN] pos(2) [of UP]
    by (simp_all add: q_def)
  have range: "in_int (q DOWN + q UP)" "in_int (recent_bytes (counters x) m' d)"
    "in_int (mobile_last_delta_bytes m' d + recent_bytes (counters x) m' d)" for d
    using q0 pos(1) [of DOWN] pos(1) [of UP] pos(2) [of DOWN] pos(2) [of UP] pos(3)
    by (cases d; simp add: in_int_def q_def)+
  obtain state where state: "callback_state ?e (counters x) (packet_rate x) m' 0 = Ok (state, 1)"
    "mobile_state_rps state = int_of_state (mobile_state m')" "\<forall>d. mobile_queue_len state d = q d"
    using callback_state_queues [OF assms(2) _ range(2,3)] stamps unfolding q_def by blast
  note agrees = report_agrees [OF state(2)]
  let ?r = "\<lparr>remote_last_mobile_activity = (if 0 < q DOWN + q UP then ?t else remote_last_mobile_activity r1),
      remote_state = state\<rparr>"
  have "mobile_queue_len state DOWN + mobile_queue_len state UP = q DOWN + q UP" using state(3) by simp
  from report_round [OF this range(1), of ?t r1] obtain i' where
    "report_remote_mobile_activity ?e state r1 0 = Ok (?r, i')" by blast
  then have run: "mirror_round pm x (m, r) = Ok (m', if wifi_fired x \<or> traffic then ?r else r1)"
    using m'(1) r1(1) state(1) by (simp add: mirror_round_def)
  have "stamp_ok (tv_us ?t) ?t" "tv_us (last_mobile_activity m') \<le> tv_us ?t" "stamp_ok (tv_us ?t) (remote_last_mobile_activity r1)"
    using stamps r1(2) by (auto simp: stamp_ok_def remote_inv_def)
  then have reported: "remote_inv (tv_us ?t) ?r \<and> covers m' ?r \<and> (unsampled m' \<or> mobile_last_bytes m' = counters x \<longrightarrow> agree m' ?r)"
    using agrees full empty q0 by (cases "0 < q DOWN + q UP") (auto intro: agree_covers)
  have "mirrored n (tv_us ?t) (counters x) m' r'"
    if "remote_inv (tv_us ?t) r' \<and> covers m' r' \<and> (unsampled m' \<or> mobile_last_bytes m' = counters x \<longrightarrow> agree m' r')" for r'
    using that m'(2,3) known by (auto simp: mirrored_def)
  with run reported quiet r1(2) show ?thesis by (cases "wifi_fired x \<or> traffic") auto
qed

lemma mirror_round_Ok:
  assumes "power_model pm" "mirrored (Suc n) t bytes m r" "rounds_ok t bytes [x]"
  shows "\<exists>m' r'. mirror_round pm x (m, r) = Ok (m', r') \<and> mirrored n (tv_us (instant x)) (counters x) m' r'"
proof -
  let ?t = "instant x" and ?e = "standing (instant x)"
  have x: "valid_tv ?t" "t \<le> tv_us ?t" "counts_ok (counters x)" "counters x DOWN + counters x UP < 2 ^ 31"
    "bytes d \<le> counters x d" for d
    using assms(3) by (cases d; simp add: small_counts_def)+
  have counts: "0 \<le> counters x d" for d using counts_okD [OF x(3)] by blast
  have now: "mobile_inv (tv_us ?t) m" "remote_inv (tv_us ?t) r" "covers m r"
    "\<forall>st. idle_duration_update_counts m st + int (Suc n) < 2 ^ 31"
    "unsampled m \<and> agree m r \<or> behind bytes m \<and> (mobile_last_bytes m = bytes \<longrightarrow> agree m r)"
    using assms(2) x(2) by (auto simp: mirrored_def remote_inv_def intro: mobile_inv_mono stamp_ok_mono)
  let ?traffic = "\<exists>down up. mobile_event ?e (counters x) m 0 = Some (Traffic down up)"
  obtain m' j where m': "update_mobile_state pm ?e (0, counters x) (wifi_fired x) m 0
      = Ok (0, wifi_fired x \<or> ?traffic, m', j)"
    "mobile_inv (tv_us ?t) m'" "updated_from pm ?e (counters x) m 0 m' j"
    "\<forall>st. idle_duration_update_counts m' st + int n < 2 ^ 31"
    using handset_round [OF assms(1) x(1) now(1) x(3) now(4)] by blast
  obtain r1 i where r1: "update_remote_power_model pm ?e r 0 = Ok (r1, i)" "remote_inv (tv_us ?t) r1"
    "remote_radio r1 = timed_out (tv_us ?t - tv_us (remote_last_mobile_activity r)) (remote_radio r)"
    "remote_last_mobile_activity r1 =
        (if remote_radio r = MOBILE_POWER_STATE_DCH \<and> remote_radio r1 \<noteq> remote_radio r
         then ?t else remote_last_mobile_activity r)"
    using server_round [OF assms(1) x(1) now(2)] by blast
  let ?q = "\<lambda>d. mobile_last_delta_bytes m' d + recent_bytes (counters x) m' d"
  note goal = round_reports [OF x(1) m'(1,2,4) r1(1,2)]
  show ?thesis
  proof (cases "unsampled m")
    case True
    then have idle: "agree m r" "mobile_state m = MOBILE_POWER_STATE_IDLE" "\<not> ?traffic"
      using now(5) counts_okD [of "mobile_last_bytes m" DOWN]
      by (auto simp: behind_def unsampled_def mobile_event_def split: if_splits)
    have u: "unsampled m' \<or> behind (counters x) m' \<and> mobile_last_bytes m' = counters x \<and> mobile_last_delta_bytes m' = (\<lambda>_. 0)"
      "mobile_state m' = MOBILE_POWER_STATE_IDLE"
      using update_unsampled [OF m'(3) True x(3)] by blast+
    then have "?q d = 0" "recent_bytes (counters x) m' d = 0" for d
      by (auto simp: recent_bytes_def unsampled_def)
    moreover have "agree m' r1" using idle(1,2) u(2) r1(3) by (simp add: agree_def)
    ultimately show ?thesis using u(1) idle(3) agree_covers by (intro goal) auto
  next
    case False
    then have last: "behind bytes m" "mobile_last_bytes m = bytes \<longrightarrow> agree m r" using now(5) by auto
    then have b: "0 \<le> mobile_last_bytes m d" "mobile_last_bytes m d \<le> counters x d" for d
      using counts_okD [of "mobile_last_bytes m" d] x(5) [of d] by (auto simp: behind_def intro: order_trans)
    have sum: "counters x DOWN - mobile_last_bytes m DOWN + (counters x UP - mobile_last_bytes m UP) < 2 ^ 31"
      using x(4) b(1) [of DOWN] b(1) [of UP] by linarith
    show ?thesis
    proof (cases ?traffic)
      case True
      then obtain down up where "mobile_event ?e (counters x) m 0 = Some (Traffic down up)" by blast
      note new = update_traffic [OF m'(3) this]
      have "?q d = counters x d - mobile_last_bytes m d" "recent_bytes (counters x) m' d = 0" for d
        using new by (simp_all add: recent_bytes_def)
      moreover have "\<exists>d. mobile_last_bytes m d < counters x d"
        using True by (auto simp: mobile_event_def due_def split: if_splits)
      then have "0 < counters x DOWN - mobile_last_bytes m DOWN + (counters x UP - mobile_last_bytes m UP)"
        using b [of DOWN] b [of UP] by (auto simp: ex_directions)
      ultimately show ?thesis using True new x(3) b sum
        by (intro goal) (auto simp: behind_def)
    next
      case silent: False
      then have "mobile_event ?e (counters x) m 0 = Some (Silence (tv_us ?t - tv_us (last_mobile_activity m)))"
        using b(1) [of DOWN] by (auto simp: mobile_event_def mobile_state_us split: if_splits)
      note old = update_silence [OF m'(3) this]
      have "tv_us (last_mobile_activity m) \<le> tv_us ?t" using now(1) by (simp add: mobile_inv_def stamp_ok_def)
      note both = covers_timeouts [OF now(3) this old(3) r1(3) old(4) r1(4)]
      have agree: "agree m' r1" if "mobile_last_bytes m' = counters x"
      proof -
        have "bytes d = counters x d" for d
          using that old(1) last(1) x(5) [of d] by (auto simp: behind_def intro: order.antisym)
        then have "mobile_last_bytes m = bytes" using that old(1) by (simp add: fun_eq_iff)
        then show ?thesis using last(2) both(2) by blast
      qed
      have q: "?q d = counters x d - mobile_last_bytes m d" "recent_bytes (counters x) m' d = counters x d - mobile_last_bytes m d" for d
        using old(1,2) b(1) [of DOWN] by (simp_all add: recent_bytes_def)
      have empty: "mobile_last_bytes m' = counters x" if "?q DOWN + ?q UP = 0"
      proof -
        have "mobile_last_bytes m d = counters x d" for d using that q b [of DOWN] b [of UP] by (cases d) auto
        then show ?thesis using old(1) by (simp add: fun_eq_iff)
      qed
      have "\<not> unsampled m'" using old(1) b(1) [of DOWN] by (auto simp: unsampled_def)
      moreover have "behind (counters x) m'" using last(1) old(1) b by (simp add: behind_def)
      moreover have "mobile_last_bytes m' \<noteq> counters x" if "0 < ?q DOWN + ?q UP" using that q old(1) by auto
      ultimately show ?thesis
        using q old(2) b sum agree empty both(1) silent by (intro goal) auto
    qed
  qed
qed

lemma mirror_run_Ok:
  assumes "power_model pm" "mirrored (n + length xs) t bytes m r" "rounds_ok t bytes xs"
  shows "\<exists>m' r' t'. mirror_run pm xs (m, r) = Ok (m', r') \<and> mirrored n t' (last_counters bytes xs) m' r'"
  using assms(2,3)
proof (induction xs arbitrary: t bytes m r)
  case (Cons x xs)
  then have "mirrored (Suc (n + length xs)) t bytes m r" by simp
  from mirror_round_Ok [OF assms(1) this, of x] Cons.prems(2) obtain m1 r1 where
    1: "mirror_round pm x (m, r) = Ok (m1, r1)" "mirrored (n + length xs) (tv_us (instant x)) (counters x) m1 r1"
    by auto
  with Cons.IH [OF 1(2)] Cons.prems(2) show ?case by simp
qed auto

lemma mirrored_init:
  assumes "int n + 1 < 2 ^ 31"
  shows "mirrored n 0 (\<lambda>_. 0) mobile_vars_init remote_vars_init"
proof -
  have "agree mobile_vars_init remote_vars_init" "unsampled mobile_vars_init"
    by (simp_all add: agree_def unsampled_def remote_radio_def mobile_vars_init_def remote_vars_init_def)
  then show ?thesis
    using assms mobile_inv_init remote_inv_init agree_covers
    by (auto simp: mirrored_def) (simp add: mobile_vars_init_def)
qed

subsection \<open>A report that arrives late\<close>

text \<open>A round in which nothing is transferred and nothing is reported.\<close>

definition silent_round :: "(Direction \<Rightarrow> int) \<Rightarrow> round \<Rightarrow> bool" where
  "silent_round bytes x \<longleftrightarrow> counters x = bytes \<and> \<not> wifi_fired x"

lemma handset_silent:
  assumes "handset_ok pm (Suc n) t m" "valid_tv u" "t \<le> tv_us u"
  shows "\<exists>m' j. update_mobile_state pm (standing u) (0, mobile_last_bytes m) fire m 0 = Ok (0, fire, m', j)
    \<and> handset_ok pm n (tv_us u) m' \<and> mobile_last_bytes m' = mobile_last_bytes m \<and> mobile_last_delta_bytes m' = (\<lambda>_. 0)
    \<and> mobile_state m' = timed_out (tv_us u - tv_us (last_mobile_activity m)) (mobile_state m)
    \<and> last_mobile_activity m' =
        (if mobile_state m = MOBILE_POWER_STATE_DCH \<and> mobile_state m' \<noteq> mobile_state m
         then u else last_mobile_activity m)"
proof -
  let ?e = "standing u" and ?bytes = "mobile_last_bytes m"
  have pm: "power_model pm" and inv: "mobile_inv (tv_us u) m" "counts_ok ?bytes"
    "\<forall>st. idle_duration_update_counts m st + int (Suc n) < 2 ^ 31"
    using assms(1,3) by (auto simp: handset_ok_def intro: mobile_inv_mono)
  have ev: "mobile_event ?e ?bytes m 0 = Some (Silence (tv_us u - tv_us (last_mobile_activity m)))"
    by (simp add: quiet_event mobile_state_us)
  obtain m' j where m': "update_mobile_state pm ?e (0, ?bytes) fire m 0 = Ok (0, fire, m', j)"
    "mobile_inv (tv_us u) m'" "updated_from pm ?e ?bytes m 0 m' j"
    "\<forall>st. idle_duration_update_counts m' st + int n < 2 ^ 31"
    using handset_round [OF pm assms(2) inv, of fire] ev by auto
  have "mobile_state m' = timed_out (tv_us u - tv_us (last_mobile_activity m)) (mobile_state m)"
    "mobile_last_bytes m' = mobile_last_bytes m" "mobile_last_delta_bytes m' = (\<lambda>_. 0)"
    "last_mobile_activity m' =
        (if mobile_state m = MOBILE_POWER_STATE_DCH \<and> mobile_state m' \<noteq> mobile_state m
         then u else last_mobile_activity m)"
    using m'(3) ev by (simp_all add: updated_from_def Let_def handset_mid_def handset_next_def cong: if_cong)
  then show ?thesis using m'(1,2,4) pm inv(2) by (simp add: handset_ok_def)
qed

lemma silent_round_Ok:
  assumes "power_model pm" "valid_tv (instant x)" "t \<le> tv_us (instant x)" "silent_round (mobile_last_bytes m) x"
    and "handset_ok pm (Suc n) t m" "remote_inv t r" "covers m r"
  shows "\<exists>m' r'. mirror_round pm x (m, r) = Ok (m', r') \<and> handset_ok pm n (tv_us (instant x)) m'
    \<and> remote_inv (tv_us (instant x)) r' \<and> covers m' r' \<and> mobile_last_bytes m' = mobile_last_bytes m"
proof -
  let ?t = "instant x" and ?e = "standing (instant x)"
  have x: "counters x = mobile_last_bytes m" "\<not> wifi_fired x" using assms(4) by (simp_all add: silent_round_def)
  have "remote_inv (tv_us ?t) r" using assms(3,6) by (auto simp: remote_inv_def intro: stamp_ok_mono)
  from server_round [OF assms(1,2) this] obtain r1 i where
    r1: "update_remote_power_model pm ?e r 0 = Ok (r1, i)" "remote_inv (tv_us ?t) r1"
    "remote_radio r1 = timed_out (tv_us ?t - tv_us (remote_last_mobile_activity r)) (remote_radio r)"
    "remote_last_mobile_activity r1 =
        (if remote_radio r = MOBILE_POWER_STATE_DCH \<and> remote_radio r1 \<noteq> remote_radio r
         then ?t else remote_last_mobile_activity r)" by blast
  obtain m' j where m': "update_mobile_state pm ?e (0, counters x) False m 0 = Ok (0, False, m', j)"
    "handset_ok pm n (tv_us ?t) m'" "mobile_last_bytes m' = mobile_last_bytes m"
    "mobile_state m' = timed_out (tv_us ?t - tv_us (last_mobile_activity m)) (mobile_state m)"
    "last_mobile_activity m' =
        (if mobile_state m = MOBILE_POWER_STATE_DCH \<and> mobile_state m' \<noteq> mobile_state m
         then ?t else last_mobile_activity m)"
    using handset_silent [OF assms(5,2,3)] unfolding x by blast
  have "tv_us (last_mobile_activity m) \<le> tv_us ?t"
    using assms(3,5) by (simp add: handset_ok_def mobile_inv_def stamp_ok_def)
  from covers_timeouts(1) [OF assms(7) this m'(4) r1(3) m'(5) r1(4)] have "covers m' r1" .
  moreover have "mirror_round pm x (m, r) = Ok (m', r1)"
    using m'(1) r1(1) x by (simp add: mirror_round_def)
  ultimately show ?thesis using m'(2,3) r1(2) by blast
qed

lemma silent_run_Ok:
  assumes "power_model pm" "rounds_ok t bytes xs" "\<forall>x \<in> set xs. silent_round (mobile_last_bytes m) x"
    and "handset_ok pm (length xs) t m" "remote_inv t r" "covers m r"
  shows "\<exists>m' r'. mirror_run pm xs (m, r) = Ok (m', r') \<and> covers m' r'"
  using assms(2-)
proof (induction xs arbitrary: t bytes m r)
  case (Cons x xs)
  then have x: "valid_tv (instant x)" "t \<le> tv_us (instant x)" "silent_round (mobile_last_bytes m) x"
    "handset_ok pm (Suc (length xs)) t m" "rounds_ok (tv_us (instant x)) (counters x) xs" by simp_all
  from silent_round_Ok [OF assms(1) x(1-4) Cons.prems(4,5)] obtain m1 r1 where
    1: "mirror_round pm x (m, r) = Ok (m1, r1)"
    "handset_ok pm (length xs) (tv_us (instant x)) m1" "remote_inv (tv_us (instant x)) r1" "covers m1 r1"
    "mobile_last_bytes m1 = mobile_last_bytes m" by blast
  have "\<forall>x \<in> set xs. silent_round (mobile_last_bytes m1) x" using Cons.prems(2) 1(5) by simp
  from Cons.IH [OF x(5) this 1(2-4)] 1(1) show ?case by simp
qed auto

subsection \<open>Properties\<close>

text \<open>
  C10: an application that passes every call of the callback to the server keeps the server's copy of the radio
  exact, in an environment of which it is assumed that both clocks show the same time, that a report takes
  no time, and that the server updates before a report arrives. From the start of both and for any
  sequence of rounds, at any distance in time, in which the counters grow and the WiFi rates fire in any way, no call
  fails, and the server's radio is never below the handset's, nor in the same state with an
  earlier time of the last activity. Whenever the handset has taken a sample of all the bytes there are, or none at
  all yet, both are in the same state and out of IDLE have the same time. In between, for the second until the
  next sample, a callback for the WiFi rates reports bytes that the handset has not sampled, and the server's
  time is later.
\<close>

theorem server_mirrors_handset:
  assumes "power_model pm" "rounds_ok 0 (\<lambda>_. 0) xs" "int (length xs) + 1 < 2 ^ 31"
  shows "\<exists>m r. mirror_run pm xs (mobile_vars_init, remote_vars_init) = Ok (m, r)
    \<and> mobile_state m \<le> remote_radio r
    \<and> (mobile_state m = remote_radio r \<and> mobile_state m \<noteq> MOBILE_POWER_STATE_IDLE
        \<longrightarrow> tv_us (last_mobile_activity m) \<le> tv_us (remote_last_mobile_activity r))
    \<and> (mobile_last_bytes m = last_counters (\<lambda>_. 0) xs \<or> mobile_last_bytes m DOWN = - 1
        \<longrightarrow> remote_radio r = mobile_state m
          \<and> (mobile_state m \<noteq> MOBILE_POWER_STATE_IDLE \<longrightarrow> remote_last_mobile_activity r = last_mobile_activity m))"
proof -
  have "mirrored (0 + length xs) 0 (\<lambda>_. 0) mobile_vars_init remote_vars_init"
    using mirrored_init [OF assms(3)] by simp
  from mirror_run_Ok [OF assms(1) this assms(2)] obtain m r t where
    run: "mirror_run pm xs (mobile_vars_init, remote_vars_init) = Ok (m, r)" "covers m r"
      "unsampled m \<and> agree m r
       \<or> behind (last_counters (\<lambda>_. 0) xs) m \<and> (mobile_last_bytes m = last_counters (\<lambda>_. 0) xs \<longrightarrow> agree m r)"
    unfolding mirrored_def by blast
  have "agree m r" if "mobile_last_bytes m = last_counters (\<lambda>_. 0) xs \<or> mobile_last_bytes m DOWN = - 1"
    using that run(3) counts_okD [of "mobile_last_bytes m" DOWN] by (auto simp: behind_def)
  with run(1,2) show ?thesis by (auto simp: agree_def covers_def)
qed

text \<open>
  A first sample, a transfer that takes the radio to DCH, more bytes 100 ms later when the WiFi rate changes, and their
  sample.
\<close>

definition some_rounds :: "round list" where
  "some_rounds =
     [\<lparr>instant = \<lparr>tv_sec = 100, tv_usec = 0\<rparr>, counters = (\<lambda>_. 0), wifi_fired = False, packet_rate = 0\<rparr>,
      \<lparr>instant = \<lparr>tv_sec = 102, tv_usec = 0\<rparr>, counters = (\<lambda>_. 5000), wifi_fired = False, packet_rate = 0\<rparr>,
      \<lparr>instant = \<lparr>tv_sec = 102, tv_usec = 100000\<rparr>, counters = (\<lambda>_. 6000), wifi_fired = True, packet_rate = 9\<rparr>,
      \<lparr>instant = \<lparr>tv_sec = 103, tv_usec = 0\<rparr>, counters = (\<lambda>_. 6000), wifi_fired = False, packet_rate = 9\<rparr>]"

lemma server_mirrors_handset_witness:
  "\<exists>m r. mirror_run nexus_one some_rounds (mobile_vars_init, remote_vars_init) = Ok (m, r)
    \<and> (mobile_last_bytes m = (\<lambda>_. 6000) \<longrightarrow> remote_radio r = mobile_state m)"
  using server_mirrors_handset [OF nexus_one_ok, of some_rounds]
  by (auto simp: some_rounds_def small_counts_def counts_ok_def valid_tv_def tv_us_def)

text \<open>
  C31: a report of activity that arrives late does no harm, as long as the state it carries is still
  the handset's when it arrives. The server then never
  believes the radio to be in a lower state than it is: through any rounds without further traffic both
  sides watch their timeouts, no call fails, and the server's state stays at or above the handset's.
\<close>

theorem late_report_covers:
  assumes "power_model pm" "valid_tv t" "handset_ok pm (length xs) (tv_us t) m" "remote_inv (tv_us t) r"
    and "mobile_state_rps report = int_of_state (mobile_state m)"
    and "0 < mobile_queue_len report DOWN + mobile_queue_len report UP"
    and "mobile_queue_len report DOWN + mobile_queue_len report UP < 2 ^ 31"
    and "rounds_ok (tv_us t) (mobile_last_bytes m) xs" "\<forall>x \<in> set xs. silent_round (mobile_last_bytes m) x"
  shows "\<exists>r1 j m' r'. report_remote_mobile_activity (standing t) report r 0 = Ok (r1, j)
    \<and> mirror_run pm xs (m, r1) = Ok (m', r') \<and> mobile_state m' \<le> remote_radio r'"
proof -
  let ?r = "\<lparr>remote_last_mobile_activity = t, remote_state = report\<rparr>"
  have report: "report_remote_mobile_activity (standing t) report r 0 = Ok (?r, 1)"
    using assms(6,7) by (subst report_Ok) (simp_all add: in_int_def)
  have "remote_radio ?r = mobile_state m" "mobile_state_rps report \<in> {0, 1, 2}"
    using assms(5) by (cases "mobile_state m"; simp add: remote_radio_def)+
  then have "covers m ?r" "remote_inv (tv_us t) ?r"
    using assms(2,3) by (simp_all add: covers_def remote_inv_def handset_ok_def mobile_inv_def stamp_ok_def)
  from silent_run_Ok [OF assms(1,8,9,3) this(2,1)] report show ?thesis
    by (auto simp: covers_def order.order_iff_strict)
qed

text \<open>The report arrives three seconds after the activity; the handset leaves DCH a second later.\<close>

definition active_handset :: mobile_vars where
  "active_handset = sampled_once\<lparr>mobile_state := MOBILE_POWER_STATE_DCH,
     last_mobile_activity := \<lparr>tv_sec = 100, tv_usec = 0\<rparr>\<rparr>"

lemma active_handset_ok:
  "100000000 \<le> t \<Longrightarrow> n < 1000 \<Longrightarrow> handset_ok nexus_one n t active_handset"
  using sampled_once_inv [of t]
  by (auto simp: handset_ok_def active_handset_def mobile_inv_def ledger_ok_def tracked_us_def stamp_ok_def
      valid_tv_def tv_us_def counts_ok_def)

lemma late_report_covers_witness:
  "\<exists>r1 j m' r'. report_remote_mobile_activity (standing \<lparr>tv_sec = 103, tv_usec = 0\<rparr>) reported_dch remote_vars_init 0 = Ok (r1, j)
    \<and> mirror_run nexus_one [\<lparr>instant = \<lparr>tv_sec = 104, tv_usec = 0\<rparr>, counters = (\<lambda>_. 0), wifi_fired = False, packet_rate = 0\<rparr>]
        (active_handset, r1) = Ok (m', r') \<and> mobile_state m' \<le> remote_radio r'"
proof (rule late_report_covers [OF nexus_one_ok])
  show "handset_ok nexus_one (length [\<lparr>instant = \<lparr>tv_sec = 104, tv_usec = 0\<rparr>, counters = (\<lambda>_. 0), wifi_fired = False, packet_rate = 0\<rparr>])
      (tv_us \<lparr>tv_sec = 103, tv_usec = 0\<rparr>) active_handset"
    by (rule active_handset_ok) (simp_all add: tv_us_def)
  show "remote_inv (tv_us \<lparr>tv_sec = 103, tv_usec = 0\<rparr>) remote_vars_init"
    by (rule remote_inv_init) (simp add: tv_us_def)
qed (simp_all add: valid_tv_def reported_dch_def active_handset_def silent_round_def small_counts_def
    counts_ok_def tv_us_def)

text \<open>
  C33: a callback for the WiFi rates alone can make the server's copy wrong.
  When the handset has just left DCH and the report, with empty queues, reaches a server that has not
  updated yet, the state becomes FACH but the time of the last activity stays: the server enters IDLE six
  seconds after the last activity, while the handset stays in FACH for six seconds after it left DCH.
\<close>

theorem rate_report_cuts_tail:
  assumes "power_model pm" "valid_tv t" "valid_tv u" "handset_ok pm 2 (tv_us t) m" "remote_inv (tv_us t) r" "agree m r"
    and "mobile_state m = MOBILE_POWER_STATE_DCH" "tv_us (last_mobile_activity m) + 4000000 \<le> tv_us t"
    and "tv_us t \<le> tv_us u" "tv_us (last_mobile_activity m) + 6000000 \<le> tv_us u" "tv_us u < tv_us t + 6000000"
  shows "\<exists>m1 report r1 m2 r2 j1 j2 j3 j4.
      update_mobile_state pm (standing t) (0, mobile_last_bytes m) True m 0 = Ok (0, True, m1, j1)
    \<and> callback_state (standing t) (mobile_last_bytes m) rate m1 0 = Ok (report, 1)
    \<and> report_remote_mobile_activity (standing t) report r 0 = Ok (r1, j2)
    \<and> mobile_state m1 = MOBILE_POWER_STATE_FACH \<and> remote_radio r1 = MOBILE_POWER_STATE_FACH
    \<and> update_mobile_state pm (standing u) (0, mobile_last_bytes m1) False m1 0 = Ok (0, False, m2, j3)
    \<and> update_remote_power_model pm (standing u) r1 0 = Ok (r2, j4)
    \<and> mobile_state m2 = MOBILE_POWER_STATE_FACH \<and> remote_radio r2 = MOBILE_POWER_STATE_IDLE"
proof -
  have two: "handset_ok pm (Suc (Suc 0)) (tv_us t) m" using assms(4) by (simp add: numeral_2_eq_2)
  have idle: "tv_us t - tv_us (last_mobile_activity m) \<ge> DCH_us" using assms(8) by (simp add: DCH_us_def)
  from handset_silent [OF two assms(2), of True] idle assms(7) obtain m1 j1 where
    m1: "update_mobile_state pm (standing t) (0, mobile_last_bytes m) True m 0 = Ok (0, True, m1, j1)"
    "handset_ok pm (Suc 0) (tv_us t) m1" "mobile_state m1 = MOBILE_POWER_STATE_FACH" "last_mobile_activity m1 = t"
    "mobile_last_bytes m1 = mobile_last_bytes m" "mobile_last_delta_bytes m1 = (\<lambda>_. 0)"
    by (auto simp: timed_out_def)
  from handset_silent [OF m1(2) assms(3,9), of False] m1(3,4) assms(11) obtain m2 j2 where
    m2: "update_mobile_state pm (standing u) (0, mobile_last_bytes m1) False m1 0 = Ok (0, False, m2, j2)"
    "mobile_state m2 = MOBILE_POWER_STATE_FACH"
    by (auto simp: timed_out_def FACH_us_def)
  have "stamp_ok (tv_us t) (last_mobile_sample_time m1)" using m1(2) by (simp add: handset_ok_def mobile_inv_def)
  moreover have "recent_bytes (mobile_last_bytes m) m1 d = 0" for d using m1(5) by (simp add: recent_bytes_def)
  ultimately obtain report where
    report: "callback_state (standing t) (mobile_last_bytes m) rate m1 0 = Ok (report, 1)"
    "mobile_state_rps report = int_of_state (mobile_state m1)" "\<forall>d. mobile_queue_len report d = 0"
    using callback_state_queues [OF assms(2), of m1 "mobile_last_bytes m" rate] m1(6) by (auto simp: in_int_def)
  let ?r = "\<lparr>remote_last_mobile_activity = remote_last_mobile_activity r, remote_state = report\<rparr>"
  obtain j where r1: "report_remote_mobile_activity (standing t) report r 0 = Ok (?r, j)"
    using report_round [of report 0 t r] report(3) by (auto simp: in_int_def)
  have radio: "remote_radio ?r = MOBILE_POWER_STATE_FACH" "mobile_state_rps report \<in> {0, 1, 2}"
    using radio_of_state report(2) m1(3) by metis+
  have "remote_inv (tv_us u) ?r"
    using assms(5,9) radio(2) by (auto simp: remote_inv_def intro: stamp_ok_mono)
  moreover have "remote_last_mobile_activity r = last_mobile_activity m"
    using assms(6,7) by (simp add: agree_def)
  ultimately obtain r2 j3 where "update_remote_power_model pm (standing u) ?r 0 = Ok (r2, j3)"
    "remote_radio r2 = MOBILE_POWER_STATE_IDLE"
    using server_round [OF assms(1,3)] radio(1) assms(10) by (fastforce simp: timed_out_def FACH_us_def)
  then show ?thesis using m1(1,3) m2 report(1) r1 radio(1) by blast
qed

lemma rate_report_cuts_tail_witness:
  "\<exists>m1 report r1 m2 r2 j1 j2 j3 j4.
      update_mobile_state nexus_one (standing \<lparr>tv_sec = 104, tv_usec = 0\<rparr>) (0, \<lambda>_. 0) True active_handset 0 = Ok (0, True, m1, j1)
    \<and> callback_state (standing \<lparr>tv_sec = 104, tv_usec = 0\<rparr>) (\<lambda>_. 0) 9 m1 0 = Ok (report, 1)
    \<and> report_remote_mobile_activity (standing \<lparr>tv_sec = 104, tv_usec = 0\<rparr>) report
        \<lparr>remote_last_mobile_activity = \<lparr>tv_sec = 100, tv_usec = 0\<rparr>, remote_state = reported_dch\<rparr> 0 = Ok (r1, j2)
    \<and> update_mobile_state nexus_one (standing \<lparr>tv_sec = 106, tv_usec = 0\<rparr>) (0, mobile_last_bytes m1) False m1 0 = Ok (0, False, m2, j3)
    \<and> update_remote_power_model nexus_one (standing \<lparr>tv_sec = 106, tv_usec = 0\<rparr>) r1 0 = Ok (r2, j4)
    \<and> mobile_state m2 = MOBILE_POWER_STATE_FACH \<and> remote_radio r2 = MOBILE_POWER_STATE_IDLE"
proof -
  let ?t = "\<lparr>tv_sec = 104, tv_usec = 0\<rparr>" and ?u = "\<lparr>tv_sec = 106, tv_usec = 0\<rparr>"
    and ?r = "\<lparr>remote_last_mobile_activity = \<lparr>tv_sec = 100, tv_usec = 0\<rparr>, remote_state = reported_dch\<rparr>"
  have "handset_ok nexus_one 2 (tv_us ?t) active_handset"
    by (rule active_handset_ok) (simp_all add: tv_us_def)
  moreover have "remote_inv (tv_us ?t) ?r"
    by (simp add: remote_inv_def reported_dch_def stamp_ok_def valid_tv_def tv_us_def)
  moreover have "agree active_handset ?r"
    by (simp add: agree_def active_handset_def remote_radio_def reported_dch_def)
  ultimately show ?thesis
    using rate_report_cuts_tail [OF nexus_one_ok, of ?t ?u active_handset ?r 9]
    by (simp add: valid_tv_def tv_us_def active_handset_def) blast
qed

text \<open>
  C32: a server forgets the packet rate it is told. The comment means the rate to be
  dropped when no update has come for a second and a half, but the code measures the time since the last
  cellular activity. When that is past, a report of the packet rate alone puts the server's WiFi in the high-power
  state, and the next update of the server, however soon, takes it back to the low-power state.
\<close>

theorem rate_report_forgotten:
  assumes "power_model pm" "steady e" "remote_inv (tv_us (clock e k)) r"
    and "mobile_state_rps state \<in> {0, 1, 2}" "mobile_queue_len state DOWN = 0" "mobile_queue_len state UP = 0"
    and "tv_us (remote_last_mobile_activity r) + 1500000 \<le> tv_us (clock e k)"
    and "WIFI_PACKET_RATE_THRESHOLD pm < wifi_packet_rate_rps state" "in_int (wifi_packet_rate_rps state)"
  shows "\<exists>r1 r2 j rate. report_remote_mobile_activity e state r k = Ok (r1, k)
    \<and> wifi_packet_rate Server_build r1 w = Ok rate \<and> wifi_high_state pm rate 0 = Ok True
    \<and> update_remote_power_model pm e r1 k = Ok (r2, j)
    \<and> wifi_packet_rate Server_build r2 w = Ok 0 \<and> wifi_high_state pm 0 0 = Ok False"
proof -
  let ?r = "\<lparr>remote_last_mobile_activity = remote_last_mobile_activity r, remote_state = state\<rparr>"
  have report: "report_remote_mobile_activity e state r k = Ok (?r, k)"
    using assms(5,6) by (subst report_Ok) (simp_all add: in_int_def)
  have "remote_inv (tv_us (clock e k)) ?r" using assms(3,4) by (simp add: remote_inv_def)
  from update_remote_step [OF assms(1,2) this] assms(7) obtain r2 j where
    r2: "update_remote_power_model pm e ?r k = Ok (r2, j)" "wifi_packet_rate_rps (remote_state r2) = 0"
    by (auto simp: silent_us_def)
  have "wifi_high_state pm (wifi_packet_rate_rps state) 0 = Ok True"
    using wifi_high_state_zero [OF assms(9), of pm] assms(8) by simp
  moreover have "wifi_high_state pm 0 0 = Ok False"
    using wifi_high_state_zero [of 0 pm] power_model.wifi_powers(4) [OF assms(1)] by (simp add: in_int_def)
  ultimately show ?thesis using report r2 by (simp add: wifi_packet_rate_def power_model_is_remote_def)
qed

lemma rate_report_forgotten_witness:
  "\<exists>r1 r2 j rate. report_remote_mobile_activity (ticking 2)
        \<lparr>mobile_state_rps = 0, mobile_queue_len = (\<lambda>_. 0), wifi_packet_rate_rps = 200\<rparr> remote_vars_init 3 = Ok (r1, 3)
    \<and> wifi_packet_rate Server_build r1 wifi_vars_init = Ok rate \<and> wifi_high_state nexus_one rate 0 = Ok True
    \<and> update_remote_power_model nexus_one (ticking 2) r1 3 = Ok (r2, j)
    \<and> wifi_packet_rate Server_build r2 wifi_vars_init = Ok 0 \<and> wifi_high_state nexus_one 0 0 = Ok False"
proof (rule rate_report_forgotten [OF nexus_one_ok])
  show "remote_inv (tv_us (clock (ticking 2) 3)) remote_vars_init" by (rule remote_inv_init) (simp add: tv_us_def)
qed (simp_all add: remote_vars_init_def timerclear_def tv_us_def in_int_def)

end
