(* ===== verification/Lock_Order.thy ===== *)
theory Lock_Order
  imports Interface Locks
begin

text \<open>
  The six mutexes of \<^verbatim>\<open>libpowertutor.cpp\<close> and the order in which its functions take them.
  For every function there is its lock program, the sequence of lock and unlock operations of its
  scoped locks on each branch, and threads run the programs of the calls they make, interleaved
  (\<open>lock_schedule\<close>).

  \<open>after\<close> runs a program on a stack of held locks and only accepts one that takes them in the
  order of their numbers; \<open>order_inv\<close> is the invariant of the interleavings, from which follows
  that some thread can always go on.
\<close>

subsection \<open>The locks\<close>

datatype library_lock =
    Update_thread_lock | Stats_lock | Mobile_state_lock | Wifi_state_lock
  | Remote_power_state_lock | Mocked_net_dev_stats_lock

text \<open>A number for each lock, its address in \<open>mutexes\<close> and its place in the order.\<close>

fun lock_number :: "library_lock \<Rightarrow> nat" where
  "lock_number Update_thread_lock = 0"
| "lock_number Stats_lock = 1"
| "lock_number Mobile_state_lock = 2"
| "lock_number Wifi_state_lock = 3"
| "lock_number Remote_power_state_lock = 4"
| "lock_number Mocked_net_dev_stats_lock = 5"

lemma lock_number_inj [simp]: "lock_number l = lock_number m \<longleftrightarrow> l = m"
  by (cases l; cases m; simp)

lemma lock_number_bound: "lock_number l < 6"
  by (cases l) simp_all

datatype lock_action = Lock library_lock | Unlock library_lock

text \<open>The lifetime of a \<open>PthreadScopedLock\<close>, with what the scope does in between.\<close>

definition scoped :: "library_lock \<Rightarrow> lock_action list \<Rightarrow> lock_action list" where
  "scoped l body = Lock l # body @ [Unlock l]"

subsection \<open>The lock programs of the functions\<close>

definition get_activity_callback_locks :: "lock_action list" where
  "get_activity_callback_locks = scoped Mobile_state_lock []"

definition get_mobile_state_locks :: "build \<Rightarrow> lock_action list" where
  "get_mobile_state_locks b =
     (if power_model_is_remote b then scoped Remote_power_state_lock [] else scoped Mobile_state_lock [])"

definition get_net_dev_stats_locks :: "build \<Rightarrow> lock_action list" where
  "get_net_dev_stats_locks b =
     (if b = Simulation_build then scoped Mocked_net_dev_stats_lock [] else [])"

definition get_mobile_queue_len_locks :: "build \<Rightarrow> lock_action list" where
  "get_mobile_queue_len_locks b =
     (if power_model_is_remote b then scoped Remote_power_state_lock []
      else get_net_dev_stats_locks b @ scoped Mobile_state_lock [])"

definition time_since_last_mobile_activity_locks :: "build \<Rightarrow> bool \<Rightarrow> lock_action list" where
  "time_since_last_mobile_activity_locks b already_locked =
     (if already_locked then []
      else scoped (if power_model_is_remote b then Remote_power_state_lock else Mobile_state_lock) [])"

definition time_fraction_in_state_locks :: "lock_action list" where
  "time_fraction_in_state_locks = scoped Mobile_state_lock []"

definition average_idle_duration_for_state_locks :: "lock_action list" where
  "average_idle_duration_for_state_locks = scoped Mobile_state_lock []"

definition estimate_mobile_energy_cost_average_locks :: "lock_action list" where
  "estimate_mobile_energy_cost_average_locks = concat (map
     (\<lambda>_. average_idle_duration_for_state_locks @ time_fraction_in_state_locks)
     [MOBILE_POWER_STATE_IDLE, MOBILE_POWER_STATE_FACH, MOBILE_POWER_STATE_DCH])"

definition add_value_to_array_locks :: "lock_action list" where
  "add_value_to_array_locks = scoped Mocked_net_dev_stats_lock [] @ scoped Mocked_net_dev_stats_lock []"

definition wifi_uplink_data_rate_locks :: "lock_action list" where
  "wifi_uplink_data_rate_locks = scoped Wifi_state_lock []"

definition wifi_packet_rate_locks :: "build \<Rightarrow> lock_action list" where
  "wifi_packet_rate_locks b =
     (if power_model_is_remote b then scoped Remote_power_state_lock [] else scoped Wifi_state_lock [])"

definition wifi_channel_rate_component_locks :: "build \<Rightarrow> lock_action list" where
  "wifi_channel_rate_component_locks b =
     (if power_model_is_remote b then [] else wifi_uplink_data_rate_locks)"

definition get_energy_computer_locks :: "build \<Rightarrow> NetworkType \<Rightarrow> lock_action list" where
  "get_energy_computer_locks b type =
     (if type = TYPE_MOBILE
      then get_mobile_queue_len_locks b @ get_mobile_state_locks b
             @ time_since_last_mobile_activity_locks b False
      else wifi_packet_rate_locks b @ wifi_channel_rate_component_locks b)"

text \<open>
  The branches an update takes: whether the counters of the two interfaces can be read, whether it
  fires the callback, whether one is registered, what the callback locks by the functions of the
  library it calls, whether a second has passed since the last charge, and whether WiFi is in its
  high state.
\<close>

record update_branches =
  wifi_read :: bool
  mobile_read :: bool
  fires :: bool
  registered :: bool
  callback_locks :: "lock_action list"
  charges :: bool
  high :: bool

definition update_wifi_estimated_rates_locks :: "build \<Rightarrow> update_branches \<Rightarrow> lock_action list" where
  "update_wifi_estimated_rates_locks b r =
     get_net_dev_stats_locks b @ (if wifi_read r then scoped Wifi_state_lock [] else [])"

definition update_mobile_state_locks :: "build \<Rightarrow> update_branches \<Rightarrow> lock_action list" where
  "update_mobile_state_locks b r =
     get_net_dev_stats_locks b
     @ (if mobile_read r
        then scoped Mobile_state_lock (time_since_last_mobile_activity_locks b True) else [])"

definition update_remote_power_model_locks :: "lock_action list" where
  "update_remote_power_model_locks = scoped Remote_power_state_lock []"

definition update_consumption_stats_locks :: "build \<Rightarrow> update_branches \<Rightarrow> lock_action list" where
  "update_consumption_stats_locks b r =
     (if charges r
      then wifi_packet_rate_locks b @ (if high r then wifi_channel_rate_component_locks b else [])
             @ get_mobile_state_locks b @ scoped Stats_lock []
      else [])"

definition update_energy_stats_locks :: "build \<Rightarrow> update_branches \<Rightarrow> lock_action list" where
  "update_energy_stats_locks b r =
     (if ANDROID b
      then update_wifi_estimated_rates_locks b r @ update_mobile_state_locks b r
        @ (if fires r
           then get_activity_callback_locks
             @ (if registered r
                then get_mobile_state_locks b @ get_mobile_queue_len_locks b @ wifi_packet_rate_locks b
                       @ callback_locks r
                else [])
           else [])
        @ update_consumption_stats_locks b r
      else update_remote_power_model_locks)"

text \<open>\<open>pthread_cond_timedwait\<close> gives the lock back and takes it again.\<close>

definition NetworkStatsUpdateThread_locks :: "build \<Rightarrow> update_branches list \<Rightarrow> lock_action list" where
  "NetworkStatsUpdateThread_locks b rs =
     scoped Update_thread_lock (concat (map
       (\<lambda>r. update_energy_stats_locks b r @ [Unlock Update_thread_lock, Lock Update_thread_lock]) rs))"

definition libpowertutor_fin_locks :: "build \<Rightarrow> lock_action list" where
  "libpowertutor_fin_locks b = (if b = Simulation_build then [] else scoped Update_thread_lock [])"

definition reset_stats_locks :: "build \<Rightarrow> update_branches \<Rightarrow> lock_action list" where
  "reset_stats_locks b r = scoped Stats_lock (update_energy_stats_locks b r)"

text \<open>The three functions that report what was consumed.\<close>

definition since_reset_locks :: "lock_action list" where
  "since_reset_locks = scoped Stats_lock []"

definition register_mobile_activity_callback_locks :: "build \<Rightarrow> lock_action list" where
  "register_mobile_activity_callback_locks b = (if ANDROID b then scoped Mobile_state_lock [] else [])"

definition report_remote_mobile_activity_locks :: "lock_action list" where
  "report_remote_mobile_activity_locks = scoped Remote_power_state_lock []"

text \<open>What threads call: the functions of the library, the update thread and the destructor.\<close>

datatype library_call =
    Estimate NetworkType | Estimate_average | Add_to_counters | Time_fraction
  | Update_stats update_branches | Update_thread_runs "update_branches list" | Finish
  | Reset_stats update_branches | Since_reset | Register_callback | Report_activity

fun call_locks :: "build \<Rightarrow> library_call \<Rightarrow> lock_action list" where
  "call_locks b (Estimate type) = get_energy_computer_locks b type"
| "call_locks b Estimate_average = estimate_mobile_energy_cost_average_locks"
| "call_locks b Add_to_counters = add_value_to_array_locks"
| "call_locks b Time_fraction = time_fraction_in_state_locks"
| "call_locks b (Update_stats r) = update_energy_stats_locks b r"
| "call_locks b (Update_thread_runs rs) = NetworkStatsUpdateThread_locks b rs"
| "call_locks b Finish = libpowertutor_fin_locks b"
| "call_locks b (Reset_stats r) = reset_stats_locks b r"
| "call_locks b Since_reset = since_reset_locks"
| "call_locks b Register_callback = register_mobile_activity_callback_locks b"
| "call_locks b Report_activity = report_remote_mobile_activity_locks"

definition calls_locks :: "build \<Rightarrow> library_call list \<Rightarrow> lock_action list" where
  "calls_locks b cs = concat (map (call_locks b) cs)"

subsection \<open>The order\<close>

text \<open>The stack of held locks after a program that takes them in the order of their numbers.\<close>

fun after :: "library_lock list \<Rightarrow> lock_action list \<Rightarrow> library_lock list option" where
  "after H [] = Some H"
| "after H (Lock l # as) =
     (if \<forall>h \<in> set H. lock_number h < lock_number l then after (l # H) as else None)"
| "after (h # H) (Unlock l # as) = (if h = l then after H as else None)"
| "after [] (Unlock l # as) = None"

lemma after_append: "after H (as @ bs) = (case after H as of None \<Rightarrow> None | Some H' \<Rightarrow> after H' bs)"
  by (induction H as rule: after.induct) auto

lemma after_scoped [simp]:
  "\<forall>h \<in> set H. lock_number h < lock_number l \<Longrightarrow> after (l # H) body = Some (l # H) \<Longrightarrow> after H (scoped l body) = Some H"
  by (simp add: scoped_def after_append)

lemma after_concat: "\<forall>as \<in> set ass. after H as = Some H \<Longrightarrow> after H (concat ass) = Some H"
  by (induction ass) (simp_all add: after_append)

text \<open>
  Every function keeps the stack. Those that hold one lock at a time may be called with the first two
  locks held.
\<close>

named_theorems keeps_stack

definition first_two :: "library_lock list \<Rightarrow> bool" where
  "first_two H \<longleftrightarrow> (\<forall>h \<in> set H. lock_number h < 2)"

lemma first_two_simps [simp]:
  "first_two []" "first_two [Update_thread_lock]" "first_two [Stats_lock]"
  by (simp_all add: first_two_def)

lemma after_leaf [keeps_stack]: "first_two H \<Longrightarrow> 2 \<le> lock_number l \<Longrightarrow> after H (scoped l []) = Some H"
  by (rule after_scoped) (auto simp: first_two_def)

lemma after_both: "after H as = Some H \<Longrightarrow> after H bs = Some H \<Longrightarrow> after H (as @ bs) = Some H"
  by (simp add: after_append)

lemma keeps_leaf [keeps_stack]:
  assumes "first_two H"
  shows "after H get_activity_callback_locks = Some H"
    "after H (get_mobile_state_locks b) = Some H"
    "after H (get_net_dev_stats_locks b) = Some H"
    "after H (time_since_last_mobile_activity_locks b x) = Some H"
    "after H time_fraction_in_state_locks = Some H"
    "after H average_idle_duration_for_state_locks = Some H"
    "after H wifi_uplink_data_rate_locks = Some H"
    "after H (wifi_packet_rate_locks b) = Some H"
    "after H update_remote_power_model_locks = Some H"
    "after H (register_mobile_activity_callback_locks b) = Some H"
    "after H report_remote_mobile_activity_locks = Some H"
  using assms
  by (simp_all add: keeps_stack get_activity_callback_locks_def get_mobile_state_locks_def
      get_net_dev_stats_locks_def time_since_last_mobile_activity_locks_def time_fraction_in_state_locks_def
      average_idle_duration_for_state_locks_def wifi_uplink_data_rate_locks_def wifi_packet_rate_locks_def
      update_remote_power_model_locks_def register_mobile_activity_callback_locks_def
      report_remote_mobile_activity_locks_def)

lemma keeps_second [keeps_stack]:
  assumes "first_two H"
  shows "after H (get_mobile_queue_len_locks b) = Some H"
    "after H (wifi_channel_rate_component_locks b) = Some H"
    "after H add_value_to_array_locks = Some H"
    "after H (update_wifi_estimated_rates_locks b r) = Some H"
    "after H (update_mobile_state_locks b r) = Some H"
  using assms
  by (simp_all add: keeps_stack after_append get_mobile_queue_len_locks_def
      wifi_channel_rate_component_locks_def add_value_to_array_locks_def
      update_wifi_estimated_rates_locks_def update_mobile_state_locks_def
      time_since_last_mobile_activity_locks_def)

lemma keeps_third [keeps_stack]:
  assumes "first_two H"
  shows "after H (get_energy_computer_locks b type) = Some H"
    "after H estimate_mobile_energy_cost_average_locks = Some H"
  using assms
  by (simp_all add: keeps_stack after_append get_energy_computer_locks_def
      estimate_mobile_energy_cost_average_locks_def)

text \<open>
  What is asked of a call: the functions that a callback calls back respect the order, also under the
  lock of the update thread; and the update inside \<open>reset_stats\<close> neither charges (less than a second
  has passed) nor fires.
\<close>

definition callback_ok :: "update_branches \<Rightarrow> bool" where
  "callback_ok r \<longleftrightarrow> after [] (callback_locks r) = Some []
     \<and> after [Update_thread_lock] (callback_locks r) = Some [Update_thread_lock]"

fun call_ok :: "library_call \<Rightarrow> bool" where
  "call_ok (Update_stats r) = callback_ok r"
| "call_ok (Update_thread_runs rs) = (\<forall>r \<in> set rs. callback_ok r)"
| "call_ok (Reset_stats r) = (\<not> charges r \<and> \<not> fires r)"
| "call_ok _ = True"

lemma after_consumption:
  "H = [] \<or> H = [Update_thread_lock] \<Longrightarrow> after H (update_consumption_stats_locks b r) = Some H"
  by (elim disjE) (simp_all add: keeps_stack after_append update_consumption_stats_locks_def)

lemma after_update:
  assumes "H = [] \<or> H = [Update_thread_lock]" "callback_ok r"
  shows "after H (update_energy_stats_locks b r) = Some H"
proof -
  have H: "first_two H" using assms(1) by auto
  have "after H (callback_locks r) = Some H" using assms by (auto simp: callback_ok_def)
  then show ?thesis
    by (simp add: update_energy_stats_locks_def after_append keeps_stack [OF H] after_consumption [OF assms(1)])
qed

lemma after_update_in_reset:
  "\<not> charges r \<Longrightarrow> \<not> fires r \<Longrightarrow> after [Stats_lock] (update_energy_stats_locks b r) = Some [Stats_lock]"
  by (simp add: update_energy_stats_locks_def update_consumption_stats_locks_def after_append keeps_stack)

lemma after_thread:
  assumes "\<forall>r \<in> set rs. callback_ok r"
  shows "after [] (NetworkStatsUpdateThread_locks b rs) = Some []"
proof -
  have "after [Update_thread_lock]
      (update_energy_stats_locks b r @ [Unlock Update_thread_lock, Lock Update_thread_lock])
    = Some [Update_thread_lock]" if "r \<in> set rs" for r
    using that assms by (simp add: after_append after_update)
  then show ?thesis
    unfolding NetworkStatsUpdateThread_locks_def by (intro after_scoped after_concat) auto
qed

lemma after_call: "call_ok c \<Longrightarrow> after [] (call_locks b c) = Some []"
  by (cases c) (simp_all add: keeps_stack after_update after_update_in_reset after_thread reset_stats_locks_def
    libpowertutor_fin_locks_def since_reset_locks_def)

lemma after_calls: "\<forall>c \<in> set cs. call_ok c \<Longrightarrow> after [] (calls_locks b cs) = Some []"
  unfolding calls_locks_def by (intro after_concat) (auto simp: after_call)

text \<open>The update inside a reset that charges asks for a lock that its thread holds.\<close>

lemma charging_reset_out_of_order:
  "ANDROID b \<Longrightarrow> charges r \<Longrightarrow> \<not> fires r \<Longrightarrow> after [] (call_locks b (Reset_stats r)) = None"
  by (simp add: reset_stats_locks_def scoped_def update_energy_stats_locks_def
      update_consumption_stats_locks_def after_append keeps_stack)

subsection \<open>Interleavings\<close>

record lock_run =
  mutex_owners :: mutexes
  to_do :: "thread \<Rightarrow> lock_action list"

definition threads_call :: "build \<Rightarrow> (thread \<Rightarrow> library_call list) \<Rightarrow> lock_run" where
  "threads_call b calls = \<lparr>mutex_owners = (\<lambda>_. None), to_do = (\<lambda>t. calls_locks b (calls t))\<rparr>"

text \<open>The next action of a thread; \<open>None\<close> if it has to wait, or has nothing to do.\<close>

definition thread_locks :: "thread \<Rightarrow> lock_run \<Rightarrow> lock_run option result" where
  "thread_locks t s = (case to_do s t of
     [] \<Rightarrow> Ok None
   | Lock l # as \<Rightarrow>
       (case pthread_mutex_lock t (lock_number l) (mutex_owners s) of
          None \<Rightarrow> Ok None
        | Some (rc, M) \<Rightarrow>
            bind_r (PTHREAD_ASSERT_SUCCESS rc) (\<lambda>_. Ok (Some (s\<lparr>mutex_owners := M, to_do := (to_do s)(t := as)\<rparr>))))
   | Unlock l # as \<Rightarrow>
       bind_r (pthread_mutex_unlock t (lock_number l) (mutex_owners s)) (\<lambda>(rc, M).
       bind_r (PTHREAD_ASSERT_SUCCESS rc) (\<lambda>_. Ok (Some (s\<lparr>mutex_owners := M, to_do := (to_do s)(t := as)\<rparr>)))))"

text \<open>A list of threads says whose turn it is; a thread that has to wait passes its turn.\<close>

fun lock_schedule :: "thread list \<Rightarrow> lock_run \<Rightarrow> lock_run result" where
  "lock_schedule [] s = Ok s"
| "lock_schedule (t # ts) s =
     bind_r (thread_locks t s) (\<lambda>r. lock_schedule ts (case r of None \<Rightarrow> s | Some s' \<Rightarrow> s'))"

lemma lock_schedule_append:
  "lock_schedule (ts @ us) s = bind_r (lock_schedule ts s) (lock_schedule us)"
  by (induction ts arbitrary: s) (simp_all add: bind_r_assoc)

text \<open>Each thread has a stack of locks, exactly those it owns, and its program will empty it.\<close>

definition stacks_ok :: "(thread \<Rightarrow> library_lock list) \<Rightarrow> lock_run \<Rightarrow> bool" where
  "stacks_ok H s \<longleftrightarrow> (\<forall>t. after (H t) (to_do s t) = Some []
     \<and> sorted_wrt (\<lambda>l m. lock_number m < lock_number l) (H t)
     \<and> (\<forall>l. mutex_owners s (lock_number l) = Some t \<longleftrightarrow> l \<in> set (H t)))"

definition order_inv :: "lock_run \<Rightarrow> bool" where
  "order_inv s \<longleftrightarrow> (\<exists>H. stacks_ok H s)"

lemma order_inv_start:
  "\<forall>t. \<forall>c \<in> set (calls t). call_ok c \<Longrightarrow> order_inv (threads_call b calls)"
  unfolding order_inv_def
  by (rule exI [of _ "\<lambda>_. []"]) (simp add: stacks_ok_def threads_call_def after_calls)

lemma stacks_ok_update:
  assumes "stacks_ok H s" "after K as = Some []" "sorted_wrt (\<lambda>l m. lock_number m < lock_number l) K"
    and "\<And>l. M (lock_number l) = Some t \<longleftrightarrow> l \<in> set K"
    and "\<And>l u. u \<noteq> t \<Longrightarrow> M (lock_number l) = Some u \<longleftrightarrow> mutex_owners s (lock_number l) = Some u"
  shows "order_inv (s\<lparr>mutex_owners := M, to_do := (to_do s)(t := as)\<rparr>)"
  unfolding order_inv_def using assms by (intro exI [of _ "H(t := K)"]) (simp add: stacks_ok_def)

lemma thread_locks_inv:
  assumes "order_inv s"
  shows "\<exists>r. thread_locks t s = Ok r \<and> (case r of None \<Rightarrow> True | Some s' \<Rightarrow> order_inv s')"
proof -
  obtain H where H: "stacks_ok H s" using assms by (auto simp: order_inv_def)
  then have t: "after (H t) (to_do s t) = Some []" "sorted_wrt (\<lambda>l m. lock_number m < lock_number l) (H t)"
    "\<And>l. mutex_owners s (lock_number l) = Some t \<longleftrightarrow> l \<in> set (H t)" by (simp_all add: stacks_ok_def)
  consider "to_do s t = []" | l as where "to_do s t = Lock l # as" | l as where "to_do s t = Unlock l # as"
    by (metis lock_action.exhaust list.exhaust)
  then show ?thesis
  proof cases
    case 1
    then show ?thesis by (simp add: thread_locks_def)
  next
    case (2 l as)
    show ?thesis
    proof (cases "mutex_owners s (lock_number l)")
      case None
      have "order_inv (s\<lparr>mutex_owners := (mutex_owners s)(lock_number l := Some t), to_do := (to_do s)(t := as)\<rparr>)"
        using H t 2 None
        by (intro stacks_ok_update [of H s "l # H t"]) (auto split: if_splits)
      then show ?thesis using 2 None by (simp add: thread_locks_def scoped_lock_defs res_simps)
    next
      case (Some u)
      then show ?thesis using 2 by (simp add: thread_locks_def pthread_mutex_lock_def)
    qed
  next
    case (3 l as)
    then obtain K where K: "H t = l # K" "after K as = Some []"
      using t(1) by (cases "H t") (auto split: if_splits)
    have o: "mutex_owners s (lock_number l) = Some t" using t(3) K(1) by simp
    have "order_inv (s\<lparr>mutex_owners := (mutex_owners s)(lock_number l := None), to_do := (to_do s)(t := as)\<rparr>)"
      using H t K by (intro stacks_ok_update [of H s K]) (auto simp: o)
    with o show ?thesis using 3 by (simp add: thread_locks_def scoped_lock_defs res_simps)
  qed
qed

lemma lock_schedule_Ok: "order_inv s \<Longrightarrow> \<exists>s'. lock_schedule ts s = Ok s' \<and> order_inv s'"
proof (induction ts arbitrary: s)
  case (Cons t ts)
  obtain r where r: "thread_locks t s = Ok r" "case r of None \<Rightarrow> True | Some s' \<Rightarrow> order_inv s'"
    using thread_locks_inv [OF Cons.prems] by blast
  then show ?case using Cons.IH Cons.prems by (cases r) simp_all
qed simp

subsection \<open>Progress\<close>

lemma unlock_owned:
  assumes "stacks_ok H s" "to_do s t = Unlock l # as"
  shows "mutex_owners s (lock_number l) = Some t"
proof -
  have "after (H t) (to_do s t) = Some []" using assms(1) by (simp add: stacks_ok_def)
  then have "l \<in> set (H t)" using assms(2) by (cases "H t") (simp_all split: if_splits)
  then show ?thesis using assms(1) by (simp add: stacks_ok_def)
qed

text \<open>A thread that waits for a lock is not the last of a chain: its owner can go on or waits for a later lock.\<close>

lemma someone_goes_on:
  assumes "order_inv s" "to_do s t \<noteq> []"
  shows "\<exists>u s'. to_do s u \<noteq> [] \<and> thread_locks u s = Ok (Some s')"
proof -
  obtain H where H: "stacks_ok H s" using assms(1) by (auto simp: order_inv_def)
  have blocked: "\<exists>u s'. to_do s u \<noteq> [] \<and> thread_locks u s = Ok (Some s')"
    if "to_do s u = Lock l # as" "n = 6 - lock_number l" for n u l as
    using that
  proof (induction n arbitrary: u l as rule: less_induct)
    case (less n)
    show ?case
    proof (cases "mutex_owners s (lock_number l)")
      case None
      then show ?thesis
        using less.prems by (intro exI [of _ u]) (simp add: thread_locks_def scoped_lock_defs res_simps)
    next
      case (Some v)
      then have v: "l \<in> set (H v)" "after (H v) (to_do s v) = Some []"
        using H by (simp_all add: stacks_ok_def)
      then consider m bs where "to_do s v = Lock m # bs" "lock_number l < lock_number m"
        | m bs where "to_do s v = Unlock m # bs"
        by (cases "to_do s v"; cases "hd (to_do s v)"; cases "H v") (auto split: if_splits)
      then show ?thesis
      proof cases
        case (1 m bs)
        then have "6 - lock_number m < n" using less.prems(2) lock_number_bound [of m] by linarith
        then show ?thesis using less.IH 1(1) by blast
      next
        case (2 m bs)
        from unlock_owned [OF H 2] show ?thesis
          using 2 by (intro exI [of _ v]) (simp add: thread_locks_def scoped_lock_defs res_simps)
      qed
    qed
  qed
  obtain a as where a: "to_do s t = a # as" using assms(2) by (cases "to_do s t") auto
  show ?thesis
  proof (cases a)
    case (Lock l)
    then show ?thesis using a blocked by blast
  next
    case (Unlock l)
    then have "mutex_owners s (lock_number l) = Some t" using unlock_owned [OF H] a by simp
    then show ?thesis
      using a Unlock by (intro exI [of _ t]) (simp add: thread_locks_def scoped_lock_defs res_simps)
  qed
qed

text \<open>The actions left to the threads of \<open>T\<close>.\<close>

definition actions_left :: "thread set \<Rightarrow> lock_run \<Rightarrow> nat" where
  "actions_left T s = (\<Sum>t \<in> T. length (to_do s t))"

definition only_threads :: "thread set \<Rightarrow> lock_run \<Rightarrow> bool" where
  "only_threads T s \<longleftrightarrow> finite T \<and> (\<forall>t. t \<notin> T \<longrightarrow> to_do s t = [])"

lemma thread_locks_takes:
  assumes "thread_locks t s = Ok (Some s')"
  obtains a as where "to_do s t = a # as" "to_do s' = (to_do s)(t := as)"
  using assms
  by (cases "to_do s t") (auto simp: thread_locks_def res_simps bind_r_eq_Ok split: lock_action.splits option.splits)

lemma step_takes_one:
  assumes "only_threads T s" "thread_locks t s = Ok (Some s')"
  shows "only_threads T s'" "actions_left T s = Suc (actions_left T s')"
proof -
  obtain a as where a: "to_do s t = a # as" "to_do s' = (to_do s)(t := as)"
    using thread_locks_takes [OF assms(2)] .
  then have t: "t \<in> T" "finite T" using assms(1) by (auto simp: only_threads_def)
  show "only_threads T s'" using assms(1) a t by (auto simp: only_threads_def)
  show "actions_left T s = Suc (actions_left T s')"
    using t(1) a(1) by (simp add: actions_left_def a(2) sum.remove [OF t(2,1)])
qed

text \<open>A round in which every thread has a turn: either an action is done, or nothing is left.\<close>

lemma turns:
  assumes "order_inv s" "only_threads T s" "lock_schedule ts s = Ok s'"
  shows "only_threads T s' \<and> (actions_left T s' < actions_left T s
    \<or> s' = s \<and> (\<forall>t \<in> set ts. thread_locks t s = Ok None))"
  using assms
proof (induction ts arbitrary: s)
  case (Cons t ts)
  obtain r where r: "thread_locks t s = Ok r" "case r of None \<Rightarrow> True | Some s1 \<Rightarrow> order_inv s1"
    using thread_locks_inv [OF Cons.prems(1)] by blast
  show ?case
  proof (cases r)
    case None
    then show ?thesis using r Cons.IH [OF Cons.prems(1,2)] Cons.prems(3) by auto
  next
    case (Some s1)
    note s1 = step_takes_one [OF Cons.prems(2), of t s1]
    have "lock_schedule ts s1 = Ok s'" "order_inv s1" using r Some Cons.prems(3) by auto
    then show ?thesis using s1 r Some Cons.IH [of s1] by auto
  qed
qed simp

lemma fair_round:
  assumes "order_inv s" "only_threads T s" "T \<subseteq> set ts" "lock_schedule ts s = Ok s'"
  shows "actions_left T s' < actions_left T s \<or> (\<forall>t. to_do s t = []) \<and> s' = s"
proof (rule disjCI)
  assume "\<not> ((\<forall>t. to_do s t = []) \<and> s' = s)"
  moreover have "\<forall>t. to_do s t = []" if "\<forall>t \<in> set ts. thread_locks t s = Ok None"
  proof (rule ccontr)
    assume "\<not> (\<forall>t. to_do s t = [])"
    then obtain u s1 where "to_do s u \<noteq> []" "thread_locks u s = Ok (Some s1)"
      using someone_goes_on [OF assms(1)] by blast
    moreover from this(1) have "u \<in> set ts" using assms(2,3) by (auto simp: only_threads_def)
    ultimately show False using that by auto
  qed
  ultimately show "actions_left T s' < actions_left T s"
    using turns [OF assms(1,2,4)] by blast
qed

lemma all_done_free:
  assumes "order_inv s" "\<forall>t. to_do s t = []"
  shows "mutex_owners s (lock_number l) = None"
proof (cases "mutex_owners s (lock_number l)")
  case (Some t)
  obtain H where H: "stacks_ok H s" using assms(1) by (auto simp: order_inv_def)
  then have "H t = []" "l \<in> set (H t)" using assms(2) Some by (auto simp: stacks_ok_def)
  then show ?thesis by simp
qed

lemma fair_rounds:
  assumes "order_inv s" "only_threads T s" "\<forall>ts \<in> set rounds. T \<subseteq> set ts" "actions_left T s \<le> length rounds"
  shows "\<exists>s'. lock_schedule (concat rounds) s = Ok s' \<and> (\<forall>t. to_do s' t = [])
    \<and> (\<forall>l. mutex_owners s' (lock_number l) = None)"
  using assms
proof (induction rounds arbitrary: s)
  case Nil
  then have "to_do s t = []" for t by (cases "t \<in> T") (auto simp: only_threads_def actions_left_def)
  then show ?case using all_done_free [OF Nil.prems(1)] by simp
next
  case (Cons ts rounds)
  obtain s1 where s1: "lock_schedule ts s = Ok s1" "order_inv s1"
    using lock_schedule_Ok [OF Cons.prems(1)] by blast
  have T: "only_threads T s1" using turns [OF Cons.prems(1,2) s1(1)] by simp
  have "actions_left T s1 \<le> length rounds"
    using fair_round [OF Cons.prems(1,2) _ s1(1)] Cons.prems(3,4) by (auto simp: actions_left_def)
  from Cons.IH [OF s1(2) T _ this] Cons.prems(3) show ?case by (simp add: lock_schedule_append s1)
qed

subsection \<open>The property\<close>

text \<open>
  C8: threads that call the functions of the library, the update thread and the
  destructor among them, in any order, never lock each other out: no interleaving of their lock
  operations fails, and after any of them it is enough that the threads keep getting turns, as many
  rounds as there are actions left, for all of them to finish with every lock free. The exception is
  the update inside \<open>reset_stats\<close> when it charges.
\<close>

theorem no_deadlock:
  assumes "finite T" "\<forall>t. t \<notin> T \<longrightarrow> calls t = []" "\<forall>t. \<forall>c \<in> set (calls t). call_ok c"
  shows "\<exists>s. lock_schedule ts (threads_call b calls) = Ok s
    \<and> (\<forall>rounds. (\<forall>us \<in> set rounds. T \<subseteq> set us) \<and> actions_left T s \<le> length rounds
        \<longrightarrow> (\<exists>s'. lock_schedule (concat rounds) s = Ok s' \<and> (\<forall>t. to_do s' t = [])
              \<and> (\<forall>l. mutex_owners s' (lock_number l) = None)))"
proof -
  have s0: "order_inv (threads_call b calls)" using assms(3) by (rule order_inv_start)
  have T: "only_threads T (threads_call b calls)"
    using assms(1,2) by (simp add: only_threads_def threads_call_def calls_locks_def)
  obtain s where s: "lock_schedule ts (threads_call b calls) = Ok s" "order_inv s"
    using lock_schedule_Ok [OF s0] by blast
  have "only_threads T s" using turns [OF s0 T s(1)] by simp
  then have "\<exists>s'. lock_schedule (concat rounds) s = Ok s' \<and> (\<forall>t. to_do s' t = [])
      \<and> (\<forall>l. mutex_owners s' (lock_number l) = None)"
    if "(\<forall>us \<in> set rounds. T \<subseteq> set us) \<and> actions_left T s \<le> length rounds" for rounds
    using fair_rounds [OF s(2), of T rounds] that by simp
  with s(1) show ?thesis by simp
qed

text \<open>An update that charges, with a callback that asks for the energy consumed.\<close>

definition some_branches :: update_branches where
  "some_branches = \<lparr>wifi_read = True, mobile_read = True, fires = True, registered = True,
     callback_locks = since_reset_locks, charges = True, high = False\<rparr>"

definition some_calls :: "thread \<Rightarrow> library_call list" where
  "some_calls t = (if t = 0 then [Update_thread_runs [some_branches]] else
     if t = 1 then [Since_reset, Estimate TYPE_MOBILE, Finish]
     else if t = 2 then [Reset_stats (some_branches\<lparr>fires := False, charges := False\<rparr>)] else [])"

lemma no_deadlock_witness:
  "\<exists>s s'. lock_schedule [0, 1, 2, 2, 0, 0, 1] (threads_call Handset_build some_calls) = Ok s
    \<and> lock_schedule (concat (replicate (actions_left {0, 1, 2} s) [2, 1, 0])) s = Ok s'
    \<and> (\<forall>t. to_do s' t = [])"
proof -
  have "\<forall>t. \<forall>c \<in> set (some_calls t). call_ok c"
    by (simp add: some_calls_def callback_ok_def some_branches_def since_reset_locks_def scoped_def)
  moreover have "\<forall>t. t \<notin> {0, 1, 2} \<longrightarrow> some_calls t = []" by (simp add: some_calls_def)
  ultimately have "\<exists>s. lock_schedule [0, 1, 2, 2, 0, 0, 1] (threads_call Handset_build some_calls) = Ok s
    \<and> (\<forall>rounds. (\<forall>us \<in> set rounds. {0, 1, 2} \<subseteq> set us) \<and> actions_left {0, 1, 2} s \<le> length rounds
        \<longrightarrow> (\<exists>s'. lock_schedule (concat rounds) s = Ok s' \<and> (\<forall>t. to_do s' t = [])
              \<and> (\<forall>l. mutex_owners s' (lock_number l) = None)))"
    by (intro no_deadlock) simp_all
  then obtain s where s: "lock_schedule [0, 1, 2, 2, 0, 0, 1] (threads_call Handset_build some_calls) = Ok s"
    "\<And>rounds. (\<forall>us \<in> set rounds. {0, 1, 2} \<subseteq> set us) \<and> actions_left {0, 1, 2} s \<le> length rounds
        \<Longrightarrow> \<exists>s'. lock_schedule (concat rounds) s = Ok s' \<and> (\<forall>t. to_do s' t = [])
              \<and> (\<forall>l. mutex_owners s' (lock_number l) = None)" by blast
  have "(\<forall>us \<in> set (replicate n [2, 1, 0 :: nat]). {0, 1, 2} \<subseteq> set us) \<and> n \<le> length (replicate n [2, 1, 0 :: nat])"
    for n by simp
  from s(2) [OF this] obtain s' where
    "lock_schedule (concat (replicate (actions_left {0, 1, 2} s) [2, 1, 0])) s = Ok s'" "\<forall>t. to_do s' t = []"
    by blast
  with s(1) show ?thesis by blast
qed

end
