(* ===== verification/Lock_Queue.thy ===== *)
theory Lock_Queue
  imports Locks
begin

text \<open>
  \<open>LockWrappedQueue\<close> of \<^verbatim>\<open>pthread_util.h\<close>, with any number of threads inside its
  functions. A thread is at a point of a function (\<open>queue_point\<close>); the steps between two points
  are what the code does with the shared queue, its lock and its condition variable at one time.

  An interleaving is a list of actions: a thread calls a function, continues, or wakes up from
  \<open>pthread_cond_wait\<close> without reason, as POSIX allows. \<open>fifo\<close> is the specification, a
  sequential queue; \<open>queue_inv\<close> is the invariant.
\<close>

subsection \<open>The functions, step by step\<close>

text \<open>
  \<open>Leaving\<close> is the destructor of the scoped lock. \<open>Pop_woken\<close> is the end of
  \<open>pthread_cond_wait\<close>, which takes the lock again.
\<close>

datatype 'a queue_point =
    Outside
  | Push_enter 'a | Push_locked 'a | Push_broadcast
  | Pop_enter | Pop_test | Pop_waiting | Pop_woken | Pop_take
  | Size_enter | Size_locked
  | Leaving

record 'a LockWrappedQueue =
  items :: "'a list"
  queue_lock :: "thread option"
  queue_at :: "thread \<Rightarrow> 'a queue_point"

definition LockWrappedQueue_new :: "'a LockWrappedQueue" where
  "LockWrappedQueue_new = \<lparr>items = [], queue_lock = None, queue_at = (\<lambda>_. Outside)\<rparr>"

text \<open>What a step shows: the values pushed and popped, and the size returned.\<close>

datatype 'a queue_event = Silent | Pushed 'a | Popped 'a | Sized nat

definition goes :: "thread \<Rightarrow> 'a queue_point \<Rightarrow> 'a LockWrappedQueue \<Rightarrow> 'a LockWrappedQueue" where
  "goes t p s = s\<lparr>queue_at := (queue_at s)(t := p)\<rparr>"

definition locks_and_goes ::
  "thread \<Rightarrow> 'a queue_point \<Rightarrow> 'a LockWrappedQueue \<Rightarrow> ('a queue_event \<times> 'a LockWrappedQueue) option" where
  "locks_and_goes t p s =
     (if queue_lock s = None then Some (Silent, goes t p (s\<lparr>queue_lock := Some t\<rparr>)) else None)"

text \<open>The next step of a thread; \<open>None\<close> if it has to wait.\<close>

definition queue_continue ::
  "thread \<Rightarrow> 'a LockWrappedQueue \<Rightarrow> ('a queue_event \<times> 'a LockWrappedQueue) option result" where
  "queue_continue t s = (case queue_at s t of
     Outside \<Rightarrow> Ok None
   | Push_enter v \<Rightarrow> Ok (locks_and_goes t (Push_locked v) s)
   | Push_locked v \<Rightarrow> Ok (Some (Pushed v, goes t Push_broadcast (s\<lparr>items := items s @ [v]\<rparr>)))
   | Push_broadcast \<Rightarrow>
       Ok (Some (Silent, goes t Leaving
         (s\<lparr>queue_at := (\<lambda>u. if queue_at s u = Pop_waiting then Pop_woken else queue_at s u)\<rparr>)))
   | Pop_enter \<Rightarrow> Ok (locks_and_goes t Pop_test s)
   | Pop_test \<Rightarrow>
       Ok (Some (Silent,
         if items s = [] then goes t Pop_waiting (s\<lparr>queue_lock := None\<rparr>) else goes t Pop_take s))
   | Pop_waiting \<Rightarrow> Ok None
   | Pop_woken \<Rightarrow> Ok (locks_and_goes t Pop_test s)
   | Pop_take \<Rightarrow>
       (case items s of
          [] \<Rightarrow> Fault Bad_iterator
        | v # vs \<Rightarrow> Ok (Some (Popped v, goes t Leaving (s\<lparr>items := vs\<rparr>))))
   | Size_enter \<Rightarrow> Ok (locks_and_goes t Size_locked s)
   | Size_locked \<Rightarrow> Ok (Some (Sized (length (items s)), goes t Leaving s))
   | Leaving \<Rightarrow>
       (if queue_lock s = Some t then Ok (Some (Silent, goes t Outside (s\<lparr>queue_lock := None\<rparr>)))
        else Fault Not_owner))"

subsection \<open>Interleavings\<close>

datatype 'a queue_action =
    Call_push thread 'a
  | Call_pop thread
  | Call_size thread
  | Continue thread
  | Wake thread

definition queue_calls ::
  "thread \<Rightarrow> 'a queue_point \<Rightarrow> 'a LockWrappedQueue \<Rightarrow> ('a queue_event \<times> 'a LockWrappedQueue) option result"
where
  "queue_calls t p s = Ok (if queue_at s t = Outside then Some (Silent, goes t p s) else None)"

text \<open>\<open>empty()\<close> is \<open>size()\<close> and a comparison of its result with 0.\<close>

fun queue_act ::
  "'a queue_action \<Rightarrow> 'a LockWrappedQueue \<Rightarrow> ('a queue_event \<times> 'a LockWrappedQueue) option result" where
  "queue_act (Call_push t v) s = queue_calls t (Push_enter v) s"
| "queue_act (Call_pop t) s = queue_calls t Pop_enter s"
| "queue_act (Call_size t) s = queue_calls t Size_enter s"
| "queue_act (Continue t) s = queue_continue t s"
| "queue_act (Wake t) s =
     Ok (if queue_at s t = Pop_waiting then Some (Silent, goes t Pop_woken s) else None)"

text \<open>The events of an interleaving; an action that has to wait does nothing.\<close>

fun queue_schedule ::
  "'a queue_action list \<Rightarrow> 'a LockWrappedQueue \<Rightarrow> ('a queue_event list \<times> 'a LockWrappedQueue) result" where
  "queue_schedule [] s = Ok ([], s)"
| "queue_schedule (a # as) s =
     bind_r (queue_act a s) (\<lambda>r.
     case r of
       None \<Rightarrow> queue_schedule as s
     | Some (e, s) \<Rightarrow> bind_r (queue_schedule as s) (\<lambda>(es, s). Ok (e # es, s)))"

subsection \<open>The specification\<close>

fun fifo :: "'a queue_event \<Rightarrow> 'a list \<Rightarrow> 'a list option" where
  "fifo Silent vs = Some vs"
| "fifo (Pushed v) vs = Some (vs @ [v])"
| "fifo (Popped v) (x # vs) = (if x = v then Some vs else None)"
| "fifo (Popped v) [] = None"
| "fifo (Sized n) vs = (if n = length vs then Some vs else None)"

fun fifo_run :: "'a queue_event list \<Rightarrow> 'a list \<Rightarrow> 'a list option" where
  "fifo_run [] vs = Some vs"
| "fifo_run (e # es) vs = (case fifo e vs of None \<Rightarrow> None | Some ws \<Rightarrow> fifo_run es ws)"

fun pushes :: "'a queue_event list \<Rightarrow> 'a list" where
  "pushes [] = []"
| "pushes (e # es) = (case e of Pushed v \<Rightarrow> v # pushes es | _ \<Rightarrow> pushes es)"

fun pops :: "'a queue_event list \<Rightarrow> 'a list" where
  "pops [] = []"
| "pops (e # es) = (case e of Popped v \<Rightarrow> v # pops es | _ \<Rightarrow> pops es)"

text \<open>What a sequential queue delivers, it has taken, in the same order.\<close>

lemma fifo_run_order: "fifo_run es vs = Some ws \<Longrightarrow> vs @ pushes es = pops es @ ws"
proof (induction es arbitrary: vs)
  case (Cons e es)
  obtain us where us: "fifo e vs = Some us" "fifo_run es us = Some ws"
    using Cons.prems by (auto split: option.splits)
  with Cons.IH [OF us(2)] show ?case
    by (cases e; cases vs) (auto split: if_splits)
qed simp

subsection \<open>The invariant\<close>

fun inside :: "'a queue_point \<Rightarrow> bool" where
  "inside (Push_locked v) = True"
| "inside Push_broadcast = True"
| "inside Pop_test = True"
| "inside Pop_take = True"
| "inside Size_locked = True"
| "inside Leaving = True"
| "inside _ = False"

text \<open>The thread that has the lock is about to wake the waiting ones.\<close>

definition broadcasting :: "'a LockWrappedQueue \<Rightarrow> bool" where
  "broadcasting s \<longleftrightarrow> (case queue_lock s of None \<Rightarrow> False | Some u \<Rightarrow> queue_at s u = Push_broadcast)"

definition queue_inv :: "'a LockWrappedQueue \<Rightarrow> bool" where
  "queue_inv s \<longleftrightarrow> (\<forall>t. inside (queue_at s t) \<longleftrightarrow> queue_lock s = Some t)
     \<and> (\<forall>t. queue_at s t = Pop_take \<longrightarrow> items s \<noteq> [])
     \<and> (\<forall>t. queue_at s t = Pop_waiting \<and> items s \<noteq> [] \<longrightarrow> broadcasting s)"

lemma queue_inv_new: "queue_inv LockWrappedQueue_new"
  by (simp add: queue_inv_def LockWrappedQueue_new_def)


lemma queue_invI:
  assumes "\<And>t. inside (queue_at s t) \<longleftrightarrow> queue_lock s = Some t" "\<And>t. queue_at s t = Pop_take \<Longrightarrow> items s \<noteq> []"
    and "\<And>t. queue_at s t = Pop_waiting \<Longrightarrow> items s \<noteq> [] \<Longrightarrow> broadcasting s"
  shows "queue_inv s"
  using assms by (auto simp: queue_inv_def)

lemma queue_invD:
  assumes "queue_inv s"
  shows "inside (queue_at s t) \<longleftrightarrow> queue_lock s = Some t" "queue_at s t = Pop_take \<Longrightarrow> items s \<noteq> []"
    "queue_at s t = Pop_waiting \<Longrightarrow> items s \<noteq> [] \<Longrightarrow> broadcasting s"
  using assms by (auto simp: queue_inv_def)

lemma goes_sel [simp]:
  "items (goes t p s) = items s" "queue_lock (goes t p s) = queue_lock s" "queue_at (goes t p s) u = (if u = t then p else queue_at s u)"
  by (simp_all add: goes_def)

text \<open>A step outside the lock, and one that takes it.\<close>

lemma goes_outside:
  assumes "queue_inv s" "\<not> inside (queue_at s t)" "\<not> inside p" "p \<noteq> Pop_waiting"
  shows "queue_inv (goes t p s)"
proof (rule queue_invI)
  have "queue_lock s \<noteq> Some t" using assms(2) queue_invD(1) [OF assms(1), of t] by simp
  then show "inside (queue_at (goes t p s) u) \<longleftrightarrow> queue_lock (goes t p s) = Some u" for u
    using queue_invD(1) [OF assms(1), of u] assms(3) by auto
  show "items (goes t p s) \<noteq> []" if "queue_at (goes t p s) u = Pop_take" for u
    using that assms(3) queue_invD(2) [OF assms(1), of u] by (auto split: if_splits)
  show "broadcasting (goes t p s)" if "queue_at (goes t p s) u = Pop_waiting" "items (goes t p s) \<noteq> []" for u
    using that \<open>queue_lock s \<noteq> Some t\<close> assms(4) queue_invD(3) [OF assms(1), of u]
    by (auto simp: broadcasting_def split: if_splits option.splits)
qed

lemma locks_and_goes_inv:
  assumes "queue_inv s" "locks_and_goes t p s = Some (e, s')" "\<not> inside (queue_at s t)"
    and "inside p" "p \<noteq> Pop_take"
  shows "queue_inv s' \<and> e = Silent \<and> items s' = items s"
proof -
  have s': "queue_lock s = None" "e = Silent" "s' = goes t p (s\<lparr>queue_lock := Some t\<rparr>)"
    using assms(2) by (simp_all add: locks_and_goes_def split: if_splits)
  have "p \<noteq> Pop_waiting" "\<not> broadcasting s" using assms(4) s'(1) by (auto simp: broadcasting_def)
  then have "queue_inv s'"
    using s'(1) assms(3-5) queue_invD [OF assms(1)] unfolding s'(3)
    by (intro queue_invI) (auto split: if_splits)
  then show ?thesis using s' by simp
qed

lemma locks_and_goes_Ok:
  assumes "queue_inv s" "\<not> inside (queue_at s t)" "inside p" "p \<noteq> Pop_take"
  shows "\<forall>e s'. locks_and_goes t p s = Some (e, s') \<longrightarrow> queue_inv s' \<and> fifo e (items s) = Some (items s')"
proof (intro allI impI)
  fix e s' assume "locks_and_goes t p s = Some (e, s')"
  from locks_and_goes_inv [OF assms(1) this assms(2-4)]
  show "queue_inv s' \<and> fifo e (items s) = Some (items s')" by simp
qed

text \<open>A step of the thread that has the lock.\<close>

lemma inside_step:
  assumes "queue_inv s" "inside (queue_at s t)"
    and "\<And>u. u \<noteq> t \<Longrightarrow> queue_at s' u = queue_at s u \<or> queue_at s u = Pop_waiting \<and> queue_at s' u = Pop_woken"
    and "queue_lock s' = (if inside (queue_at s' t) then Some t else None)"
    and "queue_at s' t = Pop_take \<Longrightarrow> items s' \<noteq> []"
    and "\<And>u. queue_at s' u = Pop_waiting \<Longrightarrow> items s' \<noteq> [] \<Longrightarrow> broadcasting s'"
  shows "queue_inv s'"
proof (rule queue_invI)
  have t: "queue_lock s = Some t" using queue_invD(1) [OF assms(1), of t] assms(2) by simp
  have others: "\<not> inside (queue_at s' u)" if "u \<noteq> t" for u
    using assms(3) [OF that] queue_invD(1) [OF assms(1), of u] t that by auto
  show "inside (queue_at s' u) \<longleftrightarrow> queue_lock s' = Some u" for u
    using others [of u] assms(4) by (cases "u = t") auto
  show "items s' \<noteq> []" if "queue_at s' u = Pop_take" for u
    using that assms(5) others [of u] by (cases "u = t") auto
qed (rule assms(6))

lemma nobody_waits:
  assumes "queue_inv s" "inside (queue_at s t)" "queue_at s t \<noteq> Push_broadcast" "queue_at s u = Pop_waiting"
  shows "items s = []"
proof (rule ccontr)
  assume "items s \<noteq> []"
  then have "broadcasting s" using queue_invD(3) [OF assms(1,4)] by simp
  then show False using queue_invD(1) [OF assms(1), of t] assms(2,3) by (simp add: broadcasting_def)
qed

lemma continue_Ok:
  assumes inv: "queue_inv s"
  shows "\<exists>r. queue_continue t s = Ok r
    \<and> (\<forall>e s'. r = Some (e, s') \<longrightarrow> queue_inv s' \<and> fifo e (items s) = Some (items s'))"
proof (cases "queue_at s t")
  case (Push_locked v)
  then have "queue_inv (goes t Push_broadcast (s\<lparr>items := items s @ [v]\<rparr>))"
    using queue_invD(1) [OF inv, of t] by (intro inside_step [OF inv, of t]) (simp_all add: broadcasting_def)
  with Push_locked show ?thesis by (simp add: queue_continue_def)
next
  case Push_broadcast
  then have "queue_inv (goes t Leaving
      (s\<lparr>queue_at := (\<lambda>u. if queue_at s u = Pop_waiting then Pop_woken else queue_at s u)\<rparr>))"
    using queue_invD(1) [OF inv, of t] by (intro inside_step [OF inv, of t]) (auto split: if_splits)
  with Push_broadcast show ?thesis by (simp add: queue_continue_def)
next
  case Pop_test
  have "queue_inv (goes t Pop_waiting (s\<lparr>queue_lock := None\<rparr>))" if "items s = []"
    using Pop_test that by (intro inside_step [OF inv, of t]) simp_all
  moreover have "queue_inv (goes t Pop_take s)" if "items s \<noteq> []"
    using Pop_test that queue_invD(1) [OF inv, of t] nobody_waits [OF inv, of t]
    by (intro inside_step [OF inv, of t]) (auto split: if_splits)
  ultimately show ?thesis using Pop_test by (simp add: queue_continue_def)
next
  case Pop_take
  then obtain v vs where v: "items s = v # vs" using queue_invD(2) [OF inv, of t] by (cases "items s") auto
  with Pop_take have "queue_inv (goes t Leaving (s\<lparr>items := vs\<rparr>))"
    using queue_invD(1) [OF inv, of t] nobody_waits [OF inv, of t]
    by (intro inside_step [OF inv, of t]) (auto split: if_splits)
  with Pop_take v show ?thesis by (simp add: queue_continue_def)
next
  case Size_locked
  then have "queue_inv (goes t Leaving s)"
    using queue_invD(1) [OF inv, of t] nobody_waits [OF inv, of t]
    by (intro inside_step [OF inv, of t]) (auto split: if_splits)
  with Size_locked show ?thesis by (simp add: queue_continue_def)
next
  case Leaving
  then have "queue_inv (goes t Outside (s\<lparr>queue_lock := None\<rparr>))"
    using nobody_waits [OF inv, of t] by (intro inside_step [OF inv, of t]) (auto split: if_splits)
  with Leaving queue_invD(1) [OF inv, of t] show ?thesis by (simp add: queue_continue_def)
qed (simp add: queue_continue_def; rule locks_and_goes_Ok [OF inv]; simp)+

lemma act_Ok:
  assumes "queue_inv s"
  shows "\<exists>r. queue_act a s = Ok r \<and> (\<forall>e s'. r = Some (e, s') \<longrightarrow> queue_inv s' \<and> fifo e (items s) = Some (items s'))"
proof (cases a)
  case (Continue t)
  then show ?thesis using continue_Ok [OF assms, of t] by simp
qed (use goes_outside [OF assms] in \<open>auto simp: queue_calls_def\<close>)

lemma schedule_Ok:
  assumes "queue_inv s"
  shows "\<exists>es s'. queue_schedule as s = Ok (es, s') \<and> queue_inv s' \<and> fifo_run es (items s) = Some (items s')"
  using assms
proof (induction as arbitrary: s)
  case (Cons a as)
  obtain r where r: "queue_act a s = Ok r" "\<forall>e s'. r = Some (e, s') \<longrightarrow> queue_inv s' \<and> fifo e (items s) = Some (items s')"
    using act_Ok [OF Cons.prems] by blast
  show ?case
  proof (cases r)
    case None
    then show ?thesis using r(1) Cons.IH [OF Cons.prems] by simp
  next
    case (Some es)
    then obtain e s1 where "r = Some (e, s1)" by (cases es) auto
    then show ?thesis using r Cons.IH [of s1] by auto
  qed
qed simp


subsection \<open>Properties\<close>

text \<open>
  C16: whatever the interleaving of pushes, pops and sizes of any number of threads,
  no step fails (no front of an empty deque, no lock released by another thread), and the events in
  the order they happen are a run of a sequential queue that ends with the deque: the values popped
  and then those left are the values pushed, in order.
\<close>

theorem queue_is_fifo:
  "\<exists>es s. queue_schedule as LockWrappedQueue_new = Ok (es, s) \<and> fifo_run es [] = Some (items s)
     \<and> pops es @ items s = pushes es"
proof -
  obtain es s where "queue_schedule as LockWrappedQueue_new = Ok (es, s)"
    "fifo_run es (items (LockWrappedQueue_new :: 'a LockWrappedQueue)) = Some (items s)"
    using schedule_Ok [OF queue_inv_new, of as] by blast
  with fifo_run_order [of es "[]" "items s"] show ?thesis by (auto simp: LockWrappedQueue_new_def)
qed

text \<open>
  No wake-up is lost and nothing deadlocks. After any interleaving, a thread that
  is still waiting although the deque has values is about to be woken by the thread that has the lock;
  and unless every thread inside a function waits in a pop for the first value, some thread inside can
  take a step.
\<close>

theorem queue_progress:
  assumes "queue_schedule as LockWrappedQueue_new = Ok (es, s)" "queue_at s t \<noteq> Outside"
  shows "(queue_at s t = Pop_waiting \<and> items s \<noteq> [] \<longrightarrow> (\<exists>u. queue_lock s = Some u \<and> queue_at s u = Push_broadcast))
    \<and> (queue_at s t = Pop_waiting \<and> items s = [] \<or> (\<exists>u e s'. queue_continue u s = Ok (Some (e, s'))))"
proof -
  have inv: "queue_inv s" using schedule_Ok [OF queue_inv_new, of as] assms(1) by auto
  note wake = queue_invD(3) [OF inv, of t]
  have "\<exists>u e s'. queue_continue u s = Ok (Some (e, s'))"
    if "\<not> (queue_at s t = Pop_waiting \<and> items s = [])"
  proof (cases "queue_lock s")
    case None
    then have "\<not> inside (queue_at s t)" "queue_at s t \<noteq> Pop_waiting"
      using queue_invD(1) [OF inv, of t] wake that by (auto simp: broadcasting_def)
    then show ?thesis
      using assms(2) None by (intro exI [of _ t]) (cases "queue_at s t"; simp add: queue_continue_def locks_and_goes_def)
  next
    case (Some u)
    then have "inside (queue_at s u)" using queue_invD(1) [OF inv, of u] by simp
    then show ?thesis
      using Some queue_invD(2) [OF inv, of u]
      by (intro exI [of _ u]) (cases "queue_at s u"; cases "items s"; simp add: queue_continue_def)
  qed
  then show ?thesis using wake by (auto simp: broadcasting_def split: option.splits)
qed

lemma queue_progress_witness:
  "\<exists>es s. queue_schedule [Call_pop 1, Continue 1, Continue 1, Call_push 2 (5 :: int), Continue 2, Continue 2]
      LockWrappedQueue_new = Ok (es, s)
    \<and> queue_at s 1 = Pop_waiting \<and> items s = [5] \<and> (\<exists>u. queue_lock s = Some u \<and> queue_at s u = Push_broadcast)"
proof -
  let ?as = "[Call_pop 1, Continue 1, Continue 1, Call_push 2 (5 :: int), Continue 2, Continue 2]"
  obtain es s where run: "queue_schedule ?as LockWrappedQueue_new = Ok (es, s)" "queue_at s 1 = Pop_waiting" "items s = [5]"
    by (simp add: LockWrappedQueue_new_def queue_calls_def queue_continue_def locks_and_goes_def goes_def)
  with queue_progress [OF run(1), of 1] show ?thesis by auto
qed

end
