(* ===== verification/Supplicant.thy ===== *)
theory Supplicant
  imports Prelude
begin

text \<open>
  The part of \<^verbatim>\<open>wifi.cpp\<close> that is compiled: the two connections to
  \<^verbatim>\<open>wpa_supplicant\<close> and the commands sent over the first. \<^verbatim>\<open>property_get\<close>, \<^verbatim>\<open>access\<close> and the
  functions of \<^verbatim>\<open>wpa_ctrl.h\<close> are not part of the repository and are parameters, gathered in
  \<open>supplicant_env\<close>. A connection is identified by the number of the call of \<^verbatim>\<open>wpa_ctrl_open\<close> that
  made it; \<open>live\<close> holds those that have not been closed.

  A buffer is the list of its characters, and a string literal ends with a null character. Reading or
  writing outside a buffer is the fault \<open>Out_of_bounds\<close>, closing a connection twice
  \<open>Dangling_pointer\<close>.
\<close>

subsection \<open>State\<close>

record supplicant_env =
  property_get :: "string \<Rightarrow> string option \<Rightarrow> int \<times> string"
  access_IFACE_DIR :: int
  wpa_ctrl_open :: "nat \<Rightarrow> string \<Rightarrow> bool"
  wpa_ctrl_attach :: "nat \<Rightarrow> int"
  wpa_ctrl_request :: "nat \<Rightarrow> string \<Rightarrow> string \<Rightarrow> nat \<Rightarrow> int \<times> string \<times> nat"

record supplicant =
  ctrl_conn :: "nat option"
  monitor_conn :: "nat option"
  iface :: string
  opens :: nat
  live :: "nat set"

definition supplicant_init :: supplicant where
  "supplicant_init = \<lparr>ctrl_conn = None, monitor_conn = None, iface = [], opens = 0, live = {}\<rparr>"

definition IFACE_DIR :: string where
  "IFACE_DIR = ''/data/system/wpa_supplicant''"

definition SUPP_PROP_NAME :: string where
  "SUPP_PROP_NAME = ''init.svc.wpa_supplicant''"

text \<open>A call of \<^verbatim>\<open>wpa_ctrl_open\<close> and of \<^verbatim>\<open>wpa_ctrl_close\<close>.\<close>

definition opened :: "supplicant_env \<Rightarrow> string \<Rightarrow> supplicant \<Rightarrow> nat option \<times> supplicant" where
  "opened e ifname s =
     (let k = opens s; s = s\<lparr>opens := Suc k\<rparr> in
      if wpa_ctrl_open e k ifname then (Some k, s\<lparr>live := insert k (live s)\<rparr>) else (None, s))"

definition closed :: "nat option \<Rightarrow> supplicant \<Rightarrow> supplicant result" where
  "closed conn s = (case conn of
     None \<Rightarrow> Fault Null_pointer
   | Some k \<Rightarrow> if k \<in> live s then Ok (s\<lparr>live := live s - {k}\<rparr>) else Fault Dangling_pointer)"

subsection \<open>Connecting and closing\<close>

definition wifi_connect_to_supplicant ::
  "supplicant_env \<Rightarrow> supplicant \<Rightarrow> (int \<times> supplicant) result" where
  "wifi_connect_to_supplicant e s =
     (case property_get e SUPP_PROP_NAME None of (found, supp_status) \<Rightarrow>
      if found = 0 \<or> supp_status \<noteq> ''running'' then Ok (- 1, s)
      else
        let s = s\<lparr>iface := snd (property_get e ''wifi.interface'' (Some ''sta''))\<rparr>;
            ifname = (if access_IFACE_DIR e = 0 then take 255 (IFACE_DIR @ ''/'' @ iface s)
                      else take 255 (iface s)) in
        case opened e ifname s of (conn, s) \<Rightarrow>
        let s = s\<lparr>ctrl_conn := conn\<rparr> in
        if ctrl_conn s = None then Ok (- 1, s)
        else
          case opened e ifname s of (conn, s) \<Rightarrow>
          let s = s\<lparr>monitor_conn := conn\<rparr> in
          case monitor_conn s of
            None \<Rightarrow> bind_r (closed (ctrl_conn s) s) (\<lambda>s. Ok (- 1, s\<lparr>ctrl_conn := None\<rparr>))
          | Some monitor \<Rightarrow>
              if wpa_ctrl_attach e monitor \<noteq> 0 then
                bind_r (closed (monitor_conn s) s) (\<lambda>s.
                bind_r (closed (ctrl_conn s) s) (\<lambda>s.
                Ok (- 1, s\<lparr>ctrl_conn := None, monitor_conn := None\<rparr>)))
              else Ok (0, s))"

definition wifi_close_supplicant_connection :: "supplicant \<Rightarrow> supplicant result" where
  "wifi_close_supplicant_connection s =
     bind_r
       (if ctrl_conn s \<noteq> None then bind_r (closed (ctrl_conn s) s) (\<lambda>s. Ok (s\<lparr>ctrl_conn := None\<rparr>))
        else Ok s) (\<lambda>s.
     if monitor_conn s \<noteq> None then bind_r (closed (monitor_conn s) s) (\<lambda>s. Ok (s\<lparr>monitor_conn := None\<rparr>))
     else Ok s)"

subsection \<open>Commands\<close>

text \<open>
  \<open>strncmp_eq n a b\<close>: \<^verbatim>\<open>strncmp(a, b, n) == 0\<close>, which reads both up to the first
  difference or null character.
\<close>

fun strncmp_eq :: "nat \<Rightarrow> string \<Rightarrow> string \<Rightarrow> bool result" where
  "strncmp_eq 0 a b = Ok True"
| "strncmp_eq (Suc n) (c # a) (d # b) =
     (if c \<noteq> d then Ok False else if c = CHR 0x00 then Ok True else strncmp_eq n a b)"
| "strncmp_eq (Suc n) a b = Fault Out_of_bounds"

definition wifi_send_command ::
  "supplicant_env \<Rightarrow> supplicant \<Rightarrow> nat option \<Rightarrow> string \<Rightarrow> string \<Rightarrow> nat \<Rightarrow> (int \<times> string \<times> nat) result" where
  "wifi_send_command e s ctrl cmd reply reply_len =
     (if ctrl_conn s = None then Ok (- 1, reply, reply_len)
      else
        case ctrl of None \<Rightarrow> Fault Null_pointer
        | Some k \<Rightarrow>
            if k \<notin> live s then Fault Dangling_pointer
            else
              case wpa_ctrl_request e k (takeWhile (\<lambda>c. c \<noteq> CHR 0x00) cmd) reply reply_len of
                (ret, reply, reply_len) \<Rightarrow>
              if ret = - 2 then Ok (- 2, reply, reply_len)
              else
                bind_r (if ret < 0 then Ok True else strncmp_eq 4 reply (''FAIL'' @ [CHR 0x00])) (\<lambda>failed.
                if failed then Ok (- 1, reply, reply_len)
                else
                  bind_r (strncmp_eq 4 cmd (''PING'' @ [CHR 0x00])) (\<lambda>ping.
                  if ping then
                    if reply_len < length reply then Ok (0, reply[reply_len := CHR 0x00], reply_len)
                    else Fault Out_of_bounds
                  else Ok (0, reply, reply_len))))"

definition wifi_command ::
  "supplicant_env \<Rightarrow> supplicant \<Rightarrow> string \<Rightarrow> string \<Rightarrow> nat \<Rightarrow> (int \<times> string \<times> nat) result" where
  "wifi_command e s command reply reply_len = wifi_send_command e s (ctrl_conn s) command reply reply_len"

subsection \<open>The invariant\<close>

text \<open>
  Both connections exist or neither does, they are different, and no others are live; numbers of later
  calls are unused.
\<close>

definition supplicant_inv :: "supplicant \<Rightarrow> bool" where
  "supplicant_inv s \<longleftrightarrow> (\<forall>k \<in> live s. k < opens s)
     \<and> (case (ctrl_conn s, monitor_conn s) of
          (None, None) \<Rightarrow> live s = {}
        | (Some c, Some m) \<Rightarrow> c \<noteq> m \<and> live s = {c, m}
        | _ \<Rightarrow> False)"

lemma supplicant_inv_init: "supplicant_inv supplicant_init"
  by (simp add: supplicant_inv_def supplicant_init_def)

lemma connect_outcome:
  assumes "supplicant_inv s" "ctrl_conn s = None"
  shows "\<exists>rc s'. wifi_connect_to_supplicant e s = Ok (rc, s') \<and> supplicant_inv s'
    \<and> (rc = 0 \<or> rc = - 1) \<and> (rc = 0 \<longleftrightarrow> ctrl_conn s' \<noteq> None)"
proof -
  have none: "monitor_conn s = None" "live s = {}"
    using assms by (auto simp: supplicant_inv_def split: option.splits)
  show ?thesis
    using assms none
    by (auto simp: wifi_connect_to_supplicant_def opened_def closed_def supplicant_inv_def Let_def
        insert_Diff_if split: prod.splits option.splits)
qed

lemma connect_success:
  assumes "wifi_connect_to_supplicant e s = Ok (0, s')"
  shows "ctrl_conn s' = Some (opens s) \<and> monitor_conn s' = Some (Suc (opens s))
    \<and> live s' = insert (Suc (opens s)) (insert (opens s) (live s))"
  using assms
  by (auto simp: wifi_connect_to_supplicant_def opened_def closed_def Let_def bind_r_eq_Ok
      split: prod.splits if_splits)

lemma close_outcome:
  assumes "supplicant_inv s"
  shows "\<exists>s'. wifi_close_supplicant_connection s = Ok s' \<and> supplicant_inv s'
    \<and> ctrl_conn s' = None \<and> monitor_conn s' = None \<and> live s' = {}"
  using assms
  by (auto simp: wifi_close_supplicant_connection_def closed_def supplicant_inv_def split: option.splits)


text \<open>Every state of a client that connects only when it is not connected.\<close>

inductive used :: "supplicant \<Rightarrow> bool" where
  start: "used supplicant_init"
| connect: "used s \<Longrightarrow> ctrl_conn s = None \<Longrightarrow> wifi_connect_to_supplicant e s = Ok (rc, s') \<Longrightarrow> used s'"
| close: "used s \<Longrightarrow> wifi_close_supplicant_connection s = Ok s' \<Longrightarrow> used s'"

lemma used_inv: "used s \<Longrightarrow> supplicant_inv s"
proof (induction rule: used.induct)
  case (connect s e rc s')
  then show ?case using connect_outcome [of s e] by auto
next
  case (close s s')
  then show ?case using close_outcome [of s] by auto
qed (rule supplicant_inv_init)

lemma strncmp_eq_returns:
  "CHR 0x00 \<in> set b \<Longrightarrow> n \<le> length a \<or> CHR 0x00 \<in> set a \<Longrightarrow> \<exists>r. strncmp_eq n a b = Ok r"
  by (induction n a b rule: strncmp_eq.induct) auto

text \<open>
  What the documentation of \<^verbatim>\<open>wpa_ctrl_request\<close> says of the reply: it stays in its buffer and is no
  longer than the length given.
\<close>

definition replies_fit :: "supplicant_env \<Rightarrow> bool" where
  "replies_fit e \<longleftrightarrow> (\<forall>k cmd reply n ret reply' n'.
     n \<le> length reply \<and> wpa_ctrl_request e k cmd reply n = (ret, reply', n')
     \<longrightarrow> length reply' = length reply \<and> n' \<le> n)"

lemma command_outcome:
  assumes "supplicant_inv s" "replies_fit e" "CHR 0x00 \<in> set cmd" "4 \<le> length reply" "n < length reply"
  shows "\<exists>rc reply' n'. wifi_command e s cmd reply n = Ok (rc, reply', n') \<and> rc \<in> {0, - 1, - 2}
    \<and> length reply' = length reply \<and> (ctrl_conn s = None \<longrightarrow> rc = - 1 \<and> reply' = reply)"
proof (cases "ctrl_conn s")
  case (Some k)
  then have live: "k \<in> live s" using assms(1) by (auto simp: supplicant_inv_def split: option.splits)
  obtain ret reply' n' where
    r: "wpa_ctrl_request e k (takeWhile (\<lambda>c. c \<noteq> CHR 0x00) cmd) reply n = (ret, reply', n')"
    by (metis surj_pair)
  then have "length reply' = length reply" "n' \<le> n"
    using assms(2) less_imp_le [OF assms(5)] unfolding replies_fit_def by blast+
  moreover obtain a where "strncmp_eq 4 reply' (''FAIL'' @ [CHR 0x00]) = Ok a"
    using strncmp_eq_returns [of "''FAIL'' @ [CHR 0x00]" 4 reply'] assms(4) calculation(1) by auto
  moreover obtain p where "strncmp_eq 4 cmd (''PING'' @ [CHR 0x00]) = Ok p"
    using strncmp_eq_returns [of "''PING'' @ [CHR 0x00]" 4 cmd] assms(3) by auto
  ultimately have "wifi_command e s cmd reply n =
      (if ret = - 2 then Ok (- 2, reply', n') else if ret < 0 \<or> a then Ok (- 1, reply', n')
       else if p then Ok (0, reply'[n' := CHR 0x00], n') else Ok (0, reply', n'))"
    using Some live r assms(5) by (simp add: wifi_command_def wifi_send_command_def)
  then show ?thesis using Some \<open>length reply' = length reply\<close> by simp
qed (simp add: wifi_command_def wifi_send_command_def)

subsection \<open>Properties\<close>

text \<open>
  C26: for a client that connects only when it is not connected, the live
  connections are exactly the two that are stored, so none leaks and closing never closes one twice;
  connecting returns 0 when it stores both and -1 when it stores none, whichever of its steps fails; and
  a command whose reply buffer has at least four characters, and room for one more than the length it passes,
  returns 0, -1 or -2.
\<close>

theorem supplicant_connections:
  assumes "used s"
  shows "live s = set_option (ctrl_conn s) \<union> set_option (monitor_conn s)
    \<and> (ctrl_conn s = None \<longrightarrow> (\<exists>rc s'. wifi_connect_to_supplicant e s = Ok (rc, s')
        \<and> (rc = 0 \<and> card (live s') = 2 \<or> rc = - 1 \<and> live s' = {})))
    \<and> (\<exists>s'. wifi_close_supplicant_connection s = Ok s' \<and> live s' = {})
    \<and> (replies_fit e \<and> CHR 0x00 \<in> set cmd \<and> 4 \<le> length reply \<and> n < length reply \<longrightarrow>
        (\<exists>rc reply' n'. wifi_command e s cmd reply n = Ok (rc, reply', n') \<and> rc \<in> {0, - 1, - 2}))"
proof -
  note inv = used_inv [OF assms]
  have stored: "live s = set_option (ctrl_conn s) \<union> set_option (monitor_conn s)"
    using inv by (auto simp: supplicant_inv_def split: option.splits)
  have "\<exists>rc s'. wifi_connect_to_supplicant e s = Ok (rc, s')
      \<and> (rc = 0 \<and> card (live s') = 2 \<or> rc = - 1 \<and> live s' = {})" if no: "ctrl_conn s = None"
  proof -
    obtain rc s' where "wifi_connect_to_supplicant e s = Ok (rc, s')" "supplicant_inv s'"
      "rc = 0 \<or> rc = - 1" "rc = 0 \<longleftrightarrow> ctrl_conn s' \<noteq> None"
      using connect_outcome [OF inv no] by blast
    then show ?thesis by (auto simp: supplicant_inv_def split: option.splits)
  qed
  then show ?thesis using stored close_outcome [OF inv] command_outcome [OF inv, of e cmd reply n] by auto
qed

text \<open>An environment in which the supplicant runs and sends back a full buffer.\<close>

definition echoing :: supplicant_env where
  "echoing = \<lparr>property_get = (\<lambda>key _. if key = SUPP_PROP_NAME then (7, ''running'') else (4, ''eth0'')),
     access_IFACE_DIR = 0, wpa_ctrl_open = (\<lambda>_ _. True), wpa_ctrl_attach = (\<lambda>_. 0),
     wpa_ctrl_request = (\<lambda>_ _ reply n. (0, replicate n CHR ''P'' @ drop n reply, n))\<rparr>"

definition connected :: supplicant where
  "connected = \<lparr>ctrl_conn = Some 0, monitor_conn = Some 1, iface = ''eth0'', opens = 2, live = {0, 1}\<rparr>"

lemma echoing_connects: "wifi_connect_to_supplicant echoing supplicant_init = Ok (0, connected)"
  by (auto simp: wifi_connect_to_supplicant_def echoing_def connected_def supplicant_init_def opened_def
      SUPP_PROP_NAME_def Let_def)

lemma supplicant_connections_witness:
  "used connected \<and> (\<exists>s'. wifi_close_supplicant_connection connected = Ok s' \<and> live s' = {})
   \<and> (\<exists>rc reply' n'. wifi_command echoing connected (''STATUS'' @ [CHR 0x00]) (replicate 9 CHR ''-'') 8
        = Ok (rc, reply', n') \<and> rc \<in> {0, - 1, - 2})"
proof -
  have u: "used connected"
    using used.connect [OF used.start _ echoing_connects] by (simp add: supplicant_init_def)
  moreover have "replies_fit echoing" by (simp add: replies_fit_def echoing_def)
  ultimately show ?thesis
    using supplicant_connections [OF u, of echoing "''STATUS'' @ [CHR 0x00]" "replicate 9 CHR ''-''" 8] by simp
qed

text \<open>
  Connecting while connected forgets the old connections without closing them,
  and no later close reaches them; and a \<open>PING\<close> whose reply fills the whole buffer, which the
  header allows, has its terminator written behind it.
\<close>

theorem supplicant_misuse:
  assumes "supplicant_inv s" "ctrl_conn s = Some k"
  shows "(wifi_connect_to_supplicant e s = Ok (0, s') \<longrightarrow>
      (\<exists>s''. wifi_close_supplicant_connection s' = Ok s'' \<and> k \<in> live s''))
    \<and> (wpa_ctrl_request e k ''PING'' reply (length reply) = (0, ''PONG'' @ tail, length reply)
        \<and> length tail + 4 = length reply
      \<longrightarrow> wifi_command e s (''PING'' @ [CHR 0x00]) reply (length reply) = Fault Out_of_bounds)"
proof -
  obtain m where s: "monitor_conn s = Some m" "k \<noteq> m" "live s = {k, m}" "k < opens s" "m < opens s"
    using assms by (auto simp: supplicant_inv_def split: option.splits)
  have "\<exists>s''. wifi_close_supplicant_connection s' = Ok s'' \<and> k \<in> live s''"
    if "wifi_connect_to_supplicant e s = Ok (0, s')"
    using connect_success [OF that] s by (simp add: wifi_close_supplicant_connection_def closed_def)
  moreover have "wifi_command e s (''PING'' @ [CHR 0x00]) reply (length reply) = Fault Out_of_bounds"
    if "wpa_ctrl_request e k ''PING'' reply (length reply) = (0, ''PONG'' @ tail, length reply)"
      "length tail + 4 = length reply"
    using that assms(2) s(3)
    by (simp add: wifi_command_def wifi_send_command_def eval_nat_numeral)
  ultimately show ?thesis by blast
qed

lemma supplicant_misuse_witness:
  "\<exists>s' s''. wifi_connect_to_supplicant echoing connected = Ok (0, s')
    \<and> wifi_close_supplicant_connection s' = Ok s'' \<and> 0 \<in> live s''"
proof -
  obtain s' where "wifi_connect_to_supplicant echoing connected = Ok (0, s')"
    by (simp add: wifi_connect_to_supplicant_def echoing_def connected_def opened_def SUPP_PROP_NAME_def Let_def)
  moreover have "supplicant_inv connected" by (simp add: supplicant_inv_def connected_def)
  ultimately show ?thesis
    using supplicant_misuse [of connected 0 echoing s' "[]" "[]"] by (auto simp: connected_def)
qed

end
