(* ===== verification/Wifi_Service.thy ===== *)
theory Wifi_Service
  imports Supplicant Net_Dev
begin

text \<open>
  The code that \<^verbatim>\<open>#if 0\<close> leaves out of the builds: in \<^verbatim>\<open>wifi.cpp\<close> loading and unloading the
  driver, the configuration file, starting and stopping \<^verbatim>\<open>wpa_supplicant\<close> and waiting for its events, and in
  \<^verbatim>\<open>libpowertutor.cpp\<close> the query of the link speed. It is modelled as it would run if
  it were compiled. The kernel, the property service and the file system are parameters; the answers to
  calls that are repeated depend on the number of calls so far. What the code asks of them in return is
  kept in the order of its requests.
\<close>

subsection \<open>The system\<close>

record service_env =
  service_property :: "nat \<Rightarrow> string \<Rightarrow> int \<times> string"
  property_found :: "nat \<Rightarrow> bool"
  property_state :: "nat \<Rightarrow> nat \<times> string"
  proc_modules :: "nat \<Rightarrow> string option"
  module_loads :: bool
  init_module :: int
  delete_module :: "nat \<Rightarrow> int \<times> int"
  config_allowed :: bool
  template_opens :: bool
  template_reads :: "string option list"
  config_creates :: bool
  write_accepts :: "string \<Rightarrow> nat"
  chown_config :: int

datatype service_request =
    Property_set string string | Init_module string | Delete_module string | Usleep nat | Sched_yield
  | Ctrl_cleanup

record service =
  calls :: nat
  requests :: "service_request list"
  config_file :: "string option"
  open_files :: "string set"

definition requested :: "service_request \<Rightarrow> service \<Rightarrow> service" where
  "requested r d = d\<lparr>requests := requests d @ [r]\<rparr>"

definition service_get :: "service_env \<Rightarrow> string \<Rightarrow> service \<Rightarrow> (int \<times> string) \<times> service" where
  "service_get e key d = (service_property e (calls d) key, d\<lparr>calls := Suc (calls d)\<rparr>)"

definition EAGAIN :: int where
  "EAGAIN = 11"

definition DRIVER_MODULE_NAME :: string where
  "DRIVER_MODULE_NAME = ''wlan''"

definition DRIVER_MODULE_TAG :: string where
  "DRIVER_MODULE_TAG = ''wlan ''"

definition DRIVER_MODULE_PATH :: string where
  "DRIVER_MODULE_PATH = ''/system/lib/modules/wlan.ko''"

definition FIRMWARE_LOADER :: string where
  "FIRMWARE_LOADER = ''wlan_loader''"

definition DRIVER_PROP_NAME :: string where
  "DRIVER_PROP_NAME = ''wlan.driver.status''"

definition SUPPLICANT_NAME :: string where
  "SUPPLICANT_NAME = ''wpa_supplicant''"

definition SUPP_CONFIG_TEMPLATE :: string where
  "SUPP_CONFIG_TEMPLATE = ''/system/etc/wifi/wpa_supplicant.conf''"

definition SUPP_CONFIG_FILE :: string where
  "SUPP_CONFIG_FILE = ''/data/misc/wifi/wpa_supplicant.conf''"

subsection \<open>The driver\<close>

definition insmod :: "service_env \<Rightarrow> string \<Rightarrow> service \<Rightarrow> int \<times> service" where
  "insmod e filename d =
     (if \<not> module_loads e then (- 1, d) else (init_module e, requested (Init_module filename) d))"

fun rmmod_loop :: "service_env \<Rightarrow> string \<Rightarrow> nat \<Rightarrow> int \<Rightarrow> service \<Rightarrow> int \<times> service" where
  "rmmod_loop e modname 0 ret d = (ret, d)"
| "rmmod_loop e modname (Suc maxtry) ret d =
     (case delete_module e (calls d) of (ret, errno) \<Rightarrow>
      let d = requested (Delete_module modname) (d\<lparr>calls := Suc (calls d)\<rparr>) in
      if ret < 0 \<and> errno = EAGAIN then rmmod_loop e modname maxtry ret (requested (Usleep 500000) d)
      else (ret, d))"

definition rmmod :: "service_env \<Rightarrow> string \<Rightarrow> service \<Rightarrow> int \<times> service" where
  "rmmod e modname d = rmmod_loop e modname 10 (- 1) d"

text \<open>
  The lines of \<^verbatim>\<open>/proc/modules\<close> are read in pieces: \<open>fgets\<close> gets at most one character less than
  the buffer holds, and stops behind a newline.
\<close>

definition module_line_size :: nat where
  "module_line_size = length DRIVER_MODULE_TAG + 1 + 10"

fun fgets :: "nat \<Rightarrow> string \<Rightarrow> string \<times> string" where
  "fgets 0 s = ([], s)"
| "fgets (Suc n) [] = ([], [])"
| "fgets (Suc n) (c # s) =
     (if c = CHR 0x0A then ([c], s) else (case fgets n s of (line, rest) \<Rightarrow> (c # line, rest)))"

lemma fgets_append: "fst (fgets n s) @ snd (fgets n s) = s"
  by (induction n s rule: fgets.induct) (auto split: prod.splits)

lemma fgets_shorter: "s \<noteq> [] \<Longrightarrow> length (snd (fgets (Suc n) s)) < length s"
proof -
  assume "s \<noteq> []"
  then obtain c t where s: "s = c # t" by (cases s) auto
  have "length (fst (fgets n t)) + length (snd (fgets n t)) = length t"
    using fgets_append [of n t] by (metis length_append)
  then show ?thesis by (auto simp: s split: prod.splits)
qed

function module_listed :: "string \<Rightarrow> bool" where
  "module_listed proc =
     (if proc = [] then False
      else case fgets (module_line_size - 1) proc of (line, rest) \<Rightarrow>
        if take (length DRIVER_MODULE_TAG) line = DRIVER_MODULE_TAG then True else module_listed rest)"
  by pat_completeness auto
termination
proof (relation "measure length", goal_cases)
  case (2 proc l rest)
  then show ?case
    using fgets_shorter [of proc 14]
    by (cases "fgets 15 proc") (simp add: module_line_size_def DRIVER_MODULE_TAG_def)
qed simp

declare module_listed.simps [simp del]

definition check_driver_loaded :: "service_env \<Rightarrow> service \<Rightarrow> bool \<times> service" where
  "check_driver_loaded e d =
     (case service_get e DRIVER_PROP_NAME d of ((found, driver_status), d) \<Rightarrow>
      if found = 0 \<or> driver_status \<noteq> ''ok'' then (False, d)
      else
        let proc = proc_modules e (calls d); d = d\<lparr>calls := Suc (calls d)\<rparr> in
        case proc of
          None \<Rightarrow> (False, requested (Property_set DRIVER_PROP_NAME ''unloaded'') d)
        | Some text \<Rightarrow>
            if module_listed text then (True, d)
            else (False, requested (Property_set DRIVER_PROP_NAME ''unloaded'') d))"

text \<open>\<open>wifi_load_driver\<close> compares the name of the property with \<open>failed\<close>, not its value.\<close>

fun load_loop :: "service_env \<Rightarrow> nat \<Rightarrow> service \<Rightarrow> int \<times> service" where
  "load_loop e 0 d = (- 1, requested (Property_set DRIVER_PROP_NAME ''timeout'') d)"
| "load_loop e (Suc count) d =
     (case service_get e DRIVER_PROP_NAME d of ((found, driver_status), d) \<Rightarrow>
      if found \<noteq> 0 \<and> driver_status = ''ok'' then (0, d)
      else if found \<noteq> 0 \<and> DRIVER_PROP_NAME = ''failed'' then (- 1, d)
      else load_loop e count (requested (Usleep 200000) d))"

definition wifi_load_driver :: "service_env \<Rightarrow> service \<Rightarrow> int \<times> service" where
  "wifi_load_driver e d =
     (case check_driver_loaded e d of (loaded, d) \<Rightarrow>
      if loaded then (0, d)
      else
        case insmod e DRIVER_MODULE_PATH d of (ret, d) \<Rightarrow>
        if ret < 0 then (- 1, d)
        else load_loop e 100 (requested Sched_yield (requested (Property_set ''ctl.start'' FIRMWARE_LOADER) d)))"

text \<open>The loop of \<open>wifi_unload_driver\<close>; the result is \<open>count\<close> when it is left.\<close>

fun unload_loop :: "service_env \<Rightarrow> nat \<Rightarrow> service \<Rightarrow> int \<times> service" where
  "unload_loop e 0 d = (- 1, d)"
| "unload_loop e (Suc count) d =
     (case check_driver_loaded e d of (loaded, d) \<Rightarrow>
      if \<not> loaded then (int count, d) else unload_loop e count (requested (Usleep 500000) d))"

definition wifi_unload_driver :: "service_env \<Rightarrow> service \<Rightarrow> int \<times> service" where
  "wifi_unload_driver e d =
     (case rmmod e DRIVER_MODULE_NAME d of (ret, d) \<Rightarrow>
      if ret = 0 then
        case unload_loop e 20 d of (count, d) \<Rightarrow> if count \<noteq> 0 then (0, d) else (- 1, d)
      else (- 1, d))"

subsection \<open>The configuration file\<close>

text \<open>
  Copying the template: what \<open>read\<close> answers until the end of the file, \<open>None\<close> for an error. The number
  of characters that \<open>write\<close> accepts is not looked at.
\<close>

fun copy_template :: "service_env \<Rightarrow> string option list \<Rightarrow> service \<Rightarrow> bool \<times> service" where
  "copy_template e [] d = (True, d)"
| "copy_template e (None # reads) d = (False, d)"
| "copy_template e (Some buf # reads) d =
     copy_template e reads
       (d\<lparr>config_file := map_option (\<lambda>text. text @ take (write_accepts e buf) buf) (config_file d)\<rparr>)"

definition ensure_config_file_exists :: "service_env \<Rightarrow> service \<Rightarrow> int \<times> service" where
  "ensure_config_file_exists e d =
     (if config_file d \<noteq> None \<and> config_allowed e then (0, d)
      else if config_file d \<noteq> None then (- 1, d)
      else if \<not> template_opens e then (- 1, d)
      else
        let d = d\<lparr>open_files := insert SUPP_CONFIG_TEMPLATE (open_files d)\<rparr> in
        if \<not> config_creates e then (- 1, d\<lparr>open_files := open_files d - {SUPP_CONFIG_TEMPLATE}\<rparr>)
        else
          let d = d\<lparr>open_files := insert SUPP_CONFIG_FILE (open_files d), config_file := Some []\<rparr> in
          case copy_template e (template_reads e) d of (copied, d) \<Rightarrow>
          let d = d\<lparr>open_files := open_files d - {SUPP_CONFIG_TEMPLATE} - {SUPP_CONFIG_FILE}\<rparr> in
          if \<not> copied then (- 1, d\<lparr>config_file := None\<rparr>)
          else if chown_config e < 0 then (- 1, d\<lparr>config_file := None\<rparr>)
          else (0, d))"

subsection \<open>Starting and stopping the supplicant\<close>

text \<open>
  Both ways of the loop of \<open>wifi_start_supplicant\<close>: with the reference \<^verbatim>\<open>pi\<close> to the status property,
  which is looked for until it is found and whose serial number tells that the value has changed, and
  without.
\<close>

definition find_property :: "service_env \<Rightarrow> service \<Rightarrow> bool \<times> service" where
  "find_property e d = (property_found e (calls d), d\<lparr>calls := Suc (calls d)\<rparr>)"

definition read_property :: "service_env \<Rightarrow> service \<Rightarrow> (nat \<times> string) \<times> service" where
  "read_property e d = (property_state e (calls d), d\<lparr>calls := Suc (calls d)\<rparr>)"

fun start_loop_libc :: "service_env \<Rightarrow> nat \<Rightarrow> bool \<Rightarrow> nat \<Rightarrow> service \<Rightarrow> int \<times> service" where
  "start_loop_libc e serial found 0 d = (- 1, d)"
| "start_loop_libc e serial found (Suc count) d =
     (case (if found then (True, d) else find_property e d) of (found, d) \<Rightarrow>
      if found then
        case read_property e d of ((pi_serial, supp_status), d) \<Rightarrow>
        if supp_status = ''running'' then (0, d)
        else if pi_serial \<noteq> serial \<and> supp_status = ''stopped'' then (- 1, d)
        else start_loop_libc e serial found count (requested (Usleep 100000) d)
      else start_loop_libc e serial found count (requested (Usleep 100000) d))"

fun start_loop :: "service_env \<Rightarrow> nat \<Rightarrow> service \<Rightarrow> int \<times> service" where
  "start_loop e 0 d = (- 1, d)"
| "start_loop e (Suc count) d =
     (case service_get e SUPP_PROP_NAME d of ((found, supp_status), d) \<Rightarrow>
      if found \<noteq> 0 \<and> supp_status = ''running'' then (0, d)
      else start_loop e count (requested (Usleep 100000) d))"

text \<open>\<open>libc\<close>: the code is compiled with \<^verbatim>\<open>HAVE_LIBC_SYSTEM_PROPERTIES\<close>.\<close>

definition wifi_start_supplicant :: "service_env \<Rightarrow> bool \<Rightarrow> service \<Rightarrow> int \<times> service" where
  "wifi_start_supplicant e libc d =
     (case service_get e SUPP_PROP_NAME d of ((found, supp_status), d) \<Rightarrow>
      if found \<noteq> 0 \<and> supp_status = ''running'' then (0, d)
      else
        case ensure_config_file_exists e d of (rc, d) \<Rightarrow>
        if rc < 0 then (- 1, d)
        else
          let d = requested Ctrl_cleanup d in
          if libc then
            case find_property e d of (found, d) \<Rightarrow>
            case (if found then read_property e d else ((0, []), d)) of ((serial, _), d) \<Rightarrow>
            start_loop_libc e serial found 200
              (requested Sched_yield (requested (Property_set ''ctl.start'' SUPPLICANT_NAME) d))
          else start_loop e 200
              (requested Sched_yield (requested (Property_set ''ctl.start'' SUPPLICANT_NAME) d)))"

fun stop_loop :: "service_env \<Rightarrow> nat \<Rightarrow> service \<Rightarrow> int \<times> service" where
  "stop_loop e 0 d = (- 1, d)"
| "stop_loop e (Suc count) d =
     (case service_get e SUPP_PROP_NAME d of ((found, supp_status), d) \<Rightarrow>
      if found \<noteq> 0 \<and> supp_status = ''stopped'' then (0, d)
      else stop_loop e count (requested (Usleep 100000) d))"

definition wifi_stop_supplicant :: "service_env \<Rightarrow> service \<Rightarrow> int \<times> service" where
  "wifi_stop_supplicant e d =
     (case service_get e SUPP_PROP_NAME d of ((found, supp_status), d) \<Rightarrow>
      if found \<noteq> 0 \<and> supp_status = ''stopped'' then (0, d)
      else stop_loop e 50 (requested Sched_yield (requested (Property_set ''ctl.stop'' SUPPLICANT_NAME) d)))"

subsection \<open>Waiting\<close>

text \<open>Every wait is bounded: whatever the system answers, so many times half a second or less.\<close>

fun sleeps :: "service_request list \<Rightarrow> nat" where
  "sleeps [] = 0"
| "sleeps (Usleep _ # rs) = Suc (sleeps rs)"
| "sleeps (_ # rs) = sleeps rs"

lemma sleeps_append [simp]: "sleeps (rs @ rs') = sleeps rs + sleeps rs'"
  by (induction rs rule: sleeps.induct) auto

lemma requests_simps [simp]:
  "requests (requested r d) = requests d @ [r]" "calls (requested r d) = calls d"
  "config_file (requested r d) = config_file d" "open_files (requested r d) = open_files d"
  by (simp_all add: requested_def)

lemma get_simps [simp]:
  "fst (service_get e key d) = service_property e (calls d) key"
  "requests (snd (service_get e key d)) = requests d" "calls (snd (service_get e key d)) = Suc (calls d)"
  "requests (snd (find_property e d)) = requests d" "requests (snd (read_property e d)) = requests d"
  by (simp_all add: service_get_def find_property_def read_property_def)

lemma check_requests: "sleeps (requests (snd (check_driver_loaded e d))) = sleeps (requests d)"
  by (simp add: check_driver_loaded_def service_get_def Let_def split: prod.splits option.splits)

lemma unload_waits: "sleeps (requests (snd (unload_loop e n d))) \<le> sleeps (requests d) + n"
proof (induction n arbitrary: d)
  case (Suc n)
  obtain loaded d' where c: "check_driver_loaded e d = (loaded, d')" by fastforce
  then have "sleeps (requests d') = sleeps (requests d)" using check_requests [of e d] by simp
  then show ?case using Suc [of "requested (Usleep 500000) d'"] c by simp
qed simp

lemma rmmod_waits: "sleeps (requests (snd (rmmod_loop e name n ret d))) \<le> sleeps (requests d) + n"
proof (induction n arbitrary: ret d)
  case (Suc n)
  obtain r err where m: "delete_module e (calls d) = (r, err)" by fastforce
  let ?d = "requested (Delete_module name) (d\<lparr>calls := Suc (calls d)\<rparr>)"
  show ?case using Suc [of r "requested (Usleep 500000) ?d"] by (simp add: m Let_def)
qed simp

lemma unload_driver_waits: "sleeps (requests (snd (wifi_unload_driver e d))) \<le> sleeps (requests d) + 30"
proof -
  obtain ret d' where r: "rmmod e DRIVER_MODULE_NAME d = (ret, d')" by fastforce
  then have "sleeps (requests d') \<le> sleeps (requests d) + 10"
    using rmmod_waits [of e DRIVER_MODULE_NAME 10 "- 1" d] by (simp add: rmmod_def)
  then show ?thesis
    using unload_waits [of e 20 d'] by (auto simp: wifi_unload_driver_def r split: prod.splits)
qed

subsection \<open>Unloading\<close>

text \<open>The answers of the checks that \<open>wifi_unload_driver\<close> makes, until one says that the driver is gone.\<close>

fun unload_checks :: "service_env \<Rightarrow> nat \<Rightarrow> service \<Rightarrow> bool list" where
  "unload_checks e 0 d = []"
| "unload_checks e (Suc n) d =
     (case check_driver_loaded e d of (loaded, d) \<Rightarrow>
      loaded # (if loaded then unload_checks e n (requested (Usleep 500000) d) else []))"

lemma unload_loop_count:
  "fst (unload_loop e n d) =
    (if unload_checks e n d = replicate n True then - 1 else int n - int (length (unload_checks e n d)))"
proof (induction n arbitrary: d)
  case (Suc n)
  obtain loaded d' where "check_driver_loaded e d = (loaded, d')" by fastforce
  then show ?case using Suc [of "requested (Usleep 500000) d'"] by auto
qed simp

lemma unload_checks_shape:
  "unload_checks e n d = replicate n True
    \<or> (\<exists>m < n. unload_checks e n d = replicate m True @ [False])"
proof (induction n arbitrary: d)
  case (Suc n)
  obtain loaded d' where c: "check_driver_loaded e d = (loaded, d')" by fastforce
  show ?case
  proof (cases loaded)
    case True
    from Suc [of "requested (Usleep 500000) d'"] show ?thesis
    proof (elim disjE exE conjE)
      fix m assume "m < n" "unload_checks e n (requested (Usleep 500000) d') = replicate m True @ [False]"
      then show ?thesis using c True by (intro disjI2 exI [of _ "Suc m"]) simp
    qed (simp add: c True)
  qed (auto simp: c intro: exI [of _ 0])
qed simp

subsection \<open>Loading\<close>

lemma load_loop_never_ok:
  assumes "\<forall>k. snd (service_property e k DRIVER_PROP_NAME) \<noteq> ''ok''"
  shows "fst (load_loop e n d) = - 1
    \<and> requests (snd (load_loop e n d))
      = requests d @ replicate n (Usleep 200000) @ [Property_set DRIVER_PROP_NAME ''timeout'']"
proof (induction n arbitrary: d)
  case (Suc n)
  have ok: "DRIVER_PROP_NAME \<noteq> ''failed''" by (simp add: DRIVER_PROP_NAME_def)
  obtain found status where p: "service_property e (calls d) DRIVER_PROP_NAME = (found, status)" by fastforce
  then have "status \<noteq> ''ok''" using assms by (metis snd_conv)
  then show ?case
    using Suc [of "requested (Usleep 200000) (d\<lparr>calls := Suc (calls d)\<rparr>)"] p ok
    by (simp add: service_get_def replicate_append_same flip: replicate_app_Cons_same)
qed simp

text \<open>
  A driver that does not come up, be it that it reports \<open>failed\<close> at once, makes \<open>wifi_load_driver\<close> wait
  the whole twenty seconds.
\<close>

lemma load_driver_never_ok:
  assumes "\<forall>k. snd (service_property e k DRIVER_PROP_NAME) \<noteq> ''ok''" "module_loads e" "0 \<le> init_module e"
  shows "fst (wifi_load_driver e d) = - 1
    \<and> requests (snd (wifi_load_driver e d))
      = requests d @ [Init_module DRIVER_MODULE_PATH, Property_set ''ctl.start'' FIRMWARE_LOADER, Sched_yield]
        @ replicate 100 (Usleep 200000) @ [Property_set DRIVER_PROP_NAME ''timeout'']"
proof -
  obtain found status where p: "service_property e (calls d) DRIVER_PROP_NAME = (found, status)" by fastforce
  then have "status \<noteq> ''ok''" using assms(1) by (metis snd_conv)
  then have "check_driver_loaded e d = (False, d\<lparr>calls := Suc (calls d)\<rparr>)"
    using p by (simp add: check_driver_loaded_def service_get_def)
  then show ?thesis
    using assms(2,3) load_loop_never_ok [OF assms(1), of 100]
    by (simp add: wifi_load_driver_def insmod_def del: load_loop.simps)
qed

subsection \<open>The list of modules\<close>

text \<open>
  A line of the file that starts with the tag is found, however long the lines are; but so is the tag at
  the sixteenth character of a longer line.
\<close>

lemma fgets_line:
  "CHR 0x0A \<notin> set line \<Longrightarrow>
    fgets n (line @ CHR 0x0A # rest) =
      (if length line < n then (line @ [CHR 0x0A], rest)
       else (take n line, drop n line @ CHR 0x0A # rest))"
proof (induction n "line" arbitrary: rest rule: fgets.induct)
  case (3 n c s)
  then show ?case by (auto split: prod.splits)
qed auto

lemma module_listed_step:
  "module_listed proc \<longleftrightarrow> proc \<noteq> [] \<and>
     (take 5 (fst (fgets 15 proc)) = DRIVER_MODULE_TAG \<or> module_listed (snd (fgets 15 proc)))"
proof -
  have five: "length DRIVER_MODULE_TAG = 5" "module_line_size - Suc 0 = 15"
    by (simp_all add: module_line_size_def DRIVER_MODULE_TAG_def)
  show ?thesis by (subst module_listed.simps) (auto simp: five prod.case_eq_if)
qed

lemma module_listed_skip:
  "CHR 0x0A \<notin> set line \<Longrightarrow> module_listed rest \<Longrightarrow> module_listed (line @ CHR 0x0A # rest)"
proof (induction "length line" arbitrary: "line" rule: less_induct)
  case less
  show ?case
  proof (cases "length line < 15")
    case True
    then show ?thesis using less(2,3) by (subst module_listed_step) (simp add: fgets_line)
  next
    case False
    then have "module_listed (drop 15 line @ CHR 0x0A # rest)"
      using less(2,3) by (intro less(1)) (auto dest: in_set_dropD)
    then show ?thesis using less(2) False by (subst module_listed_step) (simp add: fgets_line)
  qed
qed

lemma module_listed_first:
  assumes "CHR 0x0A \<notin> set line"
  shows "module_listed (DRIVER_MODULE_TAG @ line @ CHR 0x0A # rest)"
proof -
  have "CHR 0x0A \<notin> set (DRIVER_MODULE_TAG @ line)" using assms by (simp add: DRIVER_MODULE_TAG_def)
  from fgets_line [OF this, of 15 rest] show ?thesis
    by (subst module_listed_step) (simp add: DRIVER_MODULE_TAG_def)
qed

lemma module_listed_lines:
  assumes "\<forall>line \<in> set lines. CHR 0x0A \<notin> set line" "DRIVER_MODULE_TAG @ tail \<in> set lines"
  shows "module_listed (concat (map (\<lambda>line. line @ [CHR 0x0A]) lines))"
  using assms
proof (induction lines)
  case (Cons line lines)
  show ?case
  proof (cases "line = DRIVER_MODULE_TAG @ tail")
    case True
    then show ?thesis using Cons.prems(1) module_listed_first [of tail] by (simp add: DRIVER_MODULE_TAG_def)
  next
    case False
    then show ?thesis using Cons module_listed_skip [of "line"] by auto
  qed
qed simp

lemma module_listed_inside: "module_listed (''sdio_helper_99 wlan 1'' @ [CHR 0x0A])"
  using module_listed_first [of "''1''" "[]"]
  by (subst module_listed_step) (simp add: DRIVER_MODULE_TAG_def eval_nat_numeral)

subsection \<open>The configuration file\<close>

lemma copy_template_file:
  "config_file d = Some old \<Longrightarrow> copy_template e reads d =
     (None \<notin> set reads,
      d\<lparr>config_file := Some (old @ concat (map (\<lambda>buf. take (write_accepts e buf) buf)
        (map the (takeWhile (\<lambda>r. r \<noteq> None) reads))))\<rparr>)"
proof (induction e reads d arbitrary: old rule: copy_template.induct)
  case (3 e buf reads d)
  then show ?case by simp
qed simp_all

text \<open>
  The function leaves no file open and does not touch a file that exists. When it fails it leaves no file
  that was not there; when it succeeds there is one, a new one with what \<open>write\<close> has accepted of the
  template: all of it if no write was short, and less, without an error, if one was.
\<close>

lemma config_file_outcome:
  assumes "open_files d = {}"
  shows "\<exists>rc d'. ensure_config_file_exists e d = (rc, d') \<and> rc \<in> {0, - 1} \<and> open_files d' = {}
    \<and> requests d' = requests d \<and> calls d' = calls d
    \<and> (config_file d \<noteq> None \<or> rc \<noteq> 0 \<longrightarrow> config_file d' = config_file d)
    \<and> (config_file d = None \<and> rc = 0 \<longrightarrow> config_file d'
        = Some (concat (map (\<lambda>buf. take (write_accepts e buf) buf) (map the (template_reads e)))))
    \<and> (rc = 0 \<longrightarrow> config_file d' \<noteq> None)"
proof (cases "config_file d")
  case None
  let ?d = "d\<lparr>open_files := {SUPP_CONFIG_FILE, SUPP_CONFIG_TEMPLATE}, config_file := Some []\<rparr>"
  have "\<exists>text. copy_template e (template_reads e) ?d
      = (None \<notin> set (template_reads e), ?d\<lparr>config_file := Some text\<rparr>)
    \<and> (None \<notin> set (template_reads e)
        \<longrightarrow> text = concat (map (\<lambda>buf. take (write_accepts e buf) buf) (map the (template_reads e))))"
  proof (cases "None \<in> set (template_reads e)")
    case False
    then have "takeWhile (\<lambda>r. r \<noteq> None) (template_reads e) = template_reads e"
      by (metis (mono_tags, lifting) takeWhile_eq_all_conv)
    then show ?thesis using copy_template_file [of ?d "[]" e "template_reads e"] False
      by (simp del: takeWhile_eq_all_conv not_None_eq)
  next
    case True
    with copy_template_file [of ?d "[]" e "template_reads e"] show ?thesis by simp blast
  qed
  then obtain new where "copy_template e (template_reads e) ?d
      = (None \<notin> set (template_reads e), ?d\<lparr>config_file := Some new\<rparr>)"
    "None \<notin> set (template_reads e)
        \<longrightarrow> new = concat (map (\<lambda>buf. take (write_accepts e buf) buf) (map the (template_reads e)))" by blast
  then show ?thesis
    using None assms by (auto simp: ensure_config_file_exists_def Let_def intro!: service.equality)
qed (auto simp: ensure_config_file_exists_def assms)

subsection \<open>The supplicant\<close>

text \<open>Whether one of the readings of the status from the \<open>k\<close>-th call on shows the value.\<close>

fun status_seen :: "service_env \<Rightarrow> string \<Rightarrow> nat \<Rightarrow> nat \<Rightarrow> bool" where
  "status_seen e value k 0 = False"
| "status_seen e value k (Suc n) =
     (fst (service_property e k SUPP_PROP_NAME) \<noteq> 0 \<and> snd (service_property e k SUPP_PROP_NAME) = value
      \<or> status_seen e value (Suc k) n)"

lemma stop_loop_outcome:
  "\<exists>rc d'. stop_loop e n d = (rc, d') \<and> rc \<in> {0, - 1} \<and> (rc = 0 \<longleftrightarrow> status_seen e ''stopped'' (calls d) n)
    \<and> sleeps (requests d') \<le> sleeps (requests d) + n"
proof (induction n arbitrary: d)
  case (Suc n)
  let ?d = "requested (Usleep 100000) (d\<lparr>calls := Suc (calls d)\<rparr>)"
  from Suc [of ?d] show ?case by (auto simp: service_get_def split: prod.splits)
qed simp

lemma start_loop_outcome:
  "\<exists>rc d'. start_loop e n d = (rc, d') \<and> rc \<in> {0, - 1} \<and> (rc = 0 \<longleftrightarrow> status_seen e ''running'' (calls d) n)
    \<and> sleeps (requests d') \<le> sleeps (requests d) + n"
proof (induction n arbitrary: d)
  case (Suc n)
  let ?d = "requested (Usleep 100000) (d\<lparr>calls := Suc (calls d)\<rparr>)"
  from Suc [of ?d] show ?case by (auto simp: service_get_def split: prod.splits)
qed simp

text \<open>Stopping succeeds if one of fifty-one readings shows that the service has stopped.\<close>

lemma stop_supplicant_outcome:
  "\<exists>rc d'. wifi_stop_supplicant e d = (rc, d') \<and> rc \<in> {0, - 1}
    \<and> (rc = 0 \<longleftrightarrow> status_seen e ''stopped'' (calls d) 51) \<and> sleeps (requests d') \<le> sleeps (requests d) + 50"
proof -
  have "status_seen e ''stopped'' (calls d) 51 \<longleftrightarrow>
      fst (service_property e (calls d) SUPP_PROP_NAME) \<noteq> 0
        \<and> snd (service_property e (calls d) SUPP_PROP_NAME) = ''stopped''
      \<or> status_seen e ''stopped'' (Suc (calls d)) 50"
    using status_seen.simps(2) [of e "''stopped''" "calls d" 50] by simp
  then show ?thesis
    using stop_loop_outcome [of e 50 "requested Sched_yield (requested (Property_set ''ctl.stop'' SUPPLICANT_NAME)
        (d\<lparr>calls := Suc (calls d)\<rparr>))"]
    by (auto simp: wifi_stop_supplicant_def service_get_def split: prod.splits)
qed

text \<open>
  Starting succeeds if the service runs already, or the configuration file is there in the end and one of
  two hundred readings shows that it runs.
\<close>

lemma start_supplicant_outcome:
  assumes "open_files d = {}"
  shows "\<exists>rc d'. wifi_start_supplicant e False d = (rc, d') \<and> rc \<in> {0, - 1}
    \<and> (rc = 0 \<longleftrightarrow> status_seen e ''running'' (calls d) 1
        \<or> fst (ensure_config_file_exists e (d\<lparr>calls := Suc (calls d)\<rparr>)) = 0
          \<and> status_seen e ''running'' (Suc (calls d)) 200)
    \<and> sleeps (requests d') \<le> sleeps (requests d) + 200"
proof -
  let ?d = "d\<lparr>calls := Suc (calls d)\<rparr>"
  obtain rc1 d1 where c: "ensure_config_file_exists e ?d = (rc1, d1)" "rc1 \<in> {0, - 1}"
    "requests d1 = requests d" "calls d1 = Suc (calls d)"
    using config_file_outcome [of ?d e] assms by auto
  have "status_seen e ''running'' (calls d) 1 \<longleftrightarrow>
      fst (service_property e (calls d) SUPP_PROP_NAME) \<noteq> 0
        \<and> snd (service_property e (calls d) SUPP_PROP_NAME) = ''running''"
    by simp
  then show ?thesis
    using c start_loop_outcome [of e 200 "requested Sched_yield
        (requested (Property_set ''ctl.start'' SUPPLICANT_NAME) (requested Ctrl_cleanup d1))"]
    by (auto simp: wifi_start_supplicant_def service_get_def Let_def split: prod.splits)
qed

subsection \<open>Addresses, events and the link speed\<close>

text \<open>
  The rest of the disabled code. \<open>do_dhcp_request\<close> returns whether the interface is still open, too, and
  leaves the addresses alone when it fails.
\<close>

definition do_dhcp_request :: "int \<Rightarrow> (string \<Rightarrow> int) \<Rightarrow> 'a \<Rightarrow> string \<Rightarrow> 'a \<Rightarrow> int \<times> 'a \<times> bool" where
  "do_dhcp_request ifc_init do_dhcp info iface_name addresses =
     (if iface_name = ''sta'' then (0, addresses, False)
      else if ifc_init < 0 then (- 1, addresses, False)
      else
        let ifc_open = True in
        if do_dhcp iface_name < 0 then let ifc_open = False in (- 1, addresses, ifc_open)
        else let ifc_open = False in (0, info, ifc_open))"

text \<open>
  \<open>wifi_wait_for_event\<close>: \<open>recv\<close> is \<^verbatim>\<open>wpa_ctrl_recv\<close>, which writes at most as many characters as it
  is told. For a buffer of no characters that number wraps around, and anything may be written behind it.
\<close>

definition event_terminating :: "string \<Rightarrow> string" where
  "event_terminating WPA_EVENT_TERMINATING = WPA_EVENT_TERMINATING @ '' - signal 0 received''"

definition c_string :: "string \<Rightarrow> string" where
  "c_string buf = takeWhile (\<lambda>c. c \<noteq> CHR 0x00) buf"

definition wifi_wait_for_event ::
  "(nat \<Rightarrow> int \<times> string) \<Rightarrow> string \<Rightarrow> supplicant \<Rightarrow> string \<Rightarrow> (int \<times> string) result" where
  "wifi_wait_for_event recv WPA_EVENT_TERMINATING s buf =
     (if monitor_conn s = None then Ok (0, buf)
      else if buf = [] then Fault Out_of_bounds
      else
        case recv (length buf - 1) of (result, received) \<Rightarrow>
        let nread = length received in
        if result < 0 then Ok (- 1, buf)
        else if nread \<ge> length buf then Fault Out_of_bounds
        else
          let buf = received @ [CHR 0x00] @ drop (nread + 1) buf in
          if result = 0 \<and> nread = 0 then
            let text = event_terminating WPA_EVENT_TERMINATING;
                buf = take (length buf - 1) (text @ replicate (length buf - 1) CHR 0x00) @ [CHR 0x00]
            in Ok (int (length (c_string buf)), buf)
          else if hd buf = CHR ''<'' \<and> CHR ''>'' \<in> set (c_string buf) then
            let match = length (takeWhile (\<lambda>c. c \<noteq> CHR ''>'') buf);
                nread = nread - (match + 1);
                buf = take (nread + 1) (drop (match + 1) buf) @ drop (nread + 1) buf
            in Ok (int nread, buf)
          else Ok (int nread, buf))"

text \<open>
  An event of the supplicant: the level in angle brackets is stripped off, and the text without it is
  returned with its length.
\<close>

lemma wait_for_event_level:
  assumes "monitor_conn s \<noteq> None" "recv (length buf - 1) = (0, CHR ''<'' # level @ CHR ''>'' # event)"
    and "length level + length event + 2 < length buf"
    and "CHR ''>'' \<notin> set level" "CHR 0x00 \<notin> set level" "CHR 0x00 \<notin> set event"
  shows "\<exists>buf'. wifi_wait_for_event recv terminating s buf = Ok (int (length event), buf')
    \<and> c_string buf' = event \<and> length buf' = length buf"
proof -
  let ?msg = "CHR ''<'' # level @ CHR ''>'' # event" and ?n = "length event"
  define buf1 where "buf1 = ?msg @ CHR 0x00 # drop (length ?msg + 1) buf"
  have len: "length buf1 = length buf" "length ?msg = length level + ?n + 2" using assms(3) by (auto simp: buf1_def)
  have "CHR 0x00 \<notin> set ?msg" using assms(5,6) by simp
  then have "c_string buf1 = ?msg" unfolding c_string_def buf1_def by (subst takeWhile_tail) auto
  then have in_text: "CHR ''>'' \<in> set (c_string buf1)" by simp
  have "takeWhile (\<lambda>c. c \<noteq> CHR ''>'') level = level"
    by (rule takeWhile_eq_all_conv [THEN iffD2]) (use assms(4) in auto)
  then have match: "length (takeWhile (\<lambda>c. c \<noteq> CHR ''>'') (level @ CHR ''>'' # rest)) = length level" for rest
    by (simp add: takeWhile_tail)
  let ?new = "event @ CHR 0x00 # drop (Suc ?n) buf1"
  have "wifi_wait_for_event recv terminating s buf = Ok (int ?n, ?new)"
    using assms(1-3) in_text by (auto simp: wifi_wait_for_event_def Let_def buf1_def match)
  moreover have "c_string ?new = event"
    using assms(6) unfolding c_string_def by (subst takeWhile_tail) auto
  moreover have "length ?new = length buf" using assms(3) len(1) by simp
  ultimately show ?thesis by blast
qed

text \<open>
  The disabled branch of \<open>wifi_channel_rate\<close> asks the supplicant for the link speed. \<open>scan_linkspeed\<close> is
  its \<^verbatim>\<open>sscanf\<close> with the format \<open>%*s %u\<close>; a number that does not fit is undefined behaviour.
\<close>

definition scan_linkspeed :: "string \<Rightarrow> int \<Rightarrow> int result" where
  "scan_linkspeed text linkspeed =
     (let t = dropWhile isspace text;
          word = takeWhile (\<lambda>c. \<not> isspace c) t;
          (sign, r) = read_sign (dropWhile isspace (dropWhile (\<lambda>c. \<not> isspace c) t));
          ds = takeWhile isdigit r in
      if word = [] \<or> ds = [] then Ok linkspeed
      else if digits_value ds < 2 ^ 32 then Ok (int_of_size (size_of_int (sign * digits_value ds)))
      else Fault Signed_overflow)"

definition wifi_channel_rate_asked :: "supplicant_env \<Rightarrow> supplicant \<Rightarrow> (int \<times> supplicant) result" where
  "wifi_channel_rate_asked e s =
     (let reply = replicate 256 CHR 0x00; reply_len = length reply - 1 in
      bind_r (wifi_connect_to_supplicant e s) (\<lambda>(rc, s).
      if rc < 0 then Ok (- 1, s)
      else
        bind_r (wifi_command e s (''DRIVER LINKSPEED'' @ [CHR 0x00]) reply reply_len) (\<lambda>(rc, reply, reply_len).
        if rc \<noteq> 0 then bind_r (wifi_close_supplicant_connection s) (\<lambda>s. Ok (- 1, s))
        else
          bind_r
            (if reply_len > 0 \<and> reply_len - 1 \<ge> length reply then Fault Out_of_bounds
             else if reply_len > 0 \<and> reply ! (reply_len - 1) = newline
             then Ok (reply[reply_len - 1 := CHR 0x00])
             else if reply_len \<ge> length reply then Fault Out_of_bounds
             else Ok (reply[reply_len := CHR 0x00])) (\<lambda>reply.
          bind_r (wifi_close_supplicant_connection s) (\<lambda>s.
          bind_r (scan_linkspeed (c_string reply) (- 1)) (\<lambda>linkspeed. Ok (linkspeed, s)))))))"

lemma connect_negative:
  assumes "used s" "ctrl_conn s = None"
  shows "\<exists>rc s'. wifi_connect_to_supplicant e s = Ok (rc, s') \<and> used s'
    \<and> (rc < 0 \<longrightarrow> live s' = {})"
proof -
  obtain rc s' where c: "wifi_connect_to_supplicant e s = Ok (rc, s')" "supplicant_inv s'"
    "rc = 0 \<or> rc = - 1" "rc = 0 \<longleftrightarrow> ctrl_conn s' \<noteq> None"
    using connect_outcome [OF used_inv [OF assms(1)] assms(2), of e] by blast
  moreover have "used s'" using used.connect [OF assms c(1)] .
  ultimately show ?thesis by (auto simp: supplicant_inv_def split: option.splits)
qed

text \<open>Whatever the supplicant answers, no connection is left when the function has returned.\<close>

lemma channel_rate_closes:
  assumes "used s" "ctrl_conn s = None" "wifi_channel_rate_asked e s = Ok (rate, s')"
  shows "live s' = {}"
proof -
  obtain rc s1 where c: "wifi_connect_to_supplicant e s = Ok (rc, s1)" "used s1" "rc < 0 \<longrightarrow> live s1 = {}"
    using connect_negative [OF assms(1,2), of e] by blast
  obtain s2 where "wifi_close_supplicant_connection s1 = Ok s2" "live s2 = {}"
    using close_outcome [OF used_inv [OF c(2)]] by blast
  then show ?thesis
    using assms(3) c(1,3)
    by (auto simp: wifi_channel_rate_asked_def bind_r_eq_Ok Let_def split: if_splits)
qed

lemma scan_printed:
  assumes "n < 2 ^ 32" "\<forall>c \<in> set word. \<not> isspace c" "word \<noteq> []"
  shows "scan_linkspeed (word @ CHR '' '' # print_nat n) old = Ok (int_of_size (size_of_int (int n)))"
proof -
  have ds: "\<forall>c \<in> set (print_nat n). isdigit c" "\<forall>c \<in> set (print_nat n). \<not> isspace c"
    using print_nat_chars print_digit_ok by blast+
  have w: "dropWhile isspace (word @ r) = word @ r" for r
    using assms(2,3) by (cases "word") auto
  have word: "takeWhile (\<lambda>c. \<not> isspace c) (word @ CHR '' '' # r) = word"
    "dropWhile (\<lambda>c. \<not> isspace c) (word @ CHR '' '' # r) = CHR '' '' # r" for r
    using takeWhile_dropWhile_tail [of "word" "\<lambda>c. \<not> isspace c"] assms(2) by simp_all
  have p: "dropWhile isspace (CHR '' '' # print_nat n) = print_nat n"
    using ds(2) print_nat_nonempty [of n] by (cases "print_nat n") auto
  have t: "takeWhile isdigit (print_nat n) = print_nat n"
    by (rule takeWhile_eq_all_conv [THEN iffD2]) (use ds(1) in blast)
  have n: "int n < 2 ^ 32" using assms(1) by (metis of_nat_less_iff of_nat_numeral of_nat_power)
  show ?thesis
    using print_nat_sign [of n "[]"] n assms(3)
    by (simp add: scan_linkspeed_def w word p t digits_value_print del: dropWhile.simps)
qed

subsection \<open>A driver that does not go away\<close>

text \<open>
  \<open>wifi_unload_driver\<close> looks at \<open>count\<close> to tell how its loop ended, but \<open>count\<close> is -1 when the driver is
  still loaded after all twenty checks, and 0 when the twentieth finds it gone: the first is reported as
  success, the second as failure.
\<close>

theorem unload_driver_result:
  assumes "rmmod e DRIVER_MODULE_NAME d = (0, d')"
  shows "fst (wifi_unload_driver e d) = (if unload_checks e 20 d' = replicate 19 True @ [False] then - 1 else 0)"
proof -
  have count: "fst (wifi_unload_driver e d) = (if fst (unload_loop e 20 d') \<noteq> 0 then 0 else - 1)"
    by (auto simp: wifi_unload_driver_def assms split: prod.splits)
  from unload_checks_shape [of e 20 d'] show ?thesis
  proof (elim disjE exE conjE)
    assume all: "unload_checks e 20 d' = replicate 20 True"
    have "last (replicate 20 True) \<noteq> last (replicate 19 True @ [False])" by simp
    then have "unload_checks e 20 d' \<noteq> replicate 19 True @ [False]" using all by metis
    then show ?thesis using count unload_loop_count [of e 20 d'] all by simp
  next
    fix m assume m: "m < 20" "unload_checks e 20 d' = replicate m True @ [False]"
    have "last (replicate 20 True) \<noteq> last (replicate m True @ [False])" by simp
    then have "unload_checks e 20 d' \<noteq> replicate 20 True" using m by metis
    then have "fst (unload_loop e 20 d') = 19 - int m" using unload_loop_count [of e 20 d'] m(2) by simp
    moreover have "replicate m True @ [False] = replicate 19 True @ [False] \<longleftrightarrow> m = 19"
      by (metis append_same_eq length_replicate)
    ultimately show ?thesis using count m(2) by auto
  qed
qed

text \<open>The kernel accepts the request and lists the module for ever.\<close>

definition stuck :: service_env where
  "stuck = \<lparr>service_property = (\<lambda>_ _. (2, ''ok'')), property_found = (\<lambda>_. False), property_state = (\<lambda>_. (0, [])),
     proc_modules = (\<lambda>_. Some (DRIVER_MODULE_TAG @ ''1'' @ [CHR 0x0A])), module_loads = True, init_module = 0,
     delete_module = (\<lambda>_. (0, 0)), config_allowed = True, template_opens = True, template_reads = [],
     config_creates = True, write_accepts = length, chown_config = 0\<rparr>"

lemma stuck_check: "check_driver_loaded stuck d = (True, d\<lparr>calls := Suc (Suc (calls d))\<rparr>)"
  using module_listed_first [of "''1''" "[]"]
  by (simp add: check_driver_loaded_def service_get_def stuck_def)

lemma stuck_checks: "unload_checks stuck n d = replicate n True"
  by (induction n arbitrary: d) (simp_all add: stuck_check)

lemma unload_driver_result_witness:
  "fst (wifi_unload_driver stuck \<lparr>calls = 0, requests = [], config_file = None, open_files = {}\<rparr>) = 0
    \<and> (\<forall>n d. unload_checks stuck n d = replicate n True)"
proof -
  let ?d = "\<lparr>calls = 0, requests = [], config_file = None, open_files = {}\<rparr>"
  let ?e = "requested (Delete_module DRIVER_MODULE_NAME) (?d\<lparr>calls := 1\<rparr>)"
  have "rmmod_loop stuck DRIVER_MODULE_NAME (Suc 9) (- 1) ?d = (0, ?e)"
    by (subst rmmod_loop.simps) (simp add: stuck_def Let_def)
  then have r: "rmmod stuck DRIVER_MODULE_NAME ?d = (0, ?e)" by (simp add: rmmod_def)
  have "last (replicate 20 True) \<noteq> last (replicate 19 True @ [False])" by simp
  then have "unload_checks stuck 20 ?e \<noteq> replicate 19 True @ [False]" using stuck_checks [of 20 ?e] by metis
  then show ?thesis using unload_driver_result [OF r] stuck_checks by simp
qed

end
