(* ===== verification/Utils.thy ===== *)
theory Utils
  imports Prelude
begin

text \<open>
  \<^verbatim>\<open>utils.cpp\<close>: the address of an interface. The kernel's answers are parameters; the size of a
  pointer is one too, because the code copies that many bytes: 4 on the handset, 8 on a server. An
  \<^verbatim>\<open>in_addr\<close> is a list of 4 bytes, a \<^verbatim>\<open>sockaddr_in\<close> one of 16, whose address starts at the fifth.
\<close>

record inet_calls =
  socket :: int
  ioctl_SIOCGIFADDR :: "string \<Rightarrow> int \<times> nat list"
  sizeof_pointer :: nat

definition IF_NAMESIZE :: nat where
  "IF_NAMESIZE = 16"

text \<open>The result is the return code and \<open>ip_addr\<close>; \<^verbatim>\<open>strcpy\<close> needs room for the terminator.\<close>

definition get_ip_addr :: "inet_calls \<Rightarrow> string \<Rightarrow> (int \<times> nat list) result" where
  "get_ip_addr e ifname =
     (let ip_addr = replicate 4 0 in
      if length ifname > IF_NAMESIZE then Ok (- 1, ip_addr)
      else if length ifname + 1 > IF_NAMESIZE then Fault Out_of_bounds
      else
        let sock = socket e in
        if sock < 0 then Ok (sock, ip_addr)
        else
          case ioctl_SIOCGIFADDR e ifname of (rc, ifr_addr) \<Rightarrow>
          if rc = 0 then
            if sizeof_pointer e \<le> length ip_addr
            then Ok (rc, take (sizeof_pointer e) (drop 4 ifr_addr) @ drop (sizeof_pointer e) ip_addr)
            else Fault Out_of_bounds
          else Ok (rc, ip_addr))"

text \<open>
  On the handset the address is copied whole; on a server every successful call writes behind
  \<open>ip_addr\<close>, and a name of exactly \<open>IF_NAMESIZE\<close> characters passes the test for its length and
  overflows everywhere.
\<close>

lemma get_ip_addr_handset:
  assumes "length ifname < IF_NAMESIZE" "0 \<le> socket e" "sizeof_pointer e = 4"
    and "ioctl_SIOCGIFADDR e ifname = (0, a # b # c # d # ip_addr @ sin_zero)" "length ip_addr = 4"
  shows "get_ip_addr e ifname = Ok (0, ip_addr)"
  using assms by (simp add: get_ip_addr_def IF_NAMESIZE_def)

lemma get_ip_addr_faults:
  "get_ip_addr e ifname = Fault Out_of_bounds \<longleftrightarrow>
     length ifname = IF_NAMESIZE
     \<or> length ifname < IF_NAMESIZE \<and> 0 \<le> socket e \<and> fst (ioctl_SIOCGIFADDR e ifname) = 0
       \<and> 4 < sizeof_pointer e"
  by (auto simp: get_ip_addr_def IF_NAMESIZE_def Let_def split: prod.splits)

lemma get_ip_addr_no_other_fault: "get_ip_addr e ifname = Fault f \<Longrightarrow> f = Out_of_bounds"
  by (auto simp: get_ip_addr_def Let_def split: prod.splits if_splits)

end
