(* ===== verification/Average.thy ===== *)
theory Average
  imports Estimate
begin

text \<open>
  \<open>estimate_mobile_energy_cost_average\<close>: the cost of a transfer averaged over the states of the
  radio, each weighted with the fraction of time the radio has spent in it. The loop over the states
  is compared with the weighted sum in exact arithmetic.
\<close>

lemma exact_cost_range:
  assumes "power_model pm" "0 \<le> D" "Fin 0 \<le> idle"
  shows "exact_cost pm s t D idle \<le> 1000 * (D + 10)"
proof -
  let ?f = "of_int (MOBILE_FACH_POWER pm) :: rat" and ?d = "of_int (MOBILE_DCH_POWER pm) :: rat"
  have "0 \<le> MOBILE_FACH_POWER pm" "MOBILE_FACH_POWER pm \<le> 1000" "0 \<le> MOBILE_DCH_POWER pm"
    "MOBILE_DCH_POWER pm \<le> 1000"
    using power_model.state_powers [OF assms(1)] by linarith+
  then have "of_int 0 \<le> ?f" "?f \<le> of_int 1000" "of_int 0 \<le> ?d" "?d \<le> of_int 1000"
    by (simp_all only: of_int_le_iff)
  then have le: "?f * x \<le> 1000 * x" "?d * x \<le> 1000 * x" if "0 \<le> x" for x
    using that by (auto intro: mult_right_mono)
  note x6 = d_min_extension(2,3) [OF assms(3), of 6] and x4 = d_min_extension(2,3) [OF assms(3), of 4]
  have "?f * extension 6 idle \<le> 1000 * extension 6 idle" "?d * (D + extension 4 idle) \<le> 1000 * (D + extension 4 idle)"
    "?f * (D + extension 6 idle) \<le> 1000 * (D + extension 6 idle)" "?d * (D + 4) \<le> 1000 * (D + 4)"
    "?f * (D + 6) \<le> 1000 * (D + 6)" "?f * 6 \<le> 1000 * 6"
    using x6 x4 assms(2) by (intro le; simp)+
  then show ?thesis
    using x6 x4 by (cases s) (simp_all add: exact_cost_def Let_def)
qed

text \<open>A transfer of less than 400000 seconds costs less than 400014000 mJ in every state.\<close>

definition short_transfer :: "size_t \<Rightarrow> size_t \<Rightarrow> size_t \<Rightarrow> bool" where
  "short_transfer d bw rtt \<longleftrightarrow> transfer_ok d bw rtt
     \<and> uint d + 52 \<le> 200000 * uint bw \<and> uint rtt \<le> 200000000"

lemma short_cost:
  assumes "power_model pm" "short_transfer d bw rtt" "queues_ok q a" "Fin 0 \<le> idle"
  shows "\<exists>n. estimate_mobile_energy_cost_from_state b pm s idle q a d bw rtt = Ok n \<and> 0 \<le> n \<and> n \<le> 400014000"
proof -
  have t: "transfer_ok d bw rtt" "uint d + 52 \<le> 200000 * uint bw" "uint rtt \<le> 200000000" "1 \<le> uint bw"
    using assms(2) by (simp_all add: short_transfer_def transfer_ok_def)
  obtain n D where n: "estimate_mobile_energy_cost_from_state b pm s idle q a d bw rtt = Ok n" "0 \<le> n" "0 \<le> D"
    "\<bar>of_int n - exact_cost pm s (state_during b pm (uint d + 52) s q a) D idle\<bar> \<le> 5 / 2"
    "\<bar>D - exact_seconds (uint d + 52) (uint bw) (uint rtt)\<bar> \<le> 3 / 2 ^ 30"
    using mobile_cost_Ok [OF assms(1) t(1) assms(3,4), of b s] by auto
  have "(of_int (uint d + 52) :: rat) \<le> of_int (200000 * uint bw)" using t(2) by (simp only: of_int_le_iff)
  then have "of_int (uint d + 52) / of_int (uint bw) \<le> (200000 :: rat)"
    using of_int_positive [OF t(4)] by (simp add: divide_le_eq)
  moreover have "(of_int (uint rtt) :: rat) \<le> of_int 200000000" using t(3) by (simp only: of_int_le_iff)
  ultimately have "exact_seconds (uint d + 52) (uint bw) (uint rtt) \<le> 400000" by (simp add: exact_seconds_def)
  moreover have "3 / 2 ^ 30 \<le> (1 :: rat)" by simp
  ultimately have "D \<le> 400001" using abs_le_D1 [OF n(5)] by linarith
  moreover have "(of_int n :: rat) \<le> 1000 * (D + 10) + 5 / 2"
    using abs_le_D1 [OF n(4)]
      exact_cost_range [OF assms(1) n(3) assms(4), of s "state_during b pm (uint d + 52) s q a"] by linarith
  ultimately have "(of_int n :: rat) \<le> 400014000" by simp
  then have "n \<le> 400014000" by simp
  then show ?thesis using n(1,2) by blast
qed

subsection \<open>A weighted sum in floating point\<close>

lemma weighted_term:
  assumes "0 \<le> acc" "acc \<le> 2 ^ 31" "0 \<le> w" "w \<le> 1" "0 \<le> c" "c < 2 ^ 31"
  shows "\<exists>r. Fin acc + Fin w * d_of_int c = Fin r \<and> 0 \<le> r \<and> \<bar>r - (acc + w * of_int c)\<bar> \<le> 1 / 2 ^ 19"
proof -
  have big: "(2 :: rat) ^ 33 \<le> 2 ^ 1023" by (rule power_increasing) simp_all
  have c: "d_of_int c = Fin (of_int c)" "0 \<le> (of_int c :: rat)" "(of_int c :: rat) \<le> 2 ^ 31"
    using assms(5,6) of_int_le_power_mono [of c 31] by (auto intro!: d_of_int_Fin)
  then have x: "0 \<le> w * of_int c" "w * of_int c \<le> 2 ^ 31"
    using assms(3,4) mult_mono [of w 1 "of_int c" "2 ^ 31"] by simp_all
  let ?y = "round64 (w * of_int c)"
  have y: "to_double (w * of_int c) = Fin ?y" "0 \<le> ?y" "\<bar>?y - w * of_int c\<bar> \<le> 2 ^ 31 / 2 ^ 53"
    using x big round64_error_at [OF x] by (auto intro!: to_double_Fin round64_nonneg)
  have "2 ^ 31 / 2 ^ 53 \<le> (1 :: rat)" "(2 :: rat) ^ 31 + 2 ^ 31 + 1 \<le> 2 ^ 33" by simp_all
  then have z: "0 \<le> acc + ?y" "acc + ?y \<le> 2 ^ 33" using assms(1,2) x(2) y(2) abs_le_D1 [OF y(3)] by linarith+
  have r: "to_double (acc + ?y) = Fin (round64 (acc + ?y))" "0 \<le> round64 (acc + ?y)"
    "\<bar>round64 (acc + ?y) - (acc + ?y)\<bar> \<le> 2 ^ 33 / 2 ^ 53"
    using round64_error_at [OF z] to_double_Fin [OF z(1) order_trans [OF z(2) big]] round64_nonneg [OF z(1)]
    by simp_all
  have "2 ^ 31 / 2 ^ 53 + 2 ^ 33 / 2 ^ 53 \<le> (1 / 2 ^ 19 :: rat)" by simp
  then have "\<bar>round64 (acc + ?y) - (acc + w * of_int c)\<bar> \<le> 1 / 2 ^ 19"
    using r(3) y(3) unfolding abs_le_iff by linarith
  then show ?thesis using r(1,2) y(1) c(1) by (intro exI [of _ "round64 (acc + ?y)"]) simp
qed

lemma int_near:
  assumes "0 \<le> r" "r \<le> 2 ^ 31 - 1"
  shows "\<exists>n. d_to_int (Fin r) = Ok n \<and> 0 \<le> n \<and> \<bar>of_int n - r\<bar> < 1"
proof -
  have f: "0 \<le> \<lfloor>r\<rfloor>" "\<lfloor>r\<rfloor> \<le> \<lceil>r\<rceil>" "\<lceil>r\<rceil> \<le> 2 ^ 31 - 1"
    using assms by (simp_all add: le_floor_iff ceiling_le_iff floor_le_ceiling)
  then have "in_int \<lfloor>r\<rfloor>" "in_int \<lceil>r\<rceil>" by (auto simp: in_int_def)
  then obtain n where n: "d_to_int (Fin r) = Ok n" "\<lfloor>r\<rfloor> \<le> n" "n \<le> \<lceil>r\<rceil>"
    using d_to_int_between [of "\<lfloor>r\<rfloor>" "Fin r" "\<lceil>r\<rceil>"] by (auto simp del: d_to_int.simps)
  then have "of_int \<lfloor>r\<rfloor> \<le> (of_int n :: rat)" "(of_int n :: rat) \<le> of_int \<lceil>r\<rceil>"
    by (simp_all only: of_int_le_iff)
  then have "\<bar>of_int n - r\<bar> < 1" by linarith
  then show ?thesis using n f(1) by auto
qed

subsection \<open>The average\<close>

lemma average_Ok:
  assumes "power_model pm" "steady e" "mobile_inv (tv_us (clock e k)) (lib_mobile s)"
    and "\<forall>st. idle_duration_update_counts (lib_mobile s) st < 2 ^ 31" "short_transfer d bw rtt"
  shows "\<exists>c w n. (\<forall>st. estimate_mobile_energy_cost_from_state b pm st
        (average_idle_duration_for_state st (lib_mobile s)) 0 0 d bw rtt = Ok (c st) \<and> 0 \<le> c st)
    \<and> (\<forall>st. time_fraction_in_state e st (lib_mobile s) (k + nat (int_of_state st))
          = Ok (Fin (w st), k + nat (int_of_state st) + 1) \<and> 0 \<le> w st \<and> w st \<le> 1)
    \<and> estimate_mobile_energy_cost_average b pm e d bw rtt s k = Ok (n, k + 3) \<and> 0 \<le> n
    \<and> \<bar>of_int n - (w MOBILE_POWER_STATE_IDLE * of_int (c MOBILE_POWER_STATE_IDLE)
        + w MOBILE_POWER_STATE_FACH * of_int (c MOBILE_POWER_STATE_FACH)
        + w MOBILE_POWER_STATE_DCH * of_int (c MOBILE_POWER_STATE_DCH))\<bar> < 2"
proof -
  let ?m = "lib_mobile s"
  have q: "queues_ok 0 0" by simp
  have "\<exists>n. estimate_mobile_energy_cost_from_state b pm st (average_idle_duration_for_state st ?m) 0 0 d bw rtt = Ok n
      \<and> 0 \<le> n \<and> n \<le> 400014000" for st
    using short_cost [OF assms(1,5) q average_idle_nonneg [OF assms(3)]] assms(4) by blast
  then obtain c where c: "\<And>st. estimate_mobile_energy_cost_from_state b pm st
      (average_idle_duration_for_state st ?m) 0 0 d bw rtt = Ok (c st)" "\<And>st. 0 \<le> c st" "\<And>st. c st \<le> 400014000"
    by metis
  have inv: "mobile_inv (tv_us (clock e (k + i))) ?m" for i
    using mobile_inv_mono [OF assms(3) steady_mono [OF assms(2)]] by simp
  have "\<exists>q. time_fraction_in_state e st ?m (k + nat (int_of_state st)) = Ok (Fin q, k + nat (int_of_state st) + 1)
      \<and> 0 \<le> q \<and> q \<le> 1" for st
    using time_fraction_Ok [OF assms(2) inv] by simp
  then obtain w where w: "\<And>st. time_fraction_in_state e st ?m (k + nat (int_of_state st))
      = Ok (Fin (w st), k + nat (int_of_state st) + 1)" "\<And>st. 0 \<le> w st" "\<And>st. w st \<le> 1" by metis
  let ?I = MOBILE_POWER_STATE_IDLE and ?F = MOBILE_POWER_STATE_FACH and ?D = MOBILE_POWER_STATE_DCH
  have small: "c st < 2 ^ 31" "(of_int (c st) :: rat) \<le> 400014000" for st
    using c(3) [of st] by (simp, metis of_int_le_iff of_int_numeral)
  have part: "0 \<le> w st * of_int (c st)" "w st * of_int (c st) \<le> 400014000" for st
    using w(2,3) [of st] c(2) [of st] small(2) [of st] mult_mono [of "w st" 1 "of_int (c st)" 400014000]
    by simp_all
  note add = weighted_term [OF _ _ w(2,3) c(2) small(1)]
  obtain r1 where r1: "Fin 0 + Fin (w ?I) * d_of_int (c ?I) = Fin r1" "0 \<le> r1"
      "\<bar>r1 - w ?I * of_int (c ?I)\<bar> \<le> 1 / 2 ^ 19"
    using add [of 0 ?I] by auto
  have tiny: "(1 / 2 ^ 19 :: rat) \<le> 1 / 4" by simp
  have "r1 \<le> 2 ^ 31" using abs_le_D1 [OF r1(3)] part(2) [of ?I] tiny by (simp add: algebra_simps)
  then obtain r2 where r2: "Fin r1 + Fin (w ?F) * d_of_int (c ?F) = Fin r2" "0 \<le> r2"
      "\<bar>r2 - (r1 + w ?F * of_int (c ?F))\<bar> \<le> 1 / 2 ^ 19"
    using add [OF r1(2), of ?F] by auto
  have "r2 \<le> 2 ^ 31"
    using abs_le_D1 [OF r1(3)] abs_le_D1 [OF r2(3)] part(2) [of ?I] part(2) [of ?F] tiny by (simp add: algebra_simps)
  then obtain r3 where r3: "Fin r2 + Fin (w ?D) * d_of_int (c ?D) = Fin r3" "0 \<le> r3"
      "\<bar>r3 - (r2 + w ?D * of_int (c ?D))\<bar> \<le> 1 / 2 ^ 19"
    using add [OF r2(2), of ?D] by auto
  have "r3 \<le> 2 ^ 31 - 1"
    using abs_le_D1 [OF r1(3)] abs_le_D1 [OF r2(3)] abs_le_D1 [OF r3(3)] part(2) [of ?I] part(2) [of ?F]
      part(2) [of ?D] tiny by (simp add: algebra_simps)
  from int_near [OF r3(2) this] obtain n where n: "d_to_int (Fin r3) = Ok n" "0 \<le> n" "\<bar>of_int n - r3\<bar> < 1"
    by blast
  have "\<bar>of_int n - (w ?I * of_int (c ?I) + w ?F * of_int (c ?F) + w ?D * of_int (c ?D))\<bar> < 2"
    using n(3) r1(3) r2(3) r3(3) tiny unfolding abs_le_iff abs_less_iff by linarith
  moreover have "estimate_mobile_energy_cost_average b pm e d bw rtt s k = Ok (n, k + 3)"
    using w(1) [of ?I] w(1) [of ?F] w(1) [of ?D] r1(1) r2(1) r3(1) n(1)
    by (simp add: estimate_mobile_energy_cost_average_def mobile_states_def c(1) Let_def
        del: d_to_int.simps plus_double.simps times_double.simps)
  ultimately show ?thesis using c(1,2) w n(2) by blast
qed

text \<open>
  C18: for a transfer whose data take at most 200000 seconds and whose round trip takes at most
  200000 seconds (\<open>short_transfer\<close>) the average estimate returns, is not
  negative, and is within two millijoules of the weighted sum: the costs from each state with empty
  queues and that state's average idle time, and the fractions of time in the states, each
  measured when the loop reaches its state.
\<close>

theorem average_estimate:
  assumes "power_model pm" "steady e" "mobile_inv (tv_us (clock e k)) (lib_mobile s)"
    and "\<forall>st. idle_duration_update_counts (lib_mobile s) st < 2 ^ 31" "short_transfer d bw rtt"
  shows "\<exists>c w n. (\<forall>st. estimate_mobile_energy_cost_from_state b pm st
        (average_idle_duration_for_state st (lib_mobile s)) 0 0 d bw rtt = Ok (c st) \<and> 0 \<le> c st)
    \<and> (\<forall>st. time_fraction_in_state e st (lib_mobile s) (k + nat (int_of_state st))
          = Ok (Fin (w st), k + nat (int_of_state st) + 1) \<and> 0 \<le> w st \<and> w st \<le> 1)
    \<and> estimate_mobile_energy_cost_average b pm e d bw rtt s k = Ok (n, k + 3) \<and> 0 \<le> n
    \<and> \<bar>of_int n - (w MOBILE_POWER_STATE_IDLE * of_int (c MOBILE_POWER_STATE_IDLE)
        + w MOBILE_POWER_STATE_FACH * of_int (c MOBILE_POWER_STATE_FACH)
        + w MOBILE_POWER_STATE_DCH * of_int (c MOBILE_POWER_STATE_DCH))\<bar> < 2"
  by (rule average_Ok [OF assms])

lemma average_estimate_witness:
  "\<exists>n. estimate_mobile_energy_cost_average Handset_build nexus_one (ticking 2) 1000 10000 100
     \<lparr>lib_mobile = sampled_once, lib_remote = remote_vars_init, lib_wifi = wifi_vars_init, lib_mocked = (\<lambda>_. None)\<rparr> 1
     = Ok (n, 4) \<and> 0 \<le> n"
proof -
  let ?s = "\<lparr>lib_mobile = sampled_once, lib_remote = remote_vars_init, lib_wifi = wifi_vars_init,
    lib_mocked = (\<lambda>_. None)\<rparr>"
  have "mobile_inv (tv_us (clock (ticking 2) 1)) (lib_mobile ?s)" by (simp add: tv_us_def)
  moreover have "short_transfer 1000 10000 100" by (simp add: short_transfer_def)
  ultimately show ?thesis
    using average_estimate [of nexus_one "ticking 2" 1 ?s 1000 10000 100 Handset_build] by (auto simp: eval_nat_numeral)
qed

end
