(* ===== verification/Jni.thy ===== *)
theory Jni
  imports Average Consumption
begin

text \<open>
  \<^verbatim>\<open>jni_wrappers.cpp\<close>: what Java calls, without the prefix
  \<^verbatim>\<open>Java_edu_umich_libpowertutor_EnergyEstimates_\<close> of its names. A \<^verbatim>\<open>jint\<close> that becomes a
  \<^verbatim>\<open>size_t\<close> is taken modulo \<open>2 ^ 64\<close>, so a negative argument is a huge one.
\<close>

text \<open>
  \<open>EnergyComponent(component)\<close> and the index it is used for: 3 is the enumerator
  \<^verbatim>\<open>NUM_ENERGY_COMPONENTS\<close>, behind the end of the array.
\<close>

definition EnergyComponent_of_int :: "int \<Rightarrow> EnergyComponent result" where
  "EnergyComponent_of_int n =
     (if n = 0 then Ok CPU else if n = 1 then Ok NETWORKING else if n = 2 then Ok ALL_ENERGY_COMPONENTS
      else if n = 3 then Fault Out_of_bounds else Fault Bad_enum)"

definition estimateMobileEnergyCost ::
  "build \<Rightarrow> PowerModel \<Rightarrow> env \<Rightarrow> int \<Rightarrow> int \<Rightarrow> int \<Rightarrow> 'a library_scheme \<Rightarrow> nat
   \<Rightarrow> (int \<times> 'a library_scheme \<times> nat) result" where
  "estimateMobileEnergyCost b pm e datalen bandwidth rtt_ms s k =
     estimate_mobile_energy_cost b pm e (size_of_int datalen) (size_of_int bandwidth) (size_of_int rtt_ms) s k"

definition estimateMobileEnergyCostAverage ::
  "build \<Rightarrow> PowerModel \<Rightarrow> env \<Rightarrow> int \<Rightarrow> int \<Rightarrow> int \<Rightarrow> 'a library_scheme \<Rightarrow> nat \<Rightarrow> (int \<times> nat) result" where
  "estimateMobileEnergyCostAverage b pm e datalen avg_bandwidth avg_rtt_ms s k =
     estimate_mobile_energy_cost_average b pm e (size_of_int datalen) (size_of_int avg_bandwidth)
       (size_of_int avg_rtt_ms) s k"

definition estimateWifiEnergyCost ::
  "build \<Rightarrow> PowerModel \<Rightarrow> env \<Rightarrow> int \<Rightarrow> int \<Rightarrow> int \<Rightarrow> 'a library_scheme \<Rightarrow> nat
   \<Rightarrow> (int \<times> 'a library_scheme \<times> nat) result" where
  "estimateWifiEnergyCost b pm e datalen bandwidth rtt_ms s k =
     estimate_wifi_energy_cost b pm e (size_of_int datalen) (size_of_int bandwidth) (size_of_int rtt_ms) s k"

definition energyConsumedSinceReset :: "int \<Rightarrow> stats_vars \<Rightarrow> int result" where
  "energyConsumedSinceReset component st =
     bind_r (EnergyComponent_of_int component) (\<lambda>c. energy_consumed_since_reset_by_component c st)"

definition averagePowerConsumptionSinceReset :: "env \<Rightarrow> int \<Rightarrow> stats_vars \<Rightarrow> nat \<Rightarrow> (int \<times> nat) result" where
  "averagePowerConsumptionSinceReset e component st k =
     bind_r (EnergyComponent_of_int component)
       (\<lambda>c. average_power_consumption_since_reset_by_component e c st k)"

lemma uint_size_of_int: "in_int n \<Longrightarrow> uint (size_of_int n) = (if 0 \<le> n then n else 2 ^ 64 + n)"
proof -
  assume n: "in_int n"
  have "uint (size_of_int n) = n mod 2 ^ 64"
    by (simp add: size_of_int_def uint_word_of_int)
  moreover have "n mod 2 ^ 64 = (n + 2 ^ 64) mod 2 ^ 64" by (rule mod_add_self2 [symmetric])
  ultimately show ?thesis
    using n mod_pos_pos_trivial [of n "2 ^ 64"] mod_pos_pos_trivial [of "n + 2 ^ 64" "2 ^ 64"]
    by (cases "0 \<le> n") (simp_all add: in_int_def)
qed

end
