(* ===== verification/Debug.thy ===== *)
theory Debug
  imports Net_Dev Locks
begin

text \<open>
  The log of builds with \<open>LOGGING_ENABLED\<close>: \<^verbatim>\<open>debug.cpp\<close>, and \<open>logPrint\<close> of
  \<^verbatim>\<open>libpowertutor.cpp\<close>. A line is a prefix and the caller's format in one string, which is given to
  \<open>vfprintf\<close>; so the prefix is itself read as a format. How a single conversion prints its argument is a
  parameter, as are the answers of the system; \<open>pthread_self\<close> is the \<open>unsigned long\<close> of a thread.
\<close>

subsection \<open>Formats\<close>

text \<open>
  \<open>vfprintf\<close>: text is copied, \<open>%%\<close> is a percent sign, and every other conversion, from its percent sign to
  its letter, takes the next argument. A conversion without an argument or without its letter is
  undefined behaviour.
\<close>

definition in_conversion :: "char \<Rightarrow> bool" where
  "in_conversion c \<longleftrightarrow> c \<in> set ''-+ #0123456789.hlLjzt''"

function vfprintf :: "(string \<Rightarrow> 'a \<Rightarrow> string) \<Rightarrow> string \<Rightarrow> 'a list \<Rightarrow> string result" where
  "vfprintf conv [] args = Ok []"
| "vfprintf conv (c # s) args =
     (if c \<noteq> CHR ''%'' then bind_r (vfprintf conv s args) (\<lambda>out. Ok (c # out))
      else case dropWhile in_conversion s of
        [] \<Rightarrow> Fault Out_of_bounds
      | letter # s' \<Rightarrow>
          if letter = CHR ''%'' then bind_r (vfprintf conv s' args) (\<lambda>out. Ok (CHR ''%'' # out))
          else case args of
            [] \<Rightarrow> Fault Out_of_bounds
          | a # args' \<Rightarrow>
              bind_r (vfprintf conv s' args') (\<lambda>out.
              Ok (conv (takeWhile in_conversion s @ [letter]) a @ out)))"
  by pat_completeness auto
termination
proof (relation "measure (\<lambda>(conv, s, args). length s)", goal_cases)
  case (3 conv c s args letter s')
  then show ?case using length_dropWhile_le [of in_conversion s] by simp
next
  case (4 conv c s args letter s')
  then show ?case using length_dropWhile_le [of in_conversion s] by simp
qed simp_all

lemma vfprintf_plain:
  "CHR ''%'' \<notin> set prefix \<Longrightarrow>
    vfprintf conv (prefix @ s) args = bind_r (vfprintf conv s args) (\<lambda>out. Ok (prefix @ out))"
proof (induction prefix)
  case Nil
  show ?case by (cases "vfprintf conv s args") simp_all
next
  case (Cons c cs)
  then show ?case by (auto simp: bind_r_assoc)
qed

text \<open>Decimal numbers of any sign; \<open>setw\<close> and \<open>%0\<close> with a width pad with zeros on the left.\<close>

definition print_int :: "int \<Rightarrow> string" where
  "print_int i = (if i < 0 then CHR ''-'' # print_nat (nat (- i)) else print_nat (nat i))"

definition zero_padded :: "nat \<Rightarrow> string \<Rightarrow> string" where
  "zero_padded w s = replicate (w - length s) CHR ''0'' @ s"

definition hex_digits :: string where
  "hex_digits = ''0123456789abcdef''"

fun print_hex :: "nat \<Rightarrow> string" where
  "print_hex n = (if n < 16 then [hex_digits ! n] else print_hex (n div 16) @ [hex_digits ! (n mod 16)])"

declare print_hex.simps [simp del]

subsection \<open>The names of the threads\<close>

text \<open>
  What the library keeps for its log: the key once it is made, and under it the name of each thread that
  has one. \<open>delete_name_string\<close> is the key's destructor, which runs when a thread with a name ends. The
  log file and the output for errors are what has been written to them.
\<close>

record debug_vars =
  key_once_done :: bool
  thread_name_key :: "thread \<Rightarrow> string option"
  log_file :: string
  error_log :: string

definition debug_vars_init :: debug_vars where
  "debug_vars_init = \<lparr>key_once_done = False, thread_name_key = (\<lambda>_. None), log_file = [], error_log = []\<rparr>"

definition make_key :: "thread \<Rightarrow> debug_vars \<Rightarrow> debug_vars" where
  "make_key t d = d\<lparr>key_once_done := True, thread_name_key := (\<lambda>_. None)(t := None)\<rparr>"

definition delete_name_string :: "thread \<Rightarrow> debug_vars \<Rightarrow> debug_vars" where
  "delete_name_string t d = d\<lparr>thread_name_key := (thread_name_key d)(t := None)\<rparr>"

text \<open>\<open>sprintf\<close> writes the digits and a terminator into 12 characters.\<close>

definition name_size :: nat where
  "name_size = 12"

definition get_thread_name :: "(thread \<Rightarrow> nat) \<Rightarrow> thread \<Rightarrow> debug_vars \<Rightarrow> (string \<times> debug_vars) result" where
  "get_thread_name pthread_self t d =
     (let d = (if key_once_done d then d else make_key t d) in
      case thread_name_key d t of
        Some name_str \<Rightarrow> Ok (name_str, d)
      | None \<Rightarrow>
          let name = zero_padded 8 (print_hex (pthread_self t)) in
          if length name + 1 \<le> name_size
          then Ok (name, d\<lparr>thread_name_key := (thread_name_key d)(t := Some name)\<rparr>)
          else Fault Out_of_bounds)"

subsection \<open>A line of the log\<close>

text \<open>
  The answers of the system: the log file opens, or \<open>fopen\<close> fails with an \<open>errno\<close>. \<open>unit_testing\<close> says that the
  build defines \<^verbatim>\<open>CMM_UNIT_TESTING\<close>, where a constant stands for the thread's name.
\<close>

record debug_calls =
  unit_testing :: bool
  pthread_self :: "thread \<Rightarrow> nat"
  getpid :: nat
  fopen_errno :: "int option"
  strerror :: "int \<Rightarrow> string"

definition debug_prefix :: "timeval \<Rightarrow> nat \<Rightarrow> string \<Rightarrow> string" where
  "debug_prefix now pid name =
     ''['' @ print_int (tv_sec now) @ ''.'' @ zero_padded 6 (print_int (tv_usec now)) @ '']''
     @ ''['' @ print_nat pid @ '']'' @ ''['' @ name @ ''] ''"

definition open_failed :: string where
  "open_failed = ''Failed opening libpowertutor log file: ''"

text \<open>
  The time is \<open>gettimeofday\<close>, not the mocked one. A simulation writes nothing, but has made the prefix.
\<close>

definition vdbgprintf ::
  "build \<Rightarrow> debug_calls \<Rightarrow> (string \<Rightarrow> 'a \<Rightarrow> string) \<Rightarrow> bool \<Rightarrow> string \<Rightarrow> 'a list \<Rightarrow> timeval \<Rightarrow> thread
   \<Rightarrow> debug_vars \<Rightarrow> debug_vars result" where
  "vdbgprintf b calls conv plain fmt ap now t d =
     bind_r
       (if \<not> plain then
          bind_r (if unit_testing calls then Ok (''(unit testing)'', d)
                  else get_thread_name (pthread_self calls) t d) (\<lambda>(name, d).
          Ok (debug_prefix now (getpid calls) name, d))
        else Ok ([], d)) (\<lambda>(stream, d).
     let fmtstr = stream @ fmt in
     if b = Simulation_build then Ok d
     else case fopen_errno calls of
       None \<Rightarrow> bind_r (vfprintf conv fmtstr ap) (\<lambda>out. Ok (d\<lparr>log_file := log_file d @ out\<rparr>))
     | Some err \<Rightarrow>
         let fmtstr = open_failed @ strerror calls err @ '' ** '' @ fmtstr in
         bind_r (vfprintf conv fmtstr ap) (\<lambda>out. Ok (d\<lparr>error_log := error_log d @ out\<rparr>)))"

definition dbgprintf ::
  "build \<Rightarrow> debug_calls \<Rightarrow> (string \<Rightarrow> 'a \<Rightarrow> string) \<Rightarrow> string \<Rightarrow> 'a list \<Rightarrow> timeval \<Rightarrow> thread
   \<Rightarrow> debug_vars \<Rightarrow> debug_vars result" where
  "dbgprintf b calls conv fmt ap now t d = vdbgprintf b calls conv False fmt ap now t d"

text \<open>
  \<open>logPrint\<close>: the milliseconds of the mocked time and the caller's format, in a file of its own; nothing
  when it does not open. The result is what is written and the clock position.
\<close>

definition logPrint ::
  "(string \<Rightarrow> 'a \<Rightarrow> string) \<Rightarrow> bool \<Rightarrow> env \<Rightarrow> string \<Rightarrow> 'a list \<Rightarrow> nat \<Rightarrow> (string \<times> nat) result" where
  "logPrint conv opens e fmt ap k =
     (if opens then
        let now = clock e k; k = Suc k in
        bind_r (c_long (tv_sec now * 1000)) (\<lambda>a.
        bind_r (c_long (a + c_div (tv_usec now) 1000)) (\<lambda>ms.
        bind_r (vfprintf conv (print_int ms @ '' '' @ fmt) ap) (\<lambda>out. Ok (out, k))))
      else Ok ([], k))"

subsection \<open>Hexadecimal numbers\<close>

definition hex_digit_value :: "char \<Rightarrow> nat" where
  "hex_digit_value c = (if of_char c < (58 :: nat) then of_char c - 48 else of_char c - 87)"

definition hex_value :: "string \<Rightarrow> nat" where
  "hex_value s = foldl (\<lambda>n c. 16 * n + hex_digit_value c) 0 s"

lemma hex_value_snoc: "hex_value (s @ [c]) = 16 * hex_value s + hex_digit_value c"
  by (simp add: hex_value_def)

lemma hex_digit_ok:
  assumes "d < 16"
  shows "hex_digit_value (hex_digits ! d) = d \<and> hex_digits ! d \<noteq> CHR ''%''"
proof -
  have "\<forall>d \<in> set [0..<16]. hex_digit_value (hex_digits ! d) = d \<and> hex_digits ! d \<noteq> CHR ''%''"
    by code_simp
  then show ?thesis using assms by simp
qed

lemma hex_value_print: "hex_value (print_hex n) = n"
proof (induction n rule: print_hex.induct)
  case (1 n)
  show ?case
    using 1 hex_digit_ok [of n] hex_digit_ok [of "n mod 16"]
    by (subst print_hex.simps) (simp add: hex_value_snoc, simp add: hex_value_def)
qed

lemma print_hex_no_percent: "CHR ''%'' \<notin> set (print_hex n)"
proof (induction n rule: print_hex.induct)
  case (1 n)
  show ?case
    using 1 hex_digit_ok [of n] hex_digit_ok [of "n mod 16"]
    by (subst print_hex.simps) auto
qed

lemma print_hex_length: "length (print_hex n) \<le> Suc w \<longleftrightarrow> n < 16 ^ Suc w"
proof (induction n arbitrary: w rule: print_hex.induct)
  case (1 n)
  show ?case
  proof (cases "n < 16")
    case True
    have "(16 :: nat) \<le> 16 ^ Suc w" by simp
    with True have "n < 16 ^ Suc w" by linarith
    then show ?thesis using True by (simp add: print_hex.simps [of n])
  next
    case False
    show ?thesis
    proof (cases w)
      case 0
      have "print_hex (n div 16) \<noteq> []" by (subst print_hex.simps) simp
      then show ?thesis using False 0 by (simp add: print_hex.simps [of n])
    next
      case (Suc v)
      have "n div 16 < 16 ^ Suc v \<longleftrightarrow> n < 16 ^ Suc v * 16" by (rule div_less_iff_less_mult) simp
      then show ?thesis using False 1 [OF False, of v] Suc by (simp add: print_hex.simps [of n] mult.commute)
    qed
  qed
qed

lemma hex_value_padded: "hex_value (zero_padded w s) = hex_value s"
proof -
  have "foldl (\<lambda>n c. 16 * n + hex_digit_value c) 0 (replicate v CHR ''0'' @ s) = hex_value s" for v
    by (induction v) (simp_all add: hex_value_def hex_digit_value_def)
  then show ?thesis by (simp add: zero_padded_def hex_value_def)
qed

lemma zero_padded_length [simp]: "length (zero_padded w s) = max w (length s)"
  by (simp add: zero_padded_def)

lemma zero_padded_chars: "c \<in> set (zero_padded w s) \<Longrightarrow> c = CHR ''0'' \<or> c \<in> set s"
  by (auto simp: zero_padded_def split: if_splits)

lemma print_nat_no_percent [simp]: "CHR ''%'' \<notin> set (print_nat n)"
proof
  assume "CHR ''%'' \<in> set (print_nat n)"
  then obtain d where "d < 10" "CHR ''%'' = print_digit d" using print_nat_chars by blast
  then have "isdigit CHR ''%''" using print_digit_ok(1) by metis
  then show False by (simp add: isdigit_def)
qed

lemma print_int_no_percent [simp]: "CHR ''%'' \<notin> set (print_int i)"
  by (simp add: print_int_def)

subsection \<open>The name of a thread\<close>

definition thread_name :: "nat \<Rightarrow> string" where
  "thread_name self = zero_padded 8 (print_hex self)"

lemma thread_name_value: "hex_value (thread_name self) = self"
  by (simp add: thread_name_def hex_value_padded hex_value_print)

lemma thread_name_no_percent: "CHR ''%'' \<notin> set (thread_name self)"
  using print_hex_no_percent by (auto simp: thread_name_def dest: zero_padded_chars)

lemma thread_name_fits: "length (thread_name self) + 1 \<le> name_size \<longleftrightarrow> self < 16 ^ 11"
  using print_hex_length [of self 10] by (simp add: thread_name_def name_size_def)

text \<open>The names that are kept are those of their threads, and each fits its array.\<close>

definition names_ok :: "(thread \<Rightarrow> nat) \<Rightarrow> debug_vars \<Rightarrow> bool" where
  "names_ok self d \<longleftrightarrow> (\<forall>t name. thread_name_key d t = Some name
     \<longrightarrow> key_once_done d \<and> name = thread_name (self t) \<and> self t < 16 ^ 11)"

lemma names_ok_init: "names_ok self debug_vars_init"
  by (simp add: names_ok_def debug_vars_init_def)

lemma names_ok_delete: "names_ok self d \<Longrightarrow> names_ok self (delete_name_string t d)"
  by (simp add: names_ok_def delete_name_string_def)

definition named :: "(thread \<Rightarrow> nat) \<Rightarrow> thread \<Rightarrow> debug_vars \<Rightarrow> debug_vars" where
  "named self t d = d\<lparr>key_once_done := True,
     thread_name_key := (thread_name_key d)(t := Some (thread_name (self t)))\<rparr>"

lemma get_thread_name_cases:
  assumes "names_ok self d"
  shows "get_thread_name self t d =
    (if self t < 16 ^ 11 then Ok (thread_name (self t), named self t d) else Fault Out_of_bounds)"
proof (cases "thread_name_key d t")
  case None
  have "thread_name_key (if key_once_done d then d else make_key t d) = thread_name_key d"
    using assms by (auto simp: names_ok_def make_key_def fun_eq_iff)
  then have "(if key_once_done d then d else make_key t d) = d\<lparr>key_once_done := True\<rparr>"
    by (auto simp: make_key_def intro!: debug_vars.equality)
  then show ?thesis
    using None thread_name_fits [of "self t"]
    by (simp add: get_thread_name_def Let_def named_def flip: thread_name_def)
next
  case (Some name)
  then have n: "key_once_done d" "name = thread_name (self t)" "self t < 16 ^ 11"
    using assms by (auto simp: names_ok_def)
  have "(thread_name_key d)(t := Some name) = thread_name_key d" using Some by auto
  then have "named self t d = d" using n by (simp add: named_def)
  then show ?thesis using n Some by (simp add: get_thread_name_def Let_def)
qed

lemma names_ok_named: "names_ok self d \<Longrightarrow> self t < 16 ^ 11 \<Longrightarrow> names_ok self (named self t d)"
  by (auto simp: names_ok_def named_def)

lemma named_again [simp]: "named self t (named self t d) = named self t d"
  by (simp add: named_def)

subsection \<open>The prefix of a line\<close>

lemma debug_prefix_no_percent:
  assumes "CHR ''%'' \<notin> set name"
  shows "CHR ''%'' \<notin> set (debug_prefix now pid name)"
proof -
  have "CHR ''%'' \<notin> set (zero_padded 6 (print_int (tv_usec now)))"
    using zero_padded_chars [of "CHR ''%''" 6 "print_int (tv_usec now)"] by auto
  then show ?thesis using assms by (simp add: debug_prefix_def)
qed

lemma print_nat_length: "n < 10 ^ Suc w \<Longrightarrow> length (print_nat n) \<le> Suc w"
proof (induction n arbitrary: w rule: print_nat.induct)
  case (1 n)
  show ?case
  proof (cases "n < 10 \<or> w = 0")
    case True
    then show ?thesis using 1(2) by (auto simp: print_nat.simps [of n])
  next
    case False
    then obtain v where v: "w = Suc v" by (cases w) auto
    have "n div 10 < 10 ^ Suc v" using 1(2) v by (simp add: div_less_iff_less_mult mult.commute)
    with 1(1) False have "length (print_nat (n div 10)) \<le> Suc v" by simp
    then show ?thesis using False v by (simp add: print_nat.simps [of n])
  qed
qed

lemma digits_value_padded: "digits_value (zero_padded w s) = digits_value s"
proof -
  have "foldl (\<lambda>n c. 10 * n + digit_value c) 0 (replicate v CHR ''0'' @ s) = digits_value s" for v
    by (induction v) (simp_all add: digits_value_def digit_value_def)
  then show ?thesis by (simp add: zero_padded_def digits_value_def)
qed

text \<open>The microseconds are six digits.\<close>

lemma debug_microseconds:
  assumes "valid_tv now"
  shows "length (zero_padded 6 (print_int (tv_usec now))) = 6
    \<and> digits_value (zero_padded 6 (print_int (tv_usec now))) = tv_usec now"
proof -
  have us: "0 \<le> tv_usec now" "nat (tv_usec now) < 10 ^ Suc 5" using assms by (auto simp: valid_tv_def nat_less_iff)
  then have "length (print_int (tv_usec now)) \<le> 6"
    using print_nat_length [OF us(2)] by (simp add: print_int_def)
  moreover have "digits_value (print_int (tv_usec now)) = tv_usec now"
    using us(1) by (simp add: print_int_def digits_value_print)
  ultimately show ?thesis by (simp add: digits_value_padded)
qed

text \<open>\<open>logPrint\<close> writes the time in milliseconds and the caller's line.\<close>

lemma logPrint_line:
  assumes "steady e"
  shows "logPrint conv True e fmt ap k =
    bind_r (vfprintf conv fmt ap) (\<lambda>out.
    Ok (print_int (tv_us (clock e k) div 1000) @ '' '' @ out, Suc k))"
proof -
  have v: "0 \<le> tv_sec (clock e k)" "0 \<le> tv_usec (clock e k)" "tv_usec (clock e k) < 1000000"
    "tv_sec (clock e k) < 2 ^ 40"
    using steady_valid [OF assms, of k] by (simp_all add: valid_tv_def)
  then have "tv_us (clock e k) div 1000 = tv_sec (clock e k) * 1000 + tv_usec (clock e k) div 1000"
    by (simp add: tv_us_def)
  moreover have "0 \<le> tv_usec (clock e k) div 1000" "tv_usec (clock e k) div 1000 < 1000"
    using v by (simp_all add: pos_imp_zdiv_nonneg_iff)
  then have "in_long (tv_sec (clock e k) * 1000)"
    "in_long (tv_sec (clock e k) * 1000 + tv_usec (clock e k) div 1000)"
    using v by (simp_all add: in_long_def)
  moreover have "CHR ''%'' \<notin> set (print_int i @ '' '')" for i by simp
  moreover have "c_div (tv_usec (clock e k)) 1000 = tv_usec (clock e k) div 1000"
    using v(2) by (cases "tv_usec (clock e k) = 0") (simp_all add: c_div_def)
  ultimately show ?thesis
    using vfprintf_plain [of "print_int (tv_us (clock e k) div 1000) @ '' ''" conv fmt ap]
    by (simp add: logPrint_def Let_def bind_r_assoc c_long_def del: vfprintf.simps)
qed

subsection \<open>Properties\<close>

text \<open>
  C39: with the names that earlier calls have left, \<open>get_thread_name\<close> returns exactly for
  threads whose \<open>pthread_self\<close> has at most eleven hexadecimal digits, and writes behind its array
  otherwise, as for the twelve-digit addresses of a 64-bit Linux. The name has eight to eleven digits,
  its value is the thread's number, so that threads with different numbers have different names; the
  next call returns the same name and changes nothing, and no other thread's name moves.
\<close>

theorem thread_names:
  assumes "names_ok self d"
  shows "(get_thread_name self t d = Fault Out_of_bounds \<longleftrightarrow> 16 ^ 11 \<le> self t)
    \<and> (self t < 16 ^ 11 \<longrightarrow>
        (\<exists>name d'. get_thread_name self t d = Ok (name, d') \<and> names_ok self d'
          \<and> 8 \<le> length name \<and> length name \<le> 11 \<and> hex_value name = self t
          \<and> get_thread_name self t d' = Ok (name, d')
          \<and> (\<forall>u. u \<noteq> t \<longrightarrow> thread_name_key d' u = thread_name_key d u)
          \<and> (\<forall>u other. u \<noteq> t \<and> self u \<noteq> self t \<and> thread_name_key d' u = Some other \<longrightarrow> other \<noteq> name)))"
proof (intro conjI impI)
  show "get_thread_name self t d = Fault Out_of_bounds \<longleftrightarrow> 16 ^ 11 \<le> self t"
    by (simp add: get_thread_name_cases [OF assms])
next
  assume t: "self t < 16 ^ 11"
  let ?name = "thread_name (self t)" and ?d = "named self t d"
  have "names_ok self ?d" by (rule names_ok_named [OF assms t])
  moreover have "8 \<le> length ?name" by (simp add: thread_name_def)
  moreover have "length ?name \<le> 11" using thread_name_fits [of "self t"] t by (simp add: name_size_def)
  moreover have "other \<noteq> ?name" if "u \<noteq> t" "self u \<noteq> self t" "thread_name_key ?d u = Some other" for u other
  proof -
    have "other = thread_name (self u)" using assms that(1,3) by (simp add: names_ok_def named_def)
    then show ?thesis using that(2) thread_name_value by metis
  qed
  ultimately show "\<exists>name d'. get_thread_name self t d = Ok (name, d') \<and> names_ok self d'
      \<and> 8 \<le> length name \<and> length name \<le> 11 \<and> hex_value name = self t
      \<and> get_thread_name self t d' = Ok (name, d')
      \<and> (\<forall>u. u \<noteq> t \<longrightarrow> thread_name_key d' u = thread_name_key d u)
      \<and> (\<forall>u other. u \<noteq> t \<and> self u \<noteq> self t \<and> thread_name_key d' u = Some other \<longrightarrow> other \<noteq> name)"
    using t get_thread_name_cases [OF assms, of t] get_thread_name_cases [of self ?d t]
    by (intro exI [of _ ?name] exI [of _ ?d]) (auto simp: thread_name_value named_def)
qed

text \<open>A thread of a 64-bit server, and one of a 32-bit handset.\<close>

lemma thread_names_witness:
  "get_thread_name (\<lambda>_. 0x7f2a40c01700) 0 debug_vars_init = Fault Out_of_bounds
    \<and> (\<exists>name d. get_thread_name (\<lambda>_. 0x40012b50) 0 debug_vars_init = Ok (name, d) \<and> hex_value name = 0x40012b50)"
  using thread_names [OF names_ok_init, of "\<lambda>_. 0x7f2a40c01700" 0]
    thread_names [OF names_ok_init, of "\<lambda>_. 0x40012b50" 0]
  by auto

text \<open>
  What the library puts before the caller's format takes none of the caller's
  arguments, whatever the time, the process and the thread: \<open>dbgprintf\<close> prints the caller's format with
  the caller's arguments, after the prefix, in the log file; when the file does not open, after the
  reason too, in the output for errors. A simulation prints nothing. A format that does not fit its
  arguments is undefined behaviour in the same cases as without the prefix. With \<^verbatim>\<open>CMM_UNIT_TESTING\<close> the prefix has
  a constant for the thread, and no name is made.
\<close>

theorem debug_line:
  assumes "names_ok (pthread_self calls) d" "pthread_self calls t < 16 ^ 11"
    and "\<forall>err. CHR ''%'' \<notin> set (strerror calls err)"
  shows "dbgprintf b calls conv fmt ap now t d =
    (let name = if unit_testing calls then ''(unit testing)'' else thread_name (pthread_self calls t);
         d' = if unit_testing calls then d else named (pthread_self calls) t d;
         line = debug_prefix now (getpid calls) name in
     if b = Simulation_build then Ok d'
     else bind_r (vfprintf conv fmt ap) (\<lambda>out.
       case fopen_errno calls of
         None \<Rightarrow> Ok (d'\<lparr>log_file := log_file d @ line @ out\<rparr>)
       | Some err \<Rightarrow> Ok (d'\<lparr>error_log := error_log d @ open_failed @ strerror calls err @ '' ** '' @ line @ out\<rparr>)))"
proof -
  let ?line = "debug_prefix now (getpid calls)
      (if unit_testing calls then ''(unit testing)'' else thread_name (pthread_self calls t))"
  have line: "CHR ''%'' \<notin> set ?line"
    using debug_prefix_no_percent [OF thread_name_no_percent] by (simp add: debug_prefix_no_percent)
  then have fallback: "CHR ''%'' \<notin> set (open_failed @ strerror calls err @ '' ** '' @ ?line)" for err
    using assms(3) by (simp add: open_failed_def)
  show ?thesis
    using get_thread_name_cases [OF assms(1), of t] assms(2) vfprintf_plain [OF line, of conv fmt ap]
      vfprintf_plain [OF fallback, of conv _ fmt ap]
    by (cases "unit_testing calls") (simp_all add: dbgprintf_def vdbgprintf_def Let_def bind_r_assoc named_def
        del: vfprintf.simps split: option.splits)
qed

lemma debug_line_witness:
  "\<exists>d. dbgprintf Handset_build
      \<lparr>unit_testing = False, pthread_self = (\<lambda>_. 0x40012b50), getpid = 1234, fopen_errno = None, strerror = (\<lambda>_. ''error'')\<rparr>
      (\<lambda>_. print_nat) ''rate %d of %d%%'' [54, 100] \<lparr>tv_sec = 10, tv_usec = 42\<rparr> 0 debug_vars_init = Ok d
    \<and> log_file d = ''[10.000042][1234][40012b50] rate 54 of 100%''"
proof -
  let ?calls = "\<lparr>unit_testing = False, pthread_self = (\<lambda>_. 0x40012b50), getpid = 1234, fopen_errno = None, strerror = (\<lambda>_. ''error'')\<rparr>"
  have out: "vfprintf (\<lambda>_. print_nat) ''rate %d of %d%%'' [54, 100] = Ok ''rate 54 of 100%''" by code_simp
  have hex: "print_hex 0x40012b50 = ''40012b50''" by (simp add: print_hex.simps hex_digits_def)
  have dec: "print_nat 1234 = ''1234''" "print_nat 42 = ''42''" "print_nat 10 = ''10''" by code_simp+
  have "zero_padded 6 ''42'' = ''000042''" "zero_padded 8 ''40012b50'' = ''40012b50''" by code_simp+
  with hex dec have line: "debug_prefix \<lparr>tv_sec = 10, tv_usec = 42\<rparr> 1234 (thread_name 0x40012b50)
      = ''[10.000042][1234][40012b50] ''"
    by (simp add: debug_prefix_def thread_name_def print_int_def)
  show ?thesis
    using debug_line [of ?calls debug_vars_init 0 Handset_build "\<lambda>_. print_nat" "''rate %d of %d%%''" "[54, 100]"
        "\<lparr>tv_sec = 10, tv_usec = 42\<rparr>"] line
    by (simp add: names_ok_def out Let_def debug_vars_init_def named_def del: vfprintf.simps)
qed

end
