(* ===== verification/Spec2Isabelle.thy ===== *)
theory Spec2Isabelle
  imports Threads Server_Threads Handset_Threads Stats_Threads Mirror Lock_Order Lock_Queue Wifi_Service Utils Jni Debug
begin

text \<open>
  libpowertutor: a verification development.

  The library (\<^verbatim>\<open>src/cpp_source\<close>) estimates what a network transfer will cost in
  millijoules and accounts for the energy a phone has used. It is built in three ways, which the
  datatype \<open>build\<close> of \<open>Interface\<close> names: on the handset it samples the counters of the
  network interfaces every 100 ms and infers the state of the cellular radio; on a server it believes
  what the handset reports; the simulation is a handset whose counters the test program sets.

  How the parts work together. An update thread calls \<^verbatim>\<open>update_energy_stats\<close>, which
  on a handset samples the WiFi rates and the cellular radio, tells the registered callback about
  activity, and once a second charges the energy of a second; on a server it lets the reported radio
  state decay. The application asks for estimates, which read the state of the radio and the rates and
  compute with the constants of a phone, and for the consumption since the last reset.

  The theories, in the order of the imports (files under \<^verbatim>\<open>src/cpp_source\<close>):

  \<^item> \<open>Prelude\<close>, \<open>Doubles\<close>, \<open>Clock\<close>, \<open>Std_Map\<close>: what the model needs of C++:
    results and faults, the integers of an LP64 machine, the binary64 format with its rounding,
    the system clock, and \<^verbatim>\<open>std::map\<close>. \<open>Clock\<close> also holds the environment
    \<open>env\<close>: what the clock and the three files of the kernel show at each reading.
  \<^item> \<open>Timeops\<close>: \<^verbatim>\<open>timeops.h\<close> and \<^verbatim>\<open>timeops.cpp\<close>, against microseconds
    (\<open>tv_us\<close>).
  \<^item> \<open>Interface\<close>: the types of \<^verbatim>\<open>libpowertutor.h\<close> and the builds.
  \<^item> \<open>Power_Model\<close>: \<^verbatim>\<open>power_model.h\<close> and \<^verbatim>\<open>power_model.cpp\<close>; the predicate
    \<open>power_model\<close> says what the other parts use of a phone, and both phones satisfy it.
  \<^item> \<open>Radio\<close>: an abstract radio, three states and the timeouts between them, as a step
    relation; \<open>Mobile_State\<close> (\<^verbatim>\<open>update_mobile_state\<close>) and \<open>Remote\<close>
    (\<^verbatim>\<open>update_remote_power_model\<close>, \<^verbatim>\<open>report_remote_mobile_activity\<close>) implement it.
  \<^item> \<open>Net_Dev\<close>: the counters, from \<^verbatim>\<open>/proc/net/dev\<close> and simulated, behind one interface.
  \<^item> \<open>Wifi_Rates\<close>: \<^verbatim>\<open>update_wifi_estimated_rates\<close> and the quantities computed
    from the rates.
  \<^item> \<open>Cpu\<close>: utilization, frequency and energy of the CPU.
  \<^item> \<open>Estimate\<close>: the cost of a transfer, on the cellular network and on WiFi; \<open>Average\<close>: averaged
    over the states of the radio.
  \<^item> \<open>Consumption\<close>: \<^verbatim>\<open>update_consumption_stats\<close> and the functions that report.
  \<^item> \<open>Update\<close>: \<^verbatim>\<open>update_energy_stats\<close>, \<^verbatim>\<open>reset_stats\<close>, the update thread, the
    initialisation; \<open>Session\<close>: a handset followed over time; \<open>Server\<close>: a server likewise;
    \<open>Mirror\<close>: a handset and its server together, joined by the callback and its report.
  \<^item> \<open>Locks\<close>: the scoped lock of \<^verbatim>\<open>pthread_util.h\<close> and its \<^verbatim>\<open>LockWrappedMap\<close>;
    \<open>Lock_Queue\<close>: its \<^verbatim>\<open>LockWrappedQueue\<close> with threads interleaved; \<open>Threads\<close>: the
    update thread interleaved with \<^verbatim>\<open>libpowertutor_fin\<close>; \<open>Races\<close>: an update interrupted
    by a reset and a query interrupted by updates; \<open>Lock_Order\<close>: the lock programs of all functions, and why they do not deadlock.
  \<^item> \<open>Sections\<close>: threads that take one lock around the steps of their operations; \<open>Server_Threads\<close> and
    \<open>Handset_Threads\<close>: the functions under \<^verbatim>\<open>remote_power_state_lock\<close> and under \<^verbatim>\<open>mobile_state_lock\<close>, called
    by any number of threads; \<open>Stats_Threads\<close>: the functions on the consumption statistics, under
    \<^verbatim>\<open>stats_lock\<close> and outside it, likewise.
  \<^item> \<open>Supplicant\<close>: the connection to \<^verbatim>\<open>wpa_supplicant\<close> of \<^verbatim>\<open>wifi.cpp\<close>;
    \<open>Wifi_Service\<close>: what \<^verbatim>\<open>#if 0\<close> leaves out of the builds, as it would run; \<open>Utils\<close>:
    \<^verbatim>\<open>utils.cpp\<close>; \<open>Jni\<close>: \<^verbatim>\<open>jni_wrappers.cpp\<close>; \<open>Debug\<close>: \<^verbatim>\<open>debug.cpp\<close> and \<^verbatim>\<open>logPrint\<close>,
    for builds with \<^verbatim>\<open>LOGGING_ENABLED\<close>.
  \<^item> this theory: the properties of the whole library.

  State. The static variables of \<^verbatim>\<open>libpowertutor.cpp\<close> are the fields of the records
  \<open>mobile_vars\<close>, \<open>remote_vars\<close>, \<open>wifi_vars\<close>, \<open>cpu_vars\<close>, \<open>stats_vars\<close>, put
  together in \<open>library\<close> (what the estimates use) and \<open>power_tutor\<close> (everything); an operation
  takes the record and returns the new one. The array indexed by an enumeration is a function. Each
  reading of the clock takes the next position \<open>k\<close> of the environment, so an operation also
  returns the position after it; nothing else is assumed of two readings than that time does not run
  backwards (\<open>steady\<close>).

  What the lemmas show. In every theory an invariant of the component, that each operation returns
  (no assertion fails, no signed overflow, no undefined conversion) and keeps it, and what it
  computes, compared with a specification in microseconds, radio states and exact rationals. The
  locales are the interfaces: \<open>rounding\<close> (a correctly rounding format), \<open>ordered_map\<close> (the
  map), \<open>power_model\<close> (a phone), \<open>radio_timeouts\<close> (a radio that only watches its timeouts),
  \<open>net_dev_source\<close> (the counters), \<open>energy_estimator\<close> (an estimate for transfers of many
  sizes), \<open>critical_sections\<close> (operations under one lock); each is interpreted on the model's own functions.

  Bounds. An \<^verbatim>\<open>int\<close> has 32 bits, a \<^verbatim>\<open>long\<close> and a \<^verbatim>\<open>size_t\<close> 64. Time
  stamps stay below \<open>2 ^ 40\<close> seconds (\<open>valid_tv\<close>). A transfer is \<open>transfer_ok\<close> when it
  is shorter than a terabyte and would take less than about a week and a half, so that its cost fits
  an \<^verbatim>\<open>int\<close>. A second costs at most 4600 mJ on these phones (the CPU at most 1600, the radios
  at most 3000), so 400000 seconds fit the \<^verbatim>\<open>int\<close> totals; that is the length of the session of
  \<open>handset_session\<close>. No function is modelled with fuel: every loop of the code is structural in
  the model or, where a format or a file is read piece by piece, ends by the length of the rest.

  Interleaving. In the theories of the components an operation runs without interference. That this is
  enough for the model of the radio is what \<open>Server_Threads\<close> and \<open>Handset_Threads\<close> show: there a thread is
  interrupted between the steps of its section, and what the operations answer is what they would answer one
  after the other. \<open>Stats_Threads\<close> does the same for the consumption statistics, whose functions also access
  variables without their lock: there the lock is part of the steps, a run may fail, and a run that does not answers
  what the charges and resets answer one after the other. Where the code's own protocol is the point, the steps are modelled too:
  \<open>stats_lock\<close> is part of the state because the code takes it while it may hold it, and \<open>Locks\<close>,
  \<open>Lock_Queue\<close>, \<open>Threads\<close>, \<open>Races\<close> and \<open>Lock_Order\<close> go through the steps of the threads, where
  an interleaving is a relation or a list of actions. \<open>Races\<close> has the accesses that no lock covers.

  Not modelled, and why. Threads on the WiFi rates and the CPU at every access, apart
  from the interruptions of \<open>Races\<close>: \<open>reset_stats\<close> and the update thread share these variables
  without a common lock. The writes of \<open>reset_stats\<close> to the model of the radio are not interleaved with its
  functions either, but \<open>reset_race_radio\<close> shows what one of them does to an update. The calls of \<open>LOGD\<close> inside the functions,
  which only print; what \<^verbatim>\<open>printf\<close> makes of one argument; the iterators of \<^verbatim>\<open>pthread_util.h\<close>,
  which nothing uses; \<open>TimeFunctionBody\<close> with \<^verbatim>\<open>CMM_DEBUG\<close>, which does not compile; and the
  test programs. The callback is the application's code: a call of it is recorded. The clock, the
  files of the kernel, \<^verbatim>\<open>wpa_ctrl.h\<close> and the socket calls are parameters.
\<close>

subsection \<open>A handset from its start\<close>

text \<open>
  A kernel for the witnesses: both interfaces with counters that stand still, and a clock that stands
  still during the start and then ticks once a second.
\<close>

definition still_mobile_line :: dev_line where
  "still_mobile_line = kernel_line MOBILE_IFACE [500, 4, 0, 0, 0, 0, 0, 0, 300, 3, 0, 0, 0, 0, 0, 0]"

definition still_wifi_line :: dev_line where
  "still_wifi_line = kernel_line NexusOne_wifi_iface [9000, 8, 0, 0, 0, 0, 0, 0, 7000, 9, 0, 0, 0, 0, 0, 0]"

definition still_file :: string where
  "still_file = print_file ''Inter'' ''face'' [still_mobile_line, still_wifi_line]"

definition booting :: env where
  "booting =
     \<lparr>clock = (\<lambda>i. \<lparr>tv_sec = 1000 + int (min (i - 15) 100), tv_usec = 0\<rparr>),
      proc_net_dev = (\<lambda>_. Some still_file), proc_stat = (\<lambda>_. None), scaling_cur_freq = (\<lambda>_. None)\<rparr>"

lemma still_lines [simp]:
  "row_ok still_mobile_line" "fst (snd still_mobile_line) = MOBILE_IFACE"
  "row_ok still_wifi_line" "fst (snd still_wifi_line) = NexusOne_wifi_iface"
  by (simp_all add: still_mobile_line_def still_wifi_line_def MOBILE_IFACE_def NexusOne_wifi_iface_def isspace_def)

lemma still_headers: "newline \<notin> set ''Inter''" "newline \<notin> set ''face''"
  by (simp_all add: newline_def)

lemma still_mobile_any: "get_net_dev_stats_from_proc MOBILE_IFACE (Some still_file) x y
    = (0, x(DOWN := 500, UP := 300), y(DOWN := 4, UP := 3))"
  unfolding still_file_def proc_print_file [OF still_headers]
  using parse_lines_print(2) [of "[]" MOBILE_IFACE still_mobile_line "[still_wifi_line]" x y]
  by (simp add: iface_matches_def) (simp add: still_mobile_line_def)

lemmas still_mobile = still_mobile_any [of "\<lambda>_. 0" "\<lambda>_. 0"]

lemma still_wifi: "get_net_dev_stats_from_proc NexusOne_wifi_iface (Some still_file) (\<lambda>_. 0) (\<lambda>_. 0)
    = (0, (\<lambda>_. 0)(DOWN := 9000, UP := 7000), (\<lambda>_. 0)(DOWN := 8, UP := 9))"
proof -
  have "\<not> iface_matches NexusOne_wifi_iface (MOBILE_IFACE @ '':'')"
    by (simp add: iface_matches_def MOBILE_IFACE_def NexusOne_wifi_iface_def)
  then show ?thesis
    unfolding still_file_def proc_print_file [OF still_headers]
    using parse_lines_print(2) [of "[still_mobile_line]" NexusOne_wifi_iface still_wifi_line "[]" "\<lambda>_. 0" "\<lambda>_. 0"]
    by (simp add: iface_matches_def) (simp add: still_wifi_line_def)
qed

lemma still_no_minus: "proc_ok (Some still_file)"
  unfolding still_file_def
  by (rule proc_ok_print_file) (auto simp: MOBILE_IFACE_def NexusOne_wifi_iface_def)

lemma steady_booting: "steady booting"
  by (auto simp: steady_def booting_def valid_tv_def tv_us_def)

lemma kernel_ok_booting: "kernel_ok nexus_one booting"
proof -
  have n: "wifi_iface nexus_one = NexusOne_wifi_iface" by (simp add: wifi_iface_def)
  show ?thesis
    unfolding kernel_ok_def n
    using steady_booting steady_mono [OF steady_booting]
    by (simp add: readable_def bytes_at_def booting_def still_mobile still_wifi small_counts_def
      counts_ok_def all_directions still_no_minus freq_file_ok_def read_int_def)
qed


lemma clock_booting [simp]: "clock booting i = \<lparr>tv_sec = 1000 + int (min (i - 15) 100), tv_usec = 0\<rparr>"
  by (simp add: booting_def)

lemma ticks_ok_booting: "ticks_ok booting (\<lambda>_. [0, 0, 0, 0, 0, 0, 0])"
  by (simp add: ticks_ok_def booting_def all_ticks_def user_ticks_def sys_ticks_def ticks_grow_def)

lemma tracked_bytes_le:
  assumes "kernel_ok pm e" "mobile_tracked e k m consumed"
  shows "0 \<le> consumed \<and> consumed \<le> bytes_at MOBILE_IFACE e k DOWN + bytes_at MOBILE_IFACE e k UP"
proof (cases "mobile_last_bytes m = (\<lambda>_. - 1)")
  case True
  have "counts_ok (bytes_at MOBILE_IFACE e k)" using bytes_at_ok(1) assms(1) by (simp add: kernel_ok_def)
  from counts_okD [OF this, of DOWN] counts_okD [OF this, of UP] True assms(2) show ?thesis
    by (simp add: mobile_tracked_def)
next
  case False
  then obtain i where "i \<le> k" "mobile_last_bytes m = bytes_at MOBILE_IFACE e i"
    using assms(2) by (auto simp: mobile_tracked_def)
  moreover from this have "bytes_at MOBILE_IFACE e i d \<le> bytes_at MOBILE_IFACE e k d" for d
    using assms(1) by (simp add: kernel_ok_def)
  from this [of DOWN] this [of UP] False assms(2) calculation show ?thesis
    by (simp add: mobile_tracked_def)
qed


text \<open>The constructor of the library, with room for \<open>n\<close> updates after it.\<close>

lemma handset_starts:
  assumes "kernel_ok (phone NEXUS_ONE memory) e" "ticks_ok e ticks"
    and "tv_us (clock e 12) - tv_us (clock e 0) < 1000000"
    and "\<forall>i. tv_us (clock e i) \<le> tv_us (clock e 0) + 400000 * 1000000" "int n + 2 < 2 ^ 31"
  shows "\<exists>models s k. libpowertutor_init Handset_build fresh static_initer e 0 power_tutor_init 0
        = Ok (phone NEXUS_ONE memory, models, True, s, k)
    \<and> session_ok (phone NEXUS_ONE memory) e ticks n k s \<and> within_session e (lib_stats s)
    \<and> last_reset (lib_stats s) = clock e 0"
proof -
  let ?pm = "phone NEXUS_ONE memory"
  have l: "\<not> stats_lock (lib_stats power_tutor_init)" by (simp add: stats_vars_init_def)
  have c: "cpu_tracked ticks 0 (lib_cpu power_tutor_init)"
    by (simp add: cpu_tracked_def cpu_at_def cpu_vars_init_def user_ticks_def sys_ticks_def all_ticks_def)
  from session_after_reset [OF phone_ok assms(1,2,5) _ l c] assms(3) obtain s k where
    s: "reset_stats Handset_build ?pm e power_tutor_init 0 = Ok (s, k)" "session_ok ?pm e ticks n k s"
      "last_reset (lib_stats s) = clock e 0" by auto
  have "initArray fresh static_initer NEXUS_ONE = Some ?pm" by (rule initArray_phone) simp
  then obtain models where get: "PowerModel_get fresh 1 static_initer = Ok (Some ?pm, models)"
    by (simp add: PowerModel_get_def PowerModelType_of_int_def)
  have "within_session e (lib_stats s)" using assms(4) s(3) by (simp add: within_session_def)
  then show ?thesis using s get by (auto simp: libpowertutor_init_def)
qed






subsection \<open>Estimates on the handset\<close>

text \<open>
  C19: on a handset a cellular estimate returns, and is within three
  millijoules of the exact cost of the transfer for the radio's current state, with the queues of the
  last sample and the bytes counted since (the uplink queue is the one the transfer joins, the
  downlink queue the one of its acknowledgements) and the time since the last activity.
\<close>

theorem handset_mobile_estimate:
  assumes "power_model pm" "steady e" "ANDROID b" "mobile_inv (tv_us (clock e k)) (lib_mobile s)"
    and "transfer_ok d bw rtt"
    and "get_net_dev_stats b e k MOBILE_IFACE (\<lambda>_. - 1) (\<lambda>_. 0) (lib_mocked s) = ((rc, bytes, packets), mocked)"
    and "rc = 0 \<longrightarrow> counts_ok bytes" "\<forall>dir. 0 \<le> queue_now (lib_mobile s) rc bytes dir
      \<and> queue_now (lib_mobile s) rc bytes dir < 2 ^ 31 - 52"
  shows "\<exists>n s' dur. estimate_energy_cost b pm e TYPE_MOBILE d bw rtt s k = Ok (n, s', k + 2) \<and> 0 \<le> n
    \<and> lib_mobile s' = lib_mobile s
    \<and> tv_us dur = tv_us (clock e (Suc k)) - tv_us (last_mobile_activity (lib_mobile s))
    \<and> \<bar>of_int n - exact_cost pm (mobile_state (lib_mobile s))
        (state_during b pm (uint d + 52) (mobile_state (lib_mobile s))
          (queue_now (lib_mobile s) rc bytes UP) (queue_now (lib_mobile s) rc bytes DOWN))
        (exact_seconds (uint d + 52) (uint bw) (uint rtt)) (convert_to_seconds dur)\<bar> < 3"
proof -
  let ?m = "lib_mobile s"
  have remote: "power_model_is_remote b = False" using assms(3) by (simp add: power_model_is_remote_def)
  have st: "stamp_ok (tv_us (clock e k)) (last_mobile_sample_time ?m)"
    "stamp_ok (tv_us (clock e k)) (last_mobile_activity ?m)"
    "mobile_last_bytes ?m = (\<lambda>_. - 1) \<or> counts_ok (mobile_last_bytes ?m)"
    using assms(4) by (simp_all add: mobile_inv_def)
  have q: "in_int (queue_now ?m rc bytes dir)" for dir
    using spec [OF assms(8), of dir] by (simp add: in_int_def)
  have fit: "in_int (bytes dir - mobile_last_bytes ?m dir)" if "rc = 0 \<and> mobile_last_bytes ?m DOWN \<noteq> - 1" for dir
    using that counts_okD [of bytes dir] assms(7) st(3) counts_okD [of "mobile_last_bytes ?m" dir]
    by (auto simp: in_int_def)
  have len: "get_mobile_queue_len_local b e s k = Ok ((queue_now ?m rc bytes UP, queue_now ?m rc bytes DOWN),
      s\<lparr>lib_mocked := mocked\<rparr>, Suc k)"
    using queue_len_handset [OF assms(2) st(1) remote assms(6)] q fit remote
    by (simp add: get_mobile_queue_len_local_def)
  have "queues_ok (queue_now ?m rc bytes UP) (queue_now ?m rc bytes DOWN)"
    using spec [OF assms(8), of UP] spec [OF assms(8), of DOWN] by (simp add: queues_ok_def)
  from mobile_estimate_Ok [OF assms(1,2,5) this len, of "mobile_state ?m" "last_mobile_activity ?m"] st(2) remote
  show ?thesis by (auto simp: get_mobile_state_def)
qed

lemma handset_mobile_estimate_witness:
  "\<exists>n s'. estimate_energy_cost Handset_build nexus_one booting TYPE_MOBILE 1000 10000 100
      (power_tutor_init\<lparr>lib_mobile := sampled_once\<lparr>mobile_last_bytes := (\<lambda>_. 250)\<rparr>\<rparr>) 20 = Ok (n, s', 22) \<and> 0 \<le> n"
proof -
  let ?s = "power_tutor_init\<lparr>lib_mobile := sampled_once\<lparr>mobile_last_bytes := (\<lambda>_. 250)\<rparr>\<rparr>"
  have inv: "mobile_inv (tv_us (clock booting 20)) (lib_mobile ?s)"
    using sampled_once_inv [of "tv_us (clock booting 20)"]
    by (simp add: mobile_inv_def ledger_ok_def tracked_us_def counts_ok_def tv_us_def)
  have r: "get_net_dev_stats Handset_build booting 20 MOBILE_IFACE (\<lambda>_. - 1) (\<lambda>_. 0) (lib_mocked ?s)
      = ((0, (\<lambda>_. 0)(DOWN := 500, UP := 300), (\<lambda>_. 0)(DOWN := 4, UP := 3)), lib_mocked ?s)"
    using still_mobile_any [of "\<lambda>_. - 1" "\<lambda>_. 0"]
    by (simp add: get_net_dev_stats_def booting_def fun_eq_iff all_directions)
  from handset_mobile_estimate [OF nexus_one_ok steady_booting _ inv some_transfer(1) r]
  show ?thesis
    by (auto simp: counts_ok_def all_directions queue_now_def sampled_once_def mobile_vars_init_def)
qed

end
